(* ===== verification/Prelude.thy ===== *)
theory Prelude
  imports Main "HOL-Library.Word" "HOL-Library.Finite_Map" "HOL-Library.List_Lexorder"
    "HOL-Library.Char_ord" "HOL-Library.Multiset"
begin

text \<open>
  What every component shares: the reading of a Go \<open>string\<close> as a list of bytes
  (Isabelle's \<open>char\<close> is a byte), machine integers, Go's \<open>map[string]string\<close> with its
  nil value, and generic lemmas on lists, multisets and stable sorting.

  The collections: \<open>eval_simps\<close> holds the equations with which a closed instance of the
  model evaluates, \<open>gomap_simps\<close> the laws of the map operations.
\<close>

named_theorems eval_simps
named_theorems gomap_simps

section \<open>Bytes\<close>

type_synonym bytes = string

abbreviation byte :: "char \<Rightarrow> nat" where
  "byte c \<equiv> of_char c"

lemma byte_less_256 [simp]: "byte c < 256"
  by (rule nat_of_char_less_256)

lemma byte_char_of [simp]: "byte (char_of n) = n mod 256" for n :: nat
  by simp

lemma char_of_byte_arith: "n = byte c \<Longrightarrow> char_of n = c"
  by simp

lemma byte_eq_iff: "byte c = byte d \<longleftrightarrow> c = d"
  by (metis char_of_char)

section \<open>Machine integers\<close>

text \<open>Go's \<open>int64\<close>, and \<open>int\<close> on the 64-bit targets the program is built for.\<close>

type_synonym int64 = "64 word"

abbreviation max_int64 :: int where
  "max_int64 \<equiv> 9223372036854775807"

lemma sint64_bounds: "- 9223372036854775808 \<le> sint w \<and> sint w \<le> max_int64" for w :: int64
  using sint_greater_eq [of w] sint_less [of w] by simp

lemma sint64_inject: "sint a = sint b \<longleftrightarrow> a = b" for a b :: int64
  by (rule signed_word_eqI [THEN iffI]) (auto dest: signed_word_eqI)

lemma sint64_of_int: "- 9223372036854775808 \<le> i \<Longrightarrow> i \<le> max_int64 \<Longrightarrow> sint (word_of_int i :: int64) = i"
  by (simp add: sint_sbintrunc' signed_take_bit_int_eq_self)

lemma sint64_succ: "sint w < max_int64 \<Longrightarrow> sint (w + 1) = sint w + 1" for w :: int64
proof -
  assume lt: "sint w < max_int64"
  have "w + 1 = word_of_int (sint w + 1)"
    by simp
  moreover have "sint (word_of_int (sint w + 1) :: int64) = sint w + 1"
    using lt sint64_bounds [of w] by (intro sint64_of_int) auto
  ultimately show ?thesis by simp
qed

lemma sint64_add:
  "- 9223372036854775808 \<le> sint a + sint b \<Longrightarrow> sint a + sint b \<le> max_int64 \<Longrightarrow> sint (a + b) = sint a + sint b"
  for a b :: int64
  using sint64_of_int [of "sint a + sint b"] by simp

lemma sint64_max_succ: "sint w = max_int64 \<Longrightarrow> sint (w + 1) = - 9223372036854775808" for w :: int64
proof -
  assume max: "sint w = max_int64"
  have "w = word_of_int (sint w)"
    by simp
  then have "w = word_of_int max_int64"
    by (simp only: max)
  then show ?thesis by simp
qed

section \<open>Go maps\<close>

text \<open>
  A Go \<open>map[string]string\<close>: the nil map, or a finite map. Reading and deleting work on a
  nil map; writing panics (\<open>None\<close> of \<open>gomap_set\<close>).
\<close>

datatype gomap = NilMap | GoMap "(string, string) fmap"

primrec gomap_entries :: "gomap \<Rightarrow> (string, string) fmap" where
  "gomap_entries NilMap = fmempty"
| "gomap_entries (GoMap m) = m"

definition gomap_get :: "gomap \<Rightarrow> string \<Rightarrow> string option" where
  "gomap_get g k = fmlookup (gomap_entries g) k"

primrec gomap_set :: "gomap \<Rightarrow> string \<Rightarrow> string \<Rightarrow> gomap option" where
  "gomap_set NilMap k v = None"
| "gomap_set (GoMap m) k v = Some (GoMap (fmupd k v m))"

primrec gomap_delete :: "gomap \<Rightarrow> string \<Rightarrow> gomap" where
  "gomap_delete NilMap k = NilMap"
| "gomap_delete (GoMap m) k = GoMap (fmdrop k m)"

lemma gomap_get_set [gomap_simps]:
  "gomap_set g k v = Some g' \<Longrightarrow> gomap_get g' x = (if x = k then Some v else gomap_get g x)"
  by (cases g) (auto simp: gomap_get_def)

lemma gomap_get_delete [gomap_simps]:
  "gomap_get (gomap_delete g k) x = (if x = k then None else gomap_get g x)"
  by (cases g) (auto simp: gomap_get_def)

lemma gomap_set_None [gomap_simps]: "gomap_set g k v = None \<longleftrightarrow> g = NilMap"
  by (cases g) auto

lemma gomap_set_Some_ex [gomap_simps]: "g \<noteq> NilMap \<Longrightarrow> \<exists>m. gomap_set g k v = Some (GoMap m)"
  by (cases g) auto

lemma gomap_delete_NilMap [gomap_simps, simp]: "gomap_delete g k = NilMap \<longleftrightarrow> g = NilMap"
  by (cases g) auto

lemma gomap_set_not_Nil: "gomap_set g k v = Some g' \<Longrightarrow> g' \<noteq> NilMap"
  by (cases g) auto

section \<open>Lists and stable sorting\<close>

lemma foldr_max_le: "(\<And>x. x \<in> set xs \<Longrightarrow> x \<le> n) \<Longrightarrow> foldr max xs 0 \<le> n" for n :: nat
  by (induction xs) auto

lemma sort_key_id: "sorted (map f xs) \<Longrightarrow> sort_key f xs = xs"
  by (induction xs) (auto simp: insort_is_Cons)

lemma length_drop_less: "xs \<noteq> [] \<Longrightarrow> 0 < n \<Longrightarrow> length (drop n xs) < length xs"
  by (cases xs) auto

lemma sorted_wrt_append_single:
  "sorted_wrt P (xs @ [x]) \<longleftrightarrow> sorted_wrt P xs \<and> (\<forall>y \<in> set xs. P y x)"
  by (auto simp: sorted_wrt_append)

lemma concat_map_filter_mset:
  assumes "distinct ks" and "\<forall>x \<in> set xs. f x \<in> set ks"
  shows "mset (concat (map (\<lambda>k. filter (\<lambda>x. f x = k) xs) ks)) = mset xs"
  using assms(2)
proof (induction xs)
  case Nil
  then show ?case by (induction ks) auto
next
  case (Cons x xs)
  have "mset (concat (map (\<lambda>k. filter (\<lambda>y. f y = k) (x # xs)) ks')) =
      mset (concat (map (\<lambda>k. filter (\<lambda>y. f y = k) xs) ks')) + (if f x \<in> set ks' then {#x#} else {#})"
    if "distinct ks'" for ks'
    using that by (induction ks') auto
  with Cons assms(1) show ?case by simp
qed

end
