(* ===== verification/Utf8.thy ===== *)
theory Utf8
  imports Prelude
begin

text \<open>
  The parts of Go's \<open>unicode/utf8\<close> and \<open>utf16\<close> packages that \<open>encoding/json\<close> and
  \<open>strings.TrimSpace\<close> rest on: decoding the first rune of a byte string (an invalid
  sequence yields U+FFFD and consumes one byte), encoding a rune, and \<open>to_valid\<close>, the
  string with every invalid byte replaced by U+FFFD, which is what a JSON round trip
  makes of a string.
\<close>

section \<open>Decoding and encoding runes\<close>

abbreviation rune_error :: nat where
  "rune_error \<equiv> 65533"

definition in_rng :: "nat \<Rightarrow> nat \<Rightarrow> char \<Rightarrow> bool" where
  "in_rng lo hi c \<longleftrightarrow> lo \<le> byte c \<and> byte c \<le> hi"

abbreviation cont :: "char \<Rightarrow> bool" where
  "cont c \<equiv> in_rng 128 191 c"

text \<open>\<open>utf8.DecodeRune\<close>: the rune and the number of bytes it takes.\<close>

definition decode2 :: "nat \<Rightarrow> string \<Rightarrow> (nat \<times> nat) option" where
  "decode2 x s = (case s of
     b # _ \<Rightarrow> if cont b then Some ((x - 192) * 64 + (byte b - 128), 2) else None
   | _ \<Rightarrow> None)"

definition decode3 :: "nat \<Rightarrow> string \<Rightarrow> (nat \<times> nat) option" where
  "decode3 x s = (case s of
     b # c # _ \<Rightarrow>
       if in_rng (if x = 224 then 160 else 128) (if x = 237 then 159 else 191) b \<and> cont c
       then Some ((x - 224) * 4096 + (byte b - 128) * 64 + (byte c - 128), 3) else None
   | _ \<Rightarrow> None)"

definition decode4 :: "nat \<Rightarrow> string \<Rightarrow> (nat \<times> nat) option" where
  "decode4 x s = (case s of
     b # c # d # _ \<Rightarrow>
       if in_rng (if x = 240 then 144 else 128) (if x = 244 then 143 else 191) b \<and> cont c \<and> cont d
       then Some ((x - 240) * 262144 + (byte b - 128) * 4096 + (byte c - 128) * 64 + (byte d - 128), 4)
       else None
   | _ \<Rightarrow> None)"

definition decode_multi :: "nat \<Rightarrow> string \<Rightarrow> (nat \<times> nat) option" where
  "decode_multi x s =
     (if x < 194 then None
      else if x < 224 then decode2 x s
      else if x < 240 then decode3 x s
      else if x < 245 then decode4 x s
      else None)"

fun decode_rune :: "string \<Rightarrow> nat \<times> nat" where
  "decode_rune [] = (rune_error, 0)"
| "decode_rune (a # s) =
     (if byte a < 128 then (byte a, 1)
      else case decode_multi (byte a) s of None \<Rightarrow> (rune_error, 1) | Some rn \<Rightarrow> rn)"

text \<open>\<open>utf8.AppendRune\<close>: surrogates and values past U+10FFFF are written as U+FFFD.\<close>

definition encode_rune :: "nat \<Rightarrow> string" where
  "encode_rune r0 =
     (let r = (if 1114111 < r0 \<or> (55296 \<le> r0 \<and> r0 < 57344) then rune_error else r0) in
      if r < 128 then [char_of r]
      else if r < 2048 then [char_of (192 + r div 64), char_of (128 + r mod 64)]
      else if r < 65536 then
        [char_of (224 + r div 4096), char_of (128 + r div 64 mod 64), char_of (128 + r mod 64)]
      else
        [char_of (240 + r div 262144), char_of (128 + r div 4096 mod 64),
         char_of (128 + r div 64 mod 64), char_of (128 + r mod 64)])"

definition bad_rune :: "nat \<times> nat \<Rightarrow> bool" where
  "bad_rune rn \<longleftrightarrow> rn = (rune_error, 1)"

lemmas decode_defs = decode_multi_def decode2_def decode3_def decode4_def in_rng_def

lemma decode_multi_size:
  "decode_multi x s = Some (r, n) \<Longrightarrow> 2 \<le> n \<and> n \<le> Suc (length s)"
  by (auto simp: decode_defs split: if_splits list.splits)

lemma decode_rune_size: "s \<noteq> [] \<Longrightarrow> 1 \<le> snd (decode_rune s) \<and> snd (decode_rune s) \<le> length s"
  by (cases s) (auto split: option.splits dest: decode_multi_size)

lemma decode_rune_size_pos [simp]: "0 < snd (decode_rune (c # s))"
  using decode_rune_size [of "c # s"] by simp

lemma decode_rune_drop: "s \<noteq> [] \<Longrightarrow> (r, n) = decode_rune s \<Longrightarrow> length (drop n s) < length s"
  using decode_rune_size [of s] by (cases "decode_rune s") auto

lemma decode_multi_not_ascii: "decode_multi x s = Some (r, n) \<Longrightarrow> 128 \<le> r"
  by (auto simp: decode_defs split: if_splits list.splits)

text \<open>A correctly encoded rune is written back as the bytes it was read from.\<close>

lemma div64: "q < 64 \<Longrightarrow> (k * 64 + q) div 64 = k" "q < 64 \<Longrightarrow> (k * 64 + q) mod 64 = q" for k q :: nat
  by auto

lemma div4096: "n div 4096 = n div 64 div 64" "n div 262144 = n div 64 div 64 div 64" for n :: nat
  by (simp_all flip: div_mult2_eq)

lemma cont_split: "cont c \<Longrightarrow> \<exists>q < 64. byte c = 128 + q"
  by (rule exI [of _ "byte c - 128"]) (auto simp: in_rng_def)

lemma encode2:
  assumes "2 \<le> p" "p < 32" "q < 64" and r: "r = p * 64 + q"
  shows "encode_rune r = [char_of (192 + p), char_of (128 + q)]"
proof -
  have "\<not> (1114111 < r \<or> (55296 \<le> r \<and> r < 57344))" "\<not> r < 128" "r < 2048"
    using assms by auto
  moreover have "r div 64 = p" "r mod 64 = q"
    unfolding r using assms(3) by (rule div64)+
  ultimately show ?thesis
    by (auto simp: encode_rune_def Let_def)
qed

lemma encode3:
  assumes "p < 16" "q < 64" "t < 64" "32 \<le> p * 64 + q" "\<not> (864 \<le> p * 64 + q \<and> p * 64 + q < 896)"
    and r: "r = (p * 64 + q) * 64 + t"
  shows "encode_rune r = [char_of (224 + p), char_of (128 + q), char_of (128 + t)]"
proof -
  have "\<not> (1114111 < r \<or> (55296 \<le> r \<and> r < 57344))" "\<not> r < 128" "\<not> r < 2048" "r < 65536"
    using assms by auto
  moreover have "r div 64 = p * 64 + q" "r mod 64 = t"
    unfolding r using assms(3) by (rule div64)+
  ultimately show ?thesis
    using assms(2) by (auto simp: encode_rune_def Let_def div4096 div64)
qed

lemma encode4:
  assumes "p < 5" "q < 64" "t < 64" "u < 64" "16 \<le> p * 64 + q" "p * 64 + q < 272"
    and r: "r = ((p * 64 + q) * 64 + t) * 64 + u"
  shows "encode_rune r = [char_of (240 + p), char_of (128 + q), char_of (128 + t), char_of (128 + u)]"
proof -
  have "\<not> (1114111 < r \<or> (55296 \<le> r \<and> r < 57344))" "\<not> r < 128" "\<not> r < 2048" "\<not> r < 65536"
    using assms by auto
  moreover have r1: "r div 64 = (p * 64 + q) * 64 + t" "r mod 64 = u"
    unfolding r using assms(4) by (rule div64)+
  moreover have "r div 64 div 64 = p * 64 + q" "r div 64 mod 64 = t"
    unfolding r1 using assms(3) by (rule div64)+
  ultimately show ?thesis
    using assms(2) by (simp add: encode_rune_def Let_def div4096 div64)
qed

text \<open>A correctly encoded rune is written back as the bytes it was read from.\<close>

lemma encode_decode_multi:
  assumes dec: "decode_multi (byte a) s = Some (r, n)"
  shows "encode_rune r = a # take (n - 1) s"
proof -
  consider (two) b s' where "s = b # s'" "194 \<le> byte a" "byte a < 224" "cont b"
        "r = (byte a - 192) * 64 + (byte b - 128)" "n = 2"
    | (three) b c s' where "s = b # c # s'" "224 \<le> byte a" "byte a < 240"
        "in_rng (if byte a = 224 then 160 else 128) (if byte a = 237 then 159 else 191) b" "cont c"
        "r = (byte a - 224) * 4096 + (byte b - 128) * 64 + (byte c - 128)" "n = 3"
    | (four) b c d s' where "s = b # c # d # s'" "240 \<le> byte a" "byte a < 245"
        "in_rng (if byte a = 240 then 144 else 128) (if byte a = 244 then 143 else 191) b" "cont c" "cont d"
        "r = (byte a - 240) * 262144 + (byte b - 128) * 4096 + (byte c - 128) * 64 + (byte d - 128)" "n = 4"
    using dec
    by (auto simp: decode_multi_def decode2_def decode3_def decode4_def split: if_splits list.splits)
  then show ?thesis
  proof cases
    case two
    then have "encode_rune r = [char_of (192 + (byte a - 192)), char_of (128 + (byte b - 128))]"
      by (intro encode2) (auto simp: in_rng_def)
    with two show ?thesis by (simp add: in_rng_def)
  next
    case three
    let ?p = "byte a - 224" and ?q = "byte b - 128"
    have "?q < 64" "byte c - 128 < 64" "32 \<le> ?p * 64 + ?q" "\<not> (864 \<le> ?p * 64 + ?q \<and> ?p * 64 + ?q < 896)"
      using three(2-5) by (auto simp: in_rng_def split: if_splits)
    then have "encode_rune r = [char_of (224 + ?p), char_of (128 + ?q), char_of (128 + (byte c - 128))]"
      using three by (intro encode3) auto
    with three show ?thesis by (simp add: in_rng_def split: if_splits)
  next
    case four
    let ?p = "byte a - 240" and ?q = "byte b - 128"
    have "?q < 64" "byte c - 128 < 64" "byte d - 128 < 64" "16 \<le> ?p * 64 + ?q" "?p * 64 + ?q < 272"
      using four(2-6) by (auto simp: in_rng_def split: if_splits)
    then have "encode_rune r =
        [char_of (240 + ?p), char_of (128 + ?q), char_of (128 + (byte c - 128)), char_of (128 + (byte d - 128))]"
      using four by (intro encode4) auto
    with four show ?thesis by (simp add: in_rng_def numeral_3_eq_3 split: if_splits)
  qed
qed

lemma encode_decode:
  assumes "s \<noteq> []" and "\<not> bad_rune (decode_rune s)"
  shows "encode_rune (fst (decode_rune s)) = take (snd (decode_rune s)) s"
proof (cases s)
  case (Cons a s')
  show ?thesis
  proof (cases "byte a < 128")
    case True
    with Cons show ?thesis by (simp add: encode_rune_def Let_def)
  next
    case False
    with Cons assms(2) obtain r n where d: "decode_multi (byte a) s' = Some (r, n)"
      by (auto simp: bad_rune_def split: option.splits)
    from encode_decode_multi [OF d] decode_multi_size [OF d] False Cons show ?thesis
      by (cases n) (auto simp: d)
  qed
qed (use assms(1) in simp)

text \<open>The bytes after a correctly encoded rune do not matter to its decoding.\<close>

lemma decode_multi_append:
  "decode_multi x s = Some (r, n) \<Longrightarrow> decode_multi x (take (n - 1) s @ t) = Some (r, n)"
  by (auto simp: decode_multi_def decode2_def decode3_def decode4_def numeral_3_eq_3
      split: if_splits list.splits)

lemma decode_rune_append:
  assumes "s \<noteq> []" and "\<not> bad_rune (decode_rune s)"
  shows "decode_rune (take (snd (decode_rune s)) s @ t) = decode_rune s"
proof (cases s)
  case (Cons a s')
  show ?thesis
  proof (cases "byte a < 128")
    case False
    with Cons assms(2) obtain r n where d: "decode_multi (byte a) s' = Some (r, n)"
      by (auto simp: bad_rune_def split: option.splits)
    from decode_multi_append [OF d, of t] decode_multi_size [OF d] False Cons show ?thesis
      by (cases n) (auto simp: d)
  qed (use Cons in simp)
qed (use assms(1) in simp)

section \<open>Valid strings\<close>

text \<open>\<open>to_valid s\<close> is \<open>s\<close> with each byte that starts no valid rune replaced by U+FFFD.\<close>

function to_valid :: "string \<Rightarrow> string" where
  "to_valid s =
     (if s = [] then []
      else let (r, n) = decode_rune s in encode_rune r @ to_valid (drop n s))"
  by pat_completeness auto
termination
  by (relation "measure length") (auto dest: decode_rune_drop)

function valid_utf8 :: "string \<Rightarrow> bool" where
  "valid_utf8 s =
     (if s = [] then True
      else let (r, n) = decode_rune s in \<not> bad_rune (r, n) \<and> valid_utf8 (drop n s))"
  by pat_completeness auto
termination
  by (relation "measure length") (auto dest: decode_rune_drop)

declare to_valid.simps [simp del] valid_utf8.simps [simp del]

lemma to_valid_Nil [simp]: "to_valid [] = []"
  by (subst to_valid.simps) simp

lemma valid_utf8_Nil [simp]: "valid_utf8 []"
  by (subst valid_utf8.simps) simp

lemma encode_ascii: "byte c < 128 \<Longrightarrow> encode_rune (byte c) = [c]"
  by (simp add: encode_rune_def Let_def)

lemma to_valid_ascii [simp]: "byte c < 128 \<Longrightarrow> to_valid (c # s) = c # to_valid s"
  by (subst to_valid.simps) (simp add: encode_ascii)

lemma valid_utf8_ascii_Cons [simp]: "byte c < 128 \<Longrightarrow> valid_utf8 (c # s) = valid_utf8 s"
  by (subst valid_utf8.simps) (simp add: bad_rune_def)

lemma valid_utf8_ascii: "\<forall>c \<in> set s. byte c < 128 \<Longrightarrow> valid_utf8 s"
  by (induction s) auto

abbreviation error_bytes :: string where
  "error_bytes \<equiv> [CHR 0xEF, CHR 0xBF, CHR 0xBD]"

lemma encode_rune_error: "encode_rune rune_error = error_bytes"
  by (simp add: encode_rune_def Let_def char_of_byte_arith)

lemma decode_error_bytes [simp]: "decode_rune (error_bytes @ t) = (rune_error, 3)"
  by (simp add: decode_multi_def decode3_def in_rng_def)

lemma decode_rune_prefix:
  assumes "s \<noteq> []" and "\<not> bad_rune (decode_rune s)"
  shows "decode_rune (s @ t) = decode_rune s"
  using decode_rune_append [OF assms, of "drop (snd (decode_rune s)) s @ t"]
  by (simp flip: append_assoc)

lemma to_valid_step_bad:
  "s \<noteq> [] \<Longrightarrow> bad_rune (decode_rune s) \<Longrightarrow> to_valid s = error_bytes @ to_valid (tl s)"
  by (subst to_valid.simps) (simp add: bad_rune_def encode_rune_error drop_Suc)

lemma to_valid_step_good:
  "s \<noteq> [] \<Longrightarrow> \<not> bad_rune (decode_rune s) \<Longrightarrow>
   to_valid s = take (snd (decode_rune s)) s @ to_valid (drop (snd (decode_rune s)) s)"
  by (subst to_valid.simps) (simp add: case_prod_beta encode_decode)

lemma valid_utf8_step:
  "s \<noteq> [] \<Longrightarrow> valid_utf8 s \<longleftrightarrow> \<not> bad_rune (decode_rune s) \<and> valid_utf8 (drop (snd (decode_rune s)) s)"
  by (subst valid_utf8.simps) (simp add: case_prod_beta)

lemma rune_induct [case_names Nil Bad Good]:
  assumes "P []"
    and "\<And>s. s \<noteq> [] \<Longrightarrow> bad_rune (decode_rune s) \<Longrightarrow> P (tl s) \<Longrightarrow> P s"
    and "\<And>s. s \<noteq> [] \<Longrightarrow> \<not> bad_rune (decode_rune s) \<Longrightarrow> P (drop (snd (decode_rune s)) s) \<Longrightarrow> P s"
  shows "P s"
proof (induction s rule: length_induct)
  case (1 s)
  show ?case
  proof (cases "s = []")
    case False
    with decode_rune_size [of s] 1 assms(2,3) [of s] show ?thesis
      by (cases "bad_rune (decode_rune s)") auto
  qed (simp add: assms(1))
qed

lemma to_valid_valid: "valid_utf8 s \<Longrightarrow> to_valid s = s"
  by (induction s rule: rune_induct) (simp_all add: valid_utf8_step to_valid_step_good)

lemma to_valid_append: "valid_utf8 s \<Longrightarrow> to_valid (s @ t) = s @ to_valid t"
proof (induction s rule: rune_induct)
  case (Good s)
  then have d: "decode_rune (s @ t) = decode_rune s" and "valid_utf8 (drop (snd (decode_rune s)) s)"
    and n: "snd (decode_rune s) \<le> length s"
    by (simp_all add: decode_rune_prefix valid_utf8_step decode_rune_size)
  with Good show ?case
    by (subst to_valid_step_good) (simp_all flip: append_assoc)
qed (simp_all add: valid_utf8_step)

lemma valid_utf8_to_valid: "valid_utf8 (to_valid s)"
proof (induction s rule: rune_induct)
  case (Bad s)
  then show ?case
    using decode_error_bytes [of "to_valid (tl s)"]
    by (simp add: to_valid_step_bad valid_utf8_step bad_rune_def del: decode_rune.simps)
next
  case (Good s)
  let ?n = "snd (decode_rune s)"
  have "decode_rune (take ?n s @ to_valid (drop ?n s)) = decode_rune s"
    using Good(1,2) by (rule decode_rune_append)
  then show ?case
    using Good decode_rune_size [of s]
    by (subst to_valid_step_good) (auto simp: valid_utf8_step)
qed simp

lemma to_valid_idem [simp]: "to_valid (to_valid s) = to_valid s"
  by (rule to_valid_valid) (rule valid_utf8_to_valid)

section \<open>Bytes that are in no text\<close>

text \<open>A byte that no UTF-8 text holds reads as an error wherever it stands, whichever it is.\<close>

definition in_no_text :: "char \<Rightarrow> bool" where
  "in_no_text c \<longleftrightarrow> byte c \<in> {192, 193} \<or> 245 \<le> byte c"

abbreviation similar :: "string \<Rightarrow> string \<Rightarrow> bool" where
  "similar \<equiv> list_all2 (\<lambda>a b. a = b \<or> in_no_text a \<and> in_no_text b)"

lemma similar_in_rng:
  assumes "a = b \<or> in_no_text a \<and> in_no_text b" and "hi \<le> 191"
  shows "in_rng lo hi a = (in_rng lo hi b \<and> a = b)" and "a \<noteq> b \<Longrightarrow> \<not> in_rng lo hi b"
  using assms by (auto simp: in_no_text_def in_rng_def)

lemma decode_multi_similar:
  assumes "similar s t"
  shows "decode_multi x s = decode_multi x t"
proof (cases s)
  case Nil
  with assms show ?thesis by simp
next
  case (Cons a s1)
  with assms obtain b t1 where 1: "t = b # t1" "a = b \<or> in_no_text a \<and> in_no_text b" "similar s1 t1"
    by (auto simp: list_all2_Cons1)
  have hi: "(if x = 237 then 159 else 191) \<le> (191 :: nat)" "(if x = 244 then 143 else 191) \<le> (191 :: nat)" by auto
  note c1 = similar_in_rng [OF 1(2) hi(1)] similar_in_rng [OF 1(2) hi(2)] similar_in_rng [OF 1(2) order_refl]
  have d2: "decode2 x s = decode2 x t"
    using c1 by (cases "a = b") (simp_all add: decode2_def Cons 1(1))
  show ?thesis
  proof (cases s1)
    case Nil
    with 1 d2 show ?thesis by (simp add: Cons decode_multi_def decode3_def decode4_def)
  next
    case s1: (Cons c s2)
    with 1(3) obtain d t2 where 2: "t1 = d # t2" "c = d \<or> in_no_text c \<and> in_no_text d" "similar s2 t2"
      by (auto simp: list_all2_Cons1)
    note c2 = similar_in_rng [OF 2(2) order_refl]
    have d3: "decode3 x s = decode3 x t"
      using c1 c2 by (cases "a = b"; cases "c = d") (simp_all add: decode3_def Cons s1 1(1) 2(1))
    show ?thesis
    proof (cases s2)
      case Nil
      with 1 2 d2 d3 show ?thesis by (simp add: Cons s1 decode_multi_def decode4_def)
    next
      case s2: (Cons e s3)
      with 2(3) obtain f t3 where 3: "t2 = f # t3" "e = f \<or> in_no_text e \<and> in_no_text f"
        by (auto simp: list_all2_Cons1)
      note c3 = similar_in_rng [OF 3(2) order_refl]
      have "decode4 x s = decode4 x t"
        using c1 c2 c3 by (cases "a = b"; cases "c = d"; cases "e = f") (simp_all add: decode4_def Cons s1 s2 1(1) 2(1) 3(1))
      with d2 d3 show ?thesis by (simp add: decode_multi_def)
    qed
  qed
qed

lemma to_valid_similar: "similar s t \<Longrightarrow> to_valid s = to_valid t"
proof (induction s arbitrary: t rule: length_induct)
  case (1 s)
  show ?case
  proof (cases s)
    case (Cons a s')
    with 1(2) obtain b t' where t: "t = b # t'" "a = b \<or> in_no_text a \<and> in_no_text b" "similar s' t'"
      by (auto simp: list_all2_Cons1)
    have bad: "to_valid (c # u) = error_bytes @ to_valid u" if "in_no_text c" for c u
      using that by (subst to_valid_step_bad) (auto simp: in_no_text_def bad_rune_def decode_multi_def)
    show ?thesis
    proof (cases "in_no_text a \<or> in_no_text b")
      case True
      then have "in_no_text a" "in_no_text b" using t(2) by auto
      with 1(1) t(3) show ?thesis by (simp add: Cons t(1) bad)
    next
      case False
      then have ab: "b = a" using t(2) by auto
      show ?thesis
      proof (cases "byte a < 128")
        case True
        with 1(1) t(3) show ?thesis by (simp add: Cons t(1) ab)
      next
        case high: False
        show ?thesis
        proof (cases "decode_multi (byte a) s'")
          case None
          then have "decode_multi (byte a) t' = None"
            using decode_multi_similar [OF t(3)] by simp
          with None high 1(1) t(3) show ?thesis
            by (simp add: Cons t(1) ab to_valid_step_bad bad_rune_def)
        next
          case (Some rn)
          then obtain r n where rn: "decode_multi (byte a) s' = Some (r, n)" by (cases rn) auto
          note sim = decode_multi_similar [OF t(3), of "byte a"]
          have "similar (drop (n - 1) s') (drop (n - 1) t')" using t(3) by (rule list_all2_dropI)
          moreover have n: "2 \<le> n" "n \<le> Suc (length s')" using decode_multi_size [OF rn] by auto
          moreover have "to_valid (a # u) = encode_rune r @ to_valid (drop (n - 1) u)"
            if "decode_multi (byte a) u = Some (r, n)" for u
            using that high n by (subst to_valid.simps) (simp add: drop_Cons' Let_def)
          moreover have "length (drop (n - 1) s') < length s" by (simp add: Cons)
          ultimately show ?thesis using rn sim 1(1)
            by (simp add: Cons t(1) ab)
        qed
      qed
    qed
  qed (use 1 in simp)
qed

section \<open>Written runes are valid\<close>

lemma valid_utf8_append: "valid_utf8 s \<Longrightarrow> valid_utf8 t \<Longrightarrow> valid_utf8 (s @ t)"
  by (metis to_valid_append to_valid_valid valid_utf8_to_valid)

lemma split64: "r = (r div 64) * 64 + r mod 64" for r :: nat
  by simp

lemma decode2_digits:
  "2 \<le> p \<Longrightarrow> p < 32 \<Longrightarrow> q < 64 \<Longrightarrow> decode_rune [char_of (192 + p), char_of (128 + q)] = (p * 64 + q, 2)"
  by (simp add: decode_multi_def decode2_def in_rng_def)

lemma decode3_digits:
  assumes "p < 16" "q < 64" "t < 64" "p = 0 \<longrightarrow> 32 \<le> q" "p = 13 \<longrightarrow> q < 32"
  shows "decode_rune [char_of (224 + p), char_of (128 + q), char_of (128 + t)] = (p * 4096 + q * 64 + t, 3)"
  using assms by (auto simp: decode_multi_def decode3_def in_rng_def)

lemma decode4_digits:
  assumes "p < 5" "q < 64" "t < 64" "u < 64" "p = 0 \<longrightarrow> 16 \<le> q" "p = 4 \<longrightarrow> q < 16"
  shows "decode_rune [char_of (240 + p), char_of (128 + q), char_of (128 + t), char_of (128 + u)] =
    (p * 262144 + q * 4096 + t * 64 + u, 4)"
  using assms by (auto simp: decode_multi_def decode4_def in_rng_def)

lemma valid_chunk: "decode_rune s = (r, length s) \<Longrightarrow> length s \<noteq> 1 \<Longrightarrow> valid_utf8 s"
  by (cases "s = []") (simp_all add: valid_utf8_step bad_rune_def)

lemma valid_utf8_encode_rune: "valid_utf8 (encode_rune r0)"
proof -
  define r where "r = (if 1114111 < r0 \<or> (55296 \<le> r0 \<and> r0 < 57344) then rune_error else r0)"
  have r: "r \<le> 1114111" "\<not> (55296 \<le> r \<and> r < 57344)"
    by (auto simp: r_def)
  let ?a = "r mod 64" and ?b = "r div 64 mod 64" and ?c = "r div 64 div 64 mod 64"
  have lt: "?a < 64" "?b < 64" "?c < 64" by simp_all
  consider (one) "r < 128" | (two) "128 \<le> r" "r < 2048" | (three) "2048 \<le> r" "r < 65536" | (four) "65536 \<le> r"
    by linarith
  then have "valid_utf8 (if r < 128 then [char_of r]
      else if r < 2048 then [char_of (192 + r div 64), char_of (128 + r mod 64)]
      else if r < 65536 then
        [char_of (224 + r div 4096), char_of (128 + r div 64 mod 64), char_of (128 + r mod 64)]
      else
        [char_of (240 + r div 262144), char_of (128 + r div 4096 mod 64),
         char_of (128 + r div 64 mod 64), char_of (128 + r mod 64)])"
  proof cases
    case one
    then show ?thesis by simp
  next
    case two
    then have "2 \<le> r div 64" "r div 64 < 32" by auto
    from decode2_digits [OF this lt(1)] two show ?thesis
      by (auto intro!: valid_chunk)
  next
    case three
    have b: "r div 64 = (r div 64 div 64) * 64 + ?b" by (rule split64)
    moreover have "32 \<le> r div 64" "r div 64 < 1024" "\<not> (864 \<le> r div 64 \<and> r div 64 < 896)"
      using three r(2) by auto
    ultimately have "r div 64 div 64 < 16" "r div 64 div 64 = 0 \<longrightarrow> 32 \<le> ?b" "r div 64 div 64 = 13 \<longrightarrow> ?b < 32"
      using lt(2) by linarith+
    from decode3_digits [OF this(1) lt(2,1) this(2,3)] three show ?thesis
      by (auto intro!: valid_chunk simp: div4096)
  next
    case four
    have b: "r div 64 div 64 = (r div 64 div 64 div 64) * 64 + ?c" by (rule split64)
    moreover have "16 \<le> r div 64 div 64" "r div 64 div 64 < 272"
      using four r(1) by auto
    ultimately have "r div 64 div 64 div 64 < 5" "r div 64 div 64 div 64 = 0 \<longrightarrow> 16 \<le> ?c"
        "r div 64 div 64 div 64 = 4 \<longrightarrow> ?c < 16"
      using lt(3) by linarith+
    from decode4_digits [OF this(1) lt(3,2,1) this(2,3)] four show ?thesis
      by (auto intro!: valid_chunk simp: div4096)
  qed
  then show ?thesis
    by (simp only: encode_rune_def Let_def r_def)
qed

end
