(* ===== verification/GoString.thy ===== *)
theory GoString
  imports Utf8
begin

text \<open>
  The operations of Go's \<open>strings\<close>, \<open>strconv\<close> and \<open>fmt\<close> packages that the program
  calls, on byte strings: prefixes and suffixes, splitting at a one-byte separator,
  trimming Unicode white space, decimal numbers, and the hexadecimal padding of
  \<open>%06x\<close>.
\<close>

section \<open>Prefixes, suffixes, splitting\<close>

definition has_prefix :: "string \<Rightarrow> string \<Rightarrow> bool" where
  "has_prefix s p \<longleftrightarrow> take (length p) s = p"

definition trim_prefix :: "string \<Rightarrow> string \<Rightarrow> string" where
  "trim_prefix s p = (if has_prefix s p then drop (length p) s else s)"

text \<open>\<open>strings.CutSuffix\<close>: the string without the suffix, and whether it had it.\<close>

definition cut_suffix :: "string \<Rightarrow> string \<Rightarrow> string \<times> bool" where
  "cut_suffix s x =
     (if length x \<le> length s \<and> drop (length s - length x) s = x
      then (take (length s - length x) s, True) else (s, False))"

text \<open>\<open>strings.Split\<close> with a separator of one byte: always at least one part.\<close>

fun split_on :: "char \<Rightarrow> string \<Rightarrow> string list" where
  "split_on c [] = [[]]"
| "split_on c (x # xs) =
     (if x = c then [] # split_on c xs
      else case split_on c xs of [] \<Rightarrow> [[x]] | p # ps \<Rightarrow> (x # p) # ps)"

fun join_with :: "string \<Rightarrow> string list \<Rightarrow> string" where
  "join_with sep [] = []"
| "join_with sep [p] = p"
| "join_with sep (p # ps) = p @ sep @ join_with sep ps"

lemma has_prefix_append [simp]: "has_prefix (p @ s) p"
  by (simp add: has_prefix_def)

lemma has_prefix_iff: "has_prefix s p \<longleftrightarrow> (\<exists>t. s = p @ t)"
  unfolding has_prefix_def by (metis append_eq_conv_conj append_take_drop_id)

lemma trim_prefix_append [simp]: "trim_prefix (p @ s) p = s"
  by (simp add: trim_prefix_def)

lemma cut_suffix_append [simp]: "cut_suffix (s @ x) x = (s, True)"
  by (simp add: cut_suffix_def)

lemma cut_suffix_True: "cut_suffix s x = (t, True) \<longleftrightarrow> s = t @ x"
  by (auto simp: cut_suffix_def split: if_splits) (metis append_take_drop_id)

lemma cut_suffix_False: "cut_suffix s x = (t, False) \<longleftrightarrow> t = s \<and> (\<forall>u. s \<noteq> u @ x)"
  by (auto simp: cut_suffix_def split: if_splits) (metis append_take_drop_id)

lemma split_on_not_Nil [simp]: "split_on c s \<noteq> []"
  by (cases s) (auto split: list.splits)

lemma split_on_no_sep: "c \<notin> set s \<Longrightarrow> split_on c s = [s]"
  by (induction s) auto

lemma split_on_append: "c \<notin> set p \<Longrightarrow> split_on c (p @ c # s) = p # split_on c s"
  by (induction p) auto

lemma split_on_join:
  assumes "ps \<noteq> []" and "\<forall>p \<in> set ps. c \<notin> set p"
  shows "split_on c (join_with [c] ps) = ps"
  using assms by (induction "[c]" ps rule: join_with.induct) (auto simp: split_on_no_sep split_on_append)

lemma join_with_notin: "c \<notin> set sep \<Longrightarrow> \<forall>p \<in> set ps. c \<notin> set p \<Longrightarrow> c \<notin> set (join_with sep ps)"
  by (induction sep ps rule: join_with.induct) auto

lemma join_split_on: "join_with [c] (split_on c s) = s"
proof (induction s)
  case (Cons x s)
  show ?case
  proof (cases "split_on c s")
    case (Cons p ps)
    with Cons.IH show ?thesis by (cases ps) auto
  qed simp
qed simp

lemma split_on_parts: "p \<in> set (split_on c s) \<Longrightarrow> c \<notin> set p"
proof (induction s arbitrary: p)
  case (Cons x s)
  then show ?case
    by (cases "split_on c s") (auto split: if_splits)
qed simp

section \<open>White space\<close>

text \<open>\<open>unicode.IsSpace\<close>, and \<open>strings.TrimSpace\<close> as it removes white-space runes from
  both ends; the string is cut into the byte sequences of its runes first.\<close>

definition is_space_rune :: "nat \<Rightarrow> bool" where
  "is_space_rune r \<longleftrightarrow>
     r \<in> {9, 10, 11, 12, 13, 32, 133, 160, 5760, 8232, 8233, 8239, 8287, 12288} \<or> 8192 \<le> r \<and> r \<le> 8202"

function rune_chunks :: "string \<Rightarrow> string list" where
  "rune_chunks s =
     (if s = [] then [] else let (r, n) = decode_rune s in take n s # rune_chunks (drop n s))"
  by pat_completeness auto
termination
  by (relation "measure length") (auto dest: decode_rune_drop)

declare rune_chunks.simps [simp del]

definition space_chunk :: "string \<Rightarrow> bool" where
  "space_chunk ch \<longleftrightarrow> is_space_rune (fst (decode_rune ch))"

definition trim_space :: "string \<Rightarrow> string" where
  "trim_space s =
     concat (rev (dropWhile space_chunk (rev (dropWhile space_chunk (rune_chunks s)))))"

lemma rune_chunks_Nil [simp]: "rune_chunks [] = []"
  by (subst rune_chunks.simps) simp

lemma rune_chunks_ascii [simp]: "byte c < 128 \<Longrightarrow> rune_chunks (c # s) = [c] # rune_chunks s"
  by (subst rune_chunks.simps) simp

lemma concat_rune_chunks: "concat (rune_chunks s) = s"
proof (induction s rule: rune_chunks.induct)
  case (1 s)
  then show ?case
    by (cases "s = []"; cases "decode_rune s") (simp_all add: rune_chunks.simps [of s])
qed

lemma space_chunk_ascii: "byte c < 128 \<Longrightarrow> space_chunk [c] \<longleftrightarrow> byte c \<in> {9, 10, 11, 12, 13, 32}"
  by (auto simp: space_chunk_def is_space_rune_def)

lemma rune_chunks_all_ascii: "\<forall>c \<in> set s. byte c < 128 \<Longrightarrow> rune_chunks s = map (\<lambda>c. [c]) s"
  by (induction s) auto

lemma dropWhile_none: "\<forall>x \<in> set xs. \<not> P x \<Longrightarrow> dropWhile P xs = xs"
  by (cases xs) auto

lemma trim_space_ascii:
  assumes "\<forall>c \<in> set s. 32 < byte c \<and> byte c < 128"
  shows "trim_space s = s"
proof -
  have "\<forall>ch \<in> set (rune_chunks s). \<not> space_chunk ch"
    using assms by (auto simp: rune_chunks_all_ascii space_chunk_ascii)
  then have "dropWhile space_chunk (rune_chunks s) = rune_chunks s"
    and "dropWhile space_chunk (rev (rune_chunks s)) = rev (rune_chunks s)"
    by (auto simp: dropWhile_none)
  then show ?thesis
    by (simp add: trim_space_def concat_rune_chunks)
qed

lemma trim_space_Nil [simp]: "trim_space [] = []"
  by (simp add: trim_space_def)

section \<open>Numbers\<close>

definition digit_char :: "nat \<Rightarrow> char" where
  "digit_char d = ''0123456789'' ! d"

definition is_digit :: "char \<Rightarrow> bool" where
  "is_digit c \<longleftrightarrow> 48 \<le> byte c \<and> byte c \<le> 57"

definition digit_val :: "char \<Rightarrow> nat" where
  "digit_val c = byte c - 48"

fun nat_dec :: "nat \<Rightarrow> string" where
  "nat_dec n = (if n < 10 then [digit_char n] else nat_dec (n div 10) @ [digit_char (n mod 10)])"

declare nat_dec.simps [simp del]

text \<open>\<open>%d\<close>, \<open>strconv.FormatInt(_, 10)\<close>\<close>

definition int_dec :: "int \<Rightarrow> string" where
  "int_dec i = (if i < 0 then CHR ''-'' # nat_dec (nat (- i)) else nat_dec (nat i))"

definition digits_val :: "string \<Rightarrow> nat" where
  "digits_val s = foldl (\<lambda>v c. v * 10 + digit_val c) 0 s"

text \<open>
  \<open>strconv.ParseInt(s, 10, 64)\<close> for the text of a JSON number: an optional minus sign
  and digits, in the range of \<open>int64\<close>; a fraction or an exponent is a syntax error.
\<close>

definition parse_int64 :: "string \<Rightarrow> int64 option" where
  "parse_int64 s =
     (let (neg, ds) = (case s of c # r \<Rightarrow> if c = CHR ''-'' then (True, r) else (False, s) | [] \<Rightarrow> (False, s));
          v = (if neg then - int (digits_val ds) else int (digits_val ds))
      in if ds \<noteq> [] \<and> list_all is_digit ds \<and> - 9223372036854775808 \<le> v \<and> v \<le> max_int64
         then Some (word_of_int v) else None)"

lemma digit_char_cases:
  "d < 10 \<Longrightarrow> is_digit (digit_char d) \<and> digit_val (digit_char d) = d \<and> (digit_char d = CHR ''0'' \<longrightarrow> d = 0)"
proof -
  assume "d < 10"
  then have "d \<in> {0, 1, 2, 3, 4, 5, 6, 7, 8, 9}" by auto
  then show ?thesis
    by (auto simp: digit_char_def is_digit_def digit_val_def)
qed

lemma nat_dec_digits: "list_all is_digit (nat_dec n)"
  by (induction n rule: nat_dec.induct) (subst nat_dec.simps, simp add: digit_char_cases)

lemma nat_dec_not_Nil [simp]: "nat_dec n \<noteq> []"
  by (subst nat_dec.simps) simp

lemma digits_val_snoc: "digits_val (s @ [c]) = digits_val s * 10 + digit_val c"
  by (simp add: digits_val_def)

lemma digits_val_nat_dec [simp]: "digits_val (nat_dec n) = n"
proof (induction n rule: nat_dec.induct)
  case (1 n)
  then show ?case
    by (cases "n < 10") (simp_all add: nat_dec.simps [of n] digits_val_snoc digit_char_cases,
        simp add: digits_val_def digit_char_cases)
qed

lemma nat_dec_inject: "nat_dec m = nat_dec n \<longleftrightarrow> m = n"
  by (metis digits_val_nat_dec)

lemma nat_dec_hd: "nat_dec n = CHR ''0'' # r \<Longrightarrow> n = 0"
proof (induction n arbitrary: r rule: nat_dec.induct)
  case (1 n)
  show ?case
  proof (cases "n < 10")
    case True
    with 1(2) show ?thesis by (simp add: nat_dec.simps [of n] digit_char_cases)
  next
    case False
    obtain c cs where cs: "nat_dec (n div 10) = c # cs"
      by (cases "nat_dec (n div 10)") auto
    with 1(2) False have "nat_dec (n div 10) = CHR ''0'' # cs"
      by (simp add: nat_dec.simps [of n])
    with 1(1) False have "n div 10 = 0" by blast
    with False show ?thesis by simp
  qed
qed

lemma not_digit_minus: "\<not> is_digit (CHR ''-'')"
  by (simp add: is_digit_def)

lemma parse_int_dec: "parse_int64 (int_dec (sint w)) = Some w"
proof -
  have hd: "nat_dec n = c # r \<Longrightarrow> c \<noteq> CHR ''-''" for n c r
    using nat_dec_digits [of n] not_digit_minus by auto
  have b: "- 9223372036854775808 \<le> sint w" "sint w \<le> max_int64"
    using sint64_bounds [of w] by auto
  show ?thesis
  proof (cases "sint w < 0")
    case True
    with b show ?thesis
      by (simp add: parse_int64_def int_dec_def Let_def nat_dec_digits)
  next
    case False
    obtain c r where cr: "nat_dec (nat (sint w)) = c # r"
      by (cases "nat_dec (nat (sint w))") auto
    have "digits_val (c # r) = nat (sint w)" "list_all is_digit (c # r)"
      using digits_val_nat_dec [of "nat (sint w)"] nat_dec_digits [of "nat (sint w)"] by (simp_all only: cr)
    with False b hd [OF cr] show ?thesis
      by (simp add: parse_int64_def int_dec_def Let_def cr)
  qed
qed

text \<open>\<open>%06x\<close>\<close>

definition hex_char :: "nat \<Rightarrow> char" where
  "hex_char d = ''0123456789abcdef'' ! d"

fun hex_digits :: "nat \<Rightarrow> string" where
  "hex_digits n = (if n < 16 then [hex_char n] else hex_digits (n div 16) @ [hex_char (n mod 16)])"

declare hex_digits.simps [simp del]

definition hex06 :: "nat \<Rightarrow> string" where
  "hex06 n = replicate (6 - length (hex_digits n)) (CHR ''0'') @ hex_digits n"


section \<open>Paths\<close>

text \<open>\<open>path.Clean\<close> and \<open>filepath.Join\<close> (Unix); the stack of elements is reversed.\<close>

fun clean_parts :: "bool \<Rightarrow> string list \<Rightarrow> string list \<Rightarrow> string list" where
  "clean_parts rooted st [] = rev st"
| "clean_parts rooted st (p # ps) =
     (if p = '''' \<or> p = ''.'' then clean_parts rooted st ps
      else if p = ''..'' then
        (if st \<noteq> [] \<and> hd st \<noteq> ''..'' then clean_parts rooted (tl st) ps
         else if rooted then clean_parts rooted st ps else clean_parts rooted (p # st) ps)
      else clean_parts rooted (p # st) ps)"

definition clean_path :: "string \<Rightarrow> string" where
  "clean_path p =
     (let rooted = has_prefix p ''/''; body = join_with ''/'' (clean_parts rooted [] (split_on (CHR ''/'') p))
      in if rooted then CHR ''/'' # body else if body = '''' then ''.'' else body)"

definition join_path :: "string list \<Rightarrow> string" where
  "join_path es = (let es' = filter (\<lambda>e. e \<noteq> '''') es in
     if es' = [] then '''' else clean_path (join_with ''/'' es'))"

text \<open>A \<open>bool\<close> under \<open>%v\<close>.\<close>

definition btoa :: "bool \<Rightarrow> string" where
  "btoa b = (if b then ''true'' else ''false'')"

end
