(* ===== verification/Nodes.thy ===== *)
theory Nodes
  imports GoString
begin

text \<open>
  \<open>internal/harness/nodes.go\<close>, and what it shares with \<open>ParsePeers\<close> of the server: a list
  of specifications separated by commas, blank ones skipped, each cut at a separator into a
  fixed number of fields, three specifications in all. The locale \<open>spec_list\<close> states the
  shared loop once; each parser interprets it.
\<close>

section \<open>Lists of specifications\<close>

text \<open>\<open>BadSpec\<close> carries the part the message quotes, \<open>WrongCount\<close> the number found.\<close>

datatype spec_error = BadSpec string | WrongCount nat

locale spec_list =
  fixes sep :: char and fields :: "string list \<Rightarrow> 'n option" and shown :: "'n \<Rightarrow> string list"
    and loop :: "string list \<Rightarrow> 'n list \<Rightarrow> spec_error + 'n list"
    and parse :: "string \<Rightarrow> spec_error + 'n list"
  assumes sep_comma: "sep \<noteq> CHR '',''" and sep_print: "32 < byte sep" "byte sep < 128"
    and fields_shown: "fields bits = Some n \<longleftrightarrow> bits = shown n"
    and shown_two: "\<exists>a b r. shown n = a # b # r"
    and loop_Nil: "loop [] acc = Inr acc"
    and loop_Cons: "loop (p # ps) acc = (let part = trim_space p in
      if part = '''' then loop ps acc
      else case fields (split_on sep part) of None \<Rightarrow> Inl (BadSpec part) | Some n \<Rightarrow> loop ps (acc @ [n]))"
    and parse_loop: "parse s = (case loop (split_on (CHR '','') s) [] of Inl e \<Rightarrow> Inl e
      | Inr ns \<Rightarrow> if length ns \<noteq> 3 then Inl (WrongCount (length ns)) else Inr ns)"
begin

text \<open>The parts that are not blank, and what a parser makes of them.\<close>

definition parts :: "string \<Rightarrow> string list" where
  "parts s = filter (\<lambda>p. p \<noteq> '''') (map trim_space (split_on (CHR '','') s))"

definition good :: "string \<Rightarrow> bool" where
  "good part \<longleftrightarrow> fields (split_on sep part) \<noteq> None"

lemma loop_result:
  "loop ps acc = (let qs = filter (\<lambda>p. p \<noteq> '''') (map trim_space ps) in
     case find (\<lambda>q. \<not> good q) qs of Some q \<Rightarrow> Inl (BadSpec q)
     | None \<Rightarrow> Inr (acc @ map (\<lambda>q. the (fields (split_on sep q))) qs))"
  by (induction ps arbitrary: acc) (auto simp: loop_Nil loop_Cons good_def Let_def split: option.splits)

lemma parse_result:
  "parse s = (case find (\<lambda>q. \<not> good q) (parts s) of Some q \<Rightarrow> Inl (BadSpec q)
     | None \<Rightarrow> if length (parts s) \<noteq> 3 then Inl (WrongCount (length (parts s)))
               else Inr (map (\<lambda>q. the (fields (split_on sep q))) (parts s)))"
  by (simp add: parse_loop loop_result parts_def Let_def split: option.splits)

lemma good_join: "good q \<Longrightarrow> q = join_with [sep] (shown (the (fields (split_on sep q))))"
proof -
  assume "good q"
  then obtain n where n: "fields (split_on sep q) = Some n" by (auto simp: good_def)
  then have "split_on sep q = shown n" by (simp only: fields_shown)
  with join_split_on [of sep q] n show ?thesis by simp
qed

text \<open>What was parsed is what was written: three specifications, whose texts are the parts.\<close>

lemma parse_sound:
  assumes "parse s = Inr ns"
  shows "length ns = 3 \<and> map (\<lambda>n. join_with [sep] (shown n)) ns = parts s"
proof -
  from assms have "find (\<lambda>q. \<not> good q) (parts s) = None" and len: "length (parts s) = 3"
    and ns: "ns = map (\<lambda>q. the (fields (split_on sep q))) (parts s)"
    by (auto simp: parse_result split: option.splits if_splits)
  then have "\<forall>q \<in> set (parts s). good q"
    by (auto simp: find_None_iff)
  then show ?thesis
    unfolding ns by (auto simp: len good_join [symmetric] intro!: map_idI)
qed

definition plain :: "'n \<Rightarrow> bool" where
  "plain n \<longleftrightarrow> (\<forall>f \<in> set (shown n). \<forall>c \<in> set f. 32 < byte c \<and> byte c < 128 \<and> c \<noteq> CHR '','' \<and> c \<noteq> sep)"

lemma join_with_set: "set (join_with [sep] fs) \<subseteq> (\<Union>f \<in> set fs. set f) \<union> {sep}"
  by (induction "[sep]" fs rule: join_with.induct) auto

lemma parse_print:
  assumes "length ns = 3" and "\<forall>n \<in> set ns. plain n"
  shows "parse (join_with '','' (map (\<lambda>n. join_with [sep] (shown n)) ns)) = Inr ns"
proof -
  let ?text = "\<lambda>n. join_with [sep] (shown n)"
  have chars: "\<forall>c \<in> set (?text n). 32 < byte c \<and> byte c < 128 \<and> c \<noteq> CHR '',''" if "n \<in> set ns" for n
  proof
    fix c assume "c \<in> set (?text n)"
    then have "c = sep \<or> (\<exists>f \<in> set (shown n). c \<in> set f)" using join_with_set [of "shown n"] by blast
    with assms(2) that show "32 < byte c \<and> byte c < 128 \<and> c \<noteq> CHR '',''"
      using sep_comma sep_print by (auto simp: plain_def)
  qed
  have ne: "?text n \<noteq> ''''" for n
    using shown_two [of n] by (elim exE) simp
  have fs: "fields (split_on sep (?text n)) = Some n" if "n \<in> set ns" for n
    unfolding fields_shown using assms(2) that shown_two [of n]
    by (intro split_on_join) (auto simp: plain_def)
  have "split_on (CHR '','') (join_with '','' (map ?text ns)) = map ?text ns"
    using assms(1) chars by (intro split_on_join) auto
  then have "parts (join_with '','' (map ?text ns)) = map ?text ns"
    using chars ne by (auto simp: parts_def trim_space_ascii comp_def intro!: filter_True)
  moreover have "find (\<lambda>q. \<not> good q) (map ?text ns) = None"
    using fs by (auto simp: find_None_iff good_def)
  ultimately show ?thesis
    using assms(1) fs by (simp add: parse_result comp_def map_idI)
qed

end

section \<open>The harness's nodes\<close>

record node =
  nID :: string
  nURL :: string
  nContainer :: string
  nIP :: string

definition node_fields :: "string list \<Rightarrow> node option" where
  "node_fields bits = (case bits of
     [a, b, c, d] \<Rightarrow> Some \<lparr>nID = a, nURL = b, nContainer = c, nIP = d\<rparr> | _ \<Rightarrow> None)"

primrec node_loop :: "string list \<Rightarrow> node list \<Rightarrow> spec_error + node list" where
  "node_loop [] nodes = Inr nodes"
| "node_loop (p # ps) nodes = (let part = trim_space p in
     if part = '''' then node_loop ps nodes
     else case node_fields (split_on (CHR ''='') part) of
       None \<Rightarrow> Inl (BadSpec part)
     | Some n \<Rightarrow> node_loop ps (nodes @ [n]))"

definition ParseNodes :: "string \<Rightarrow> spec_error + node list" where
  "ParseNodes s = (case node_loop (split_on (CHR '','') s) [] of
     Inl e \<Rightarrow> Inl e
   | Inr nodes \<Rightarrow> if length nodes \<noteq> 3 then Inl (WrongCount (length nodes)) else Inr nodes)"

definition node_shown :: "node \<Rightarrow> string list" where
  "node_shown n = [nID n, nURL n, nContainer n, nIP n]"

interpretation ns: spec_list "CHR ''=''" node_fields node_shown node_loop ParseNodes
proof
  show "node_fields bits = Some n \<longleftrightarrow> bits = node_shown n" for bits n
    by (cases n) (auto simp: node_fields_def node_shown_def split: list.splits)
qed (simp_all add: node_shown_def ParseNodes_def split: option.splits)

definition node_text :: "node \<Rightarrow> string" where
  "node_text n = join_with ''='' [nID n, nURL n, nContainer n, nIP n]"

definition spec_char :: "char \<Rightarrow> char \<Rightarrow> bool" where
  "spec_char sep c \<longleftrightarrow> 32 < byte c \<and> byte c < 128 \<and> c \<noteq> CHR '','' \<and> c \<noteq> sep"

definition node_plain :: "node \<Rightarrow> bool" where
  "node_plain n \<longleftrightarrow> list_all (list_all (spec_char (CHR ''=''))) [nID n, nURL n, nContainer n, nIP n]"

lemma node_plain_iff: "ns.plain n \<longleftrightarrow> node_plain n"
  unfolding ns.plain_def node_plain_def node_shown_def spec_char_def list_all_iff by blast

lemma parse_node_texts:
  assumes "length nodes = 3" and "list_all node_plain nodes"
  shows "ParseNodes (join_with '','' (map node_text nodes)) = Inr nodes"
proof -
  have "\<forall>n \<in> set nodes. ns.plain n"
    using assms(2) by (simp add: node_plain_iff list_all_iff)
  from ns.parse_print [OF assms(1) this] show ?thesis
    by (simp add: node_text_def [abs_def] node_shown_def)
qed

text \<open>\<open>ParseNodes\<close> reads back the specification of any three nodes whose fields are printable
  ASCII without the two separators.\<close>

theorem ParseNodes_print:
  assumes "length nodes = 3" and "list_all node_plain nodes"
  shows "ParseNodes (join_with '','' (map node_text nodes)) = Inr nodes"
  using assms by (rule parse_node_texts)

text \<open>What \<open>ParseNodes\<close> accepts and reports: blank parts are skipped, the first part that does not
  have four fields is the error, and then exactly three nodes are asked for.\<close>

definition blank_free_parts :: "string \<Rightarrow> string list" where
  "blank_free_parts s = filter (\<lambda>p. p \<noteq> '''') (map trim_space (split_on (CHR '','') s))"

text \<open>\<open>ParseNodes\<close> accepts nothing else: what it accepts is three nodes, and their texts are
  the parts of the input that are not blank, in order.\<close>

theorem ParseNodes_sound:
  assumes "ParseNodes s = Inr nodes"
  shows "length nodes = 3 \<and> map node_text nodes = blank_free_parts s"
  using ns.parse_sound [OF assms]
  by (simp add: node_text_def [abs_def] node_shown_def ns.parts_def blank_free_parts_def)


definition default_nodes :: "node list" where
  "default_nodes =
     [\<lparr>nID = ''node1'', nURL = ''http://localhost:8081'', nContainer = ''quorum-node1'', nIP = ''172.28.0.11''\<rparr>,
      \<lparr>nID = ''node2'', nURL = ''http://localhost:8082'', nContainer = ''quorum-node2'', nIP = ''172.28.0.12''\<rparr>,
      \<lparr>nID = ''node3'', nURL = ''http://localhost:8083'', nContainer = ''quorum-node3'', nIP = ''172.28.0.13''\<rparr>]"

theorem ParseNodes_print_witness:
  "ParseNodes (''node1=http://localhost:8081=quorum-node1=172.28.0.11,''
     @ ''node2=http://localhost:8082=quorum-node2=172.28.0.12,''
     @ ''node3=http://localhost:8083=quorum-node3=172.28.0.13'') = Inr default_nodes"
proof -
  have "list_all node_plain default_nodes" by code_simp
  from ParseNodes_print [OF _ this] show ?thesis
    by (simp add: default_nodes_def node_text_def)
qed

theorem ParseNodes_sound_witness:
  "map node_text default_nodes = blank_free_parts (join_with '','' (map node_text default_nodes))"
proof -
  have "list_all node_plain default_nodes" by code_simp
  then have "ParseNodes (join_with '','' (map node_text default_nodes)) = Inr default_nodes"
    by (intro parse_node_texts) (simp add: default_nodes_def)
  from ParseNodes_sound [OF this] show ?thesis by simp
qed

end
