(* ===== verification/Json.thy ===== *)
theory Json
  imports GoString
begin

text \<open>
  Go's \<open>encoding/json\<close> as the program uses it: the text \<open>json.Marshal\<close> writes
  (HTML-escaped strings, invalid UTF-8 written as \<open>\ufffd\<close>), a scanner and pushdown
  parser with Go's nesting limit, and the rules by which \<open>json.Unmarshal\<close> stores a
  value into a struct (field names matched under case folding, type errors recorded while
  the decoding goes on). The main result is that the parser reads back what the printer
  wrote, with each string made valid UTF-8 (\<open>json_text_jprint\<close>).
\<close>

section \<open>Writing\<close>

datatype json = JNull | JBool bool | JNum string | JStr string
  | JArr "json list" | JObj "(string \<times> json) list"

abbreviation qmark :: char where "qmark \<equiv> CHR 0x22"
abbreviation bslash :: char where "bslash \<equiv> CHR 0x5C"

definition esc_ascii :: "char \<Rightarrow> string" where
  "esc_ascii c =
     (if c = qmark \<or> c = bslash then [bslash, c]
      else if c = CHR 0x08 then [bslash, CHR ''b'']
      else if c = CHR 0x0C then [bslash, CHR ''f'']
      else if c = CHR 0x0A then [bslash, CHR ''n'']
      else if c = CHR 0x0D then [bslash, CHR ''r'']
      else if c = CHR 0x09 then [bslash, CHR ''t'']
      else if byte c < 32 \<or> c \<in> {CHR ''<'', CHR ''>'', CHR ''&''}
        then bslash # ''u00'' @ [hex_char (byte c div 16), hex_char (byte c mod 16)]
      else [c])"

function esc :: "string \<Rightarrow> string" where
  "esc s =
     (if s = [] then []
      else let (r, n) = decode_rune s in
        (if n = 1 \<and> r < 128 then esc_ascii (hd s)
         else if bad_rune (r, n) then bslash # ''ufffd''
         else if r = 8232 \<or> r = 8233 then bslash # ''u202'' @ [hex_char (r mod 16)]
         else take n s) @ esc (drop n s))"
  by pat_completeness auto
termination
  by (relation "measure length") (auto dest: decode_rune_drop)

declare esc.simps [simp del]

lemma esc_Nil [simp]: "esc [] = []"
  by (subst esc.simps) simp

lemma esc_ascii_Cons [simp]: "byte c < 128 \<Longrightarrow> esc (c # s) = esc_ascii c @ esc s"
  by (subst esc.simps) simp

definition quote :: "string \<Rightarrow> string" where
  "quote s = qmark # esc s @ [qmark]"

fun jprint :: "json \<Rightarrow> string" where
  "jprint JNull = ''null''"
| "jprint (JBool b) = (if b then ''true'' else ''false'')"
| "jprint (JNum n) = n"
| "jprint (JStr s) = quote s"
| "jprint (JArr vs) = ''['' @ join_with '','' (map jprint vs) @ '']''"
| "jprint (JObj ms) = ''{'' @ join_with '','' (map (\<lambda>(k, v). quote k @ '':'' @ jprint v) ms) @ ''}''"

section \<open>Scanning\<close>

definition hex_val :: "char \<Rightarrow> nat option" where
  "hex_val c =
     (let b = byte c in
      if 48 \<le> b \<and> b \<le> 57 then Some (b - 48)
      else if 97 \<le> b \<and> b \<le> 102 then Some (b - 87)
      else if 65 \<le> b \<and> b \<le> 70 then Some (b - 55)
      else None)"

text \<open>The four hexadecimal digits of a \<open>\u\<close> escape.\<close>

definition hex4 :: "string \<Rightarrow> (nat \<times> string) option" where
  "hex4 s = (case s of
     a # b # c # d # r \<Rightarrow>
       (case (hex_val a, hex_val b, hex_val c, hex_val d) of
          (Some w, Some x, Some y, Some z) \<Rightarrow> Some (w * 4096 + x * 256 + y * 16 + z, r)
        | _ \<Rightarrow> None)
   | _ \<Rightarrow> None)"

text \<open>A \<open>\u\<close> escape after its \<open>u\<close>: the rune it denotes (two escapes for a surrogate pair,
  U+FFFD for a lone surrogate) and the text after it.\<close>

definition unicode_escape :: "string \<Rightarrow> (nat \<times> string) option" where
  "unicode_escape s = (case hex4 s of
     None \<Rightarrow> None
   | Some (v, r) \<Rightarrow>
       if 55296 \<le> v \<and> v < 57344 then
         (case r of
            b # u # r' \<Rightarrow>
              if b = bslash \<and> u = CHR ''u'' then
                (case hex4 r' of
                   Some (w, r'') \<Rightarrow>
                     if v < 56320 \<and> 56320 \<le> w \<and> w < 57344
                     then Some ((v - 55296) * 1024 + (w - 56320) + 65536, r'')
                     else Some (rune_error, r)
                 | None \<Rightarrow> Some (rune_error, r))
              else Some (rune_error, r)
          | _ \<Rightarrow> Some (rune_error, r))
       else Some (v, r))"

definition simple_escape :: "char \<Rightarrow> char option" where
  "simple_escape c =
     (if c \<in> {qmark, bslash, CHR ''/''} then Some c
      else if c = CHR ''b'' then Some (CHR 0x08)
      else if c = CHR ''f'' then Some (CHR 0x0C)
      else if c = CHR ''n'' then Some (CHR 0x0A)
      else if c = CHR ''r'' then Some (CHR 0x0D)
      else if c = CHR ''t'' then Some (CHR 0x09)
      else None)"

text \<open>One item of a string literal: the bytes it stands for and the text after it.\<close>

definition lex_item :: "string \<Rightarrow> (string \<times> string) option" where
  "lex_item s = (case s of
     [] \<Rightarrow> None
   | c # r \<Rightarrow>
       if c = bslash then
         (case r of
            [] \<Rightarrow> None
          | e # r1 \<Rightarrow>
              if e = CHR ''u'' then map_option (\<lambda>(v, r2). (encode_rune v, r2)) (unicode_escape r1)
              else map_option (\<lambda>d. ([d], r1)) (simple_escape e))
       else if byte c < 32 then None
       else let (v, n) = decode_rune s in Some (encode_rune v, drop n s))"

lemma hex4_length: "hex4 s = Some (v, r) \<Longrightarrow> length r < length s"
  by (auto simp: hex4_def split: list.splits option.splits)

lemma unicode_escape_length: "unicode_escape s = Some (v, r) \<Longrightarrow> length r < length s"
  unfolding unicode_escape_def
  by (fastforce dest: hex4_length split: option.splits list.splits if_splits)

lemma lex_item_length: "lex_item s = Some (x, r) \<Longrightarrow> length r < length s"
proof -
  assume a: "lex_item s = Some (x, r)"
  then obtain c t where "s = c # t"
    by (cases s) (auto simp: lex_item_def)
  with a decode_rune_size [of s] show ?thesis
    by (auto simp: lex_item_def dest!: unicode_escape_length split: if_splits list.splits prod.splits)
qed

text \<open>A string literal after its opening quotation mark.\<close>

function lex_str :: "string \<Rightarrow> (string \<times> string) option" where
  "lex_str s =
     (if s \<noteq> [] \<and> hd s = qmark then Some ([], tl s)
      else case lex_item s of
        None \<Rightarrow> None
      | Some (x, r) \<Rightarrow> map_option (\<lambda>(y, r'). (x @ y, r')) (lex_str r))"
  by pat_completeness auto
termination
  by (relation "measure length") (auto dest: lex_item_length)

declare lex_str.simps [simp del]

lemma lex_str_length: "lex_str s = Some (x, r) \<Longrightarrow> length r < length s"
proof (induction s arbitrary: x rule: lex_str.induct)
  case (1 s)
  show ?case
  proof (cases "s \<noteq> [] \<and> hd s = qmark")
    case True
    with 1(2) show ?thesis
      unfolding lex_str.simps [of s] by (cases s) auto
  next
    case False
    with 1(2) obtain y r' z where "lex_item s = Some (y, r')" "lex_str r' = Some (z, r)"
      by (auto simp: lex_str.simps [of s] split: option.splits)
    with 1(1) [OF False] lex_item_length [of s y r'] show ?thesis by fastforce
  qed
qed

text \<open>Numbers, by JSON's grammar: the literal and the text after it.\<close>

definition lex_digits :: "string \<Rightarrow> (string \<times> string) option" where
  "lex_digits s = (if takeWhile is_digit s = [] then None
     else Some (takeWhile is_digit s, dropWhile is_digit s))"

definition lex_int :: "string \<Rightarrow> (string \<times> string) option" where
  "lex_int s = (case s of
     c # r \<Rightarrow> if c = CHR ''0'' then Some ([c], r) else lex_digits s
   | [] \<Rightarrow> None)"

definition lex_frac :: "string \<Rightarrow> (string \<times> string) option" where
  "lex_frac s = (case s of
     c # r \<Rightarrow> if c = CHR ''.'' then map_option (\<lambda>(ds, r'). (c # ds, r')) (lex_digits r) else Some ([], s)
   | [] \<Rightarrow> Some ([], s))"

definition lex_exp :: "string \<Rightarrow> (string \<times> string) option" where
  "lex_exp s = (case s of
     e # r \<Rightarrow>
       if e = CHR ''e'' \<or> e = CHR ''E'' then
         (case r of
            g # r1 \<Rightarrow>
              if g = CHR ''+'' \<or> g = CHR ''-''
              then map_option (\<lambda>(ds, r'). (e # g # ds, r')) (lex_digits r1)
              else map_option (\<lambda>(ds, r'). (e # ds, r')) (lex_digits r)
          | [] \<Rightarrow> None)
       else Some ([], s)
   | [] \<Rightarrow> Some ([], s))"

definition lex_number :: "string \<Rightarrow> (string \<times> string) option" where
  "lex_number s =
     (let (sg, s0) = (case s of c # r \<Rightarrow> if c = CHR ''-'' then ([c], r) else ([], s) | [] \<Rightarrow> ([], s)) in
      case lex_int s0 of None \<Rightarrow> None
      | Some (i, s1) \<Rightarrow>
        (case lex_frac s1 of None \<Rightarrow> None
         | Some (f, s2) \<Rightarrow>
           (case lex_exp s2 of None \<Rightarrow> None
            | Some (e, s3) \<Rightarrow> Some (sg @ i @ f @ e, s3))))"

lemma lex_digits_split: "lex_digits s = Some (x, r) \<Longrightarrow> s = x @ r \<and> x \<noteq> []"
  by (auto simp: lex_digits_def split: if_splits)

lemma lex_int_split: "lex_int s = Some (x, r) \<Longrightarrow> s = x @ r \<and> x \<noteq> []"
  by (auto simp: lex_int_def split: list.splits if_splits dest: lex_digits_split)

lemma lex_frac_split: "lex_frac s = Some (x, r) \<Longrightarrow> s = x @ r"
  by (auto simp: lex_frac_def split: list.splits if_splits dest: lex_digits_split)

lemma lex_exp_split: "lex_exp s = Some (x, r) \<Longrightarrow> s = x @ r"
  by (auto simp: lex_exp_def split: list.splits if_splits dest: lex_digits_split)

lemma lex_number_split: "lex_number s = Some (x, r) \<Longrightarrow> s = x @ r \<and> x \<noteq> []"
  by (auto simp: lex_number_def Let_def split: list.splits if_splits option.splits
      dest!: lex_int_split lex_frac_split lex_exp_split)

lemma lex_number_length: "lex_number s = Some (x, r) \<Longrightarrow> length r < length s"
  by (auto dest: lex_number_split)

text \<open>Tokens, after JSON's white space.\<close>

datatype tok = TLBrace | TRBrace | TLBrack | TRBrack | TColon | TComma
  | TStr string | TAtom json

definition json_space :: "char \<Rightarrow> bool" where
  "json_space c \<longleftrightarrow> c \<in> {CHR '' '', CHR 0x09, CHR 0x0A, CHR 0x0D}"

definition lex_tok :: "string \<Rightarrow> (tok \<times> string) option" where
  "lex_tok s = (case s of
     [] \<Rightarrow> None
   | c # r \<Rightarrow>
       if c = CHR ''{'' then Some (TLBrace, r)
       else if c = CHR ''}'' then Some (TRBrace, r)
       else if c = CHR ''['' then Some (TLBrack, r)
       else if c = CHR '']'' then Some (TRBrack, r)
       else if c = CHR '':'' then Some (TColon, r)
       else if c = CHR '','' then Some (TComma, r)
       else if c = qmark then map_option (\<lambda>(x, r'). (TStr x, r')) (lex_str r)
       else if has_prefix s ''null'' then Some (TAtom JNull, drop 4 s)
       else if has_prefix s ''true'' then Some (TAtom (JBool True), drop 4 s)
       else if has_prefix s ''false'' then Some (TAtom (JBool False), drop 5 s)
       else map_option (\<lambda>(n, r'). (TAtom (JNum n), r')) (lex_number s))"

definition lex1 :: "string \<Rightarrow> (tok \<times> string) option" where
  "lex1 s = lex_tok (dropWhile json_space s)"

lemma lex_tok_length: "lex_tok s = Some (t, r) \<Longrightarrow> length r < length s"
  by (auto simp: lex_tok_def split: list.splits if_splits dest!: lex_str_length lex_number_length)

lemma lex1_length: "lex1 s = Some (t, r) \<Longrightarrow> length r < length s"
  unfolding lex1_def by (drule lex_tok_length) (rule less_le_trans, assumption, rule length_dropWhile_le)

section \<open>Parsing\<close>

text \<open>The parser's stack holds the unfinished arrays and objects, their members in reverse
  (an object's current key beside them); the mode says what may come next.\<close>

datatype frame = FArr "json list" | FObj "(string \<times> json) list" string

datatype mode = MValue | MValueOrClose | MKeyOrClose | MKey | MColon | MAfter

datatype parse = PFail | PDone json | PCont mode "frame list"

text \<open>\<open>maxNestingDepth\<close> of \<open>encoding/json\<close>.\<close>

definition max_depth :: nat where
  "max_depth = 10000"

definition complete :: "json \<Rightarrow> frame list \<Rightarrow> parse" where
  "complete v st = (case st of
     [] \<Rightarrow> PDone v
   | FArr vs # st' \<Rightarrow> PCont MAfter (FArr (v # vs) # st')
   | FObj ms k # st' \<Rightarrow> PCont MAfter (FObj ((k, v) # ms) k # st'))"

lemma complete_simps [simp]:
  "complete v [] = PDone v"
  "complete v (FArr vs # st) = PCont MAfter (FArr (v # vs) # st)"
  "complete v (FObj ms k # st) = PCont MAfter (FObj ((k, v) # ms) k # st)"
  by (simp_all add: complete_def)

definition push :: "mode \<Rightarrow> frame \<Rightarrow> frame list \<Rightarrow> parse" where
  "push m f st = (if length st < max_depth then PCont m (f # st) else PFail)"

definition value_step :: "tok \<Rightarrow> frame list \<Rightarrow> parse" where
  "value_step t st = (case t of
     TLBrace \<Rightarrow> push MKeyOrClose (FObj [] []) st
   | TLBrack \<Rightarrow> push MValueOrClose (FArr []) st
   | TStr s \<Rightarrow> complete (JStr s) st
   | TAtom v \<Rightarrow> complete v st
   | _ \<Rightarrow> PFail)"

fun pstep :: "mode \<Rightarrow> frame list \<Rightarrow> tok \<Rightarrow> parse" where
  "pstep MValue st t = value_step t st"
| "pstep MValueOrClose (FArr vs # st) TRBrack = complete (JArr (rev vs)) st"
| "pstep MValueOrClose st t = value_step t st"
| "pstep MKeyOrClose (FObj ms k # st) TRBrace = complete (JObj (rev ms)) st"
| "pstep MKeyOrClose (FObj ms k # st) (TStr s) = PCont MColon (FObj ms s # st)"
| "pstep MKey (FObj ms k # st) (TStr s) = PCont MColon (FObj ms s # st)"
| "pstep MColon st TColon = PCont MValue st"
| "pstep MAfter (FArr vs # st) TComma = PCont MValue (FArr vs # st)"
| "pstep MAfter (FArr vs # st) TRBrack = complete (JArr (rev vs)) st"
| "pstep MAfter (FObj ms k # st) TComma = PCont MKey (FObj ms k # st)"
| "pstep MAfter (FObj ms k # st) TRBrace = complete (JObj (rev ms)) st"
| "pstep m st t = PFail"

function prun :: "mode \<Rightarrow> frame list \<Rightarrow> string \<Rightarrow> (json \<times> string) option" where
  "prun m st s = (case lex1 s of
     None \<Rightarrow> None
   | Some (t, r) \<Rightarrow>
       (case pstep m st t of
          PFail \<Rightarrow> None
        | PDone v \<Rightarrow> Some (v, r)
        | PCont m' st' \<Rightarrow> prun m' st' r))"
  by pat_completeness auto
termination
  by (relation "measure (\<lambda>(m, st, s). length s)") (auto dest: lex1_length)

declare prun.simps [simp del]

text \<open>The first value of a stream (\<open>json.Decoder\<close>), and a whole text (\<open>json.Unmarshal\<close>).\<close>

definition json_first :: "string \<Rightarrow> (json \<times> string) option" where
  "json_first s = prun MValue [] s"

definition json_text :: "string \<Rightarrow> json option" where
  "json_text s = (case json_first s of
     Some (v, r) \<Rightarrow> if list_all json_space r then Some v else None
   | None \<Rightarrow> None)"

section \<open>What was written is read back\<close>

text \<open>The value as it survives a round trip: strings made valid UTF-8.\<close>

fun jsan :: "json \<Rightarrow> json" where
  "jsan (JStr s) = JStr (to_valid s)"
| "jsan (JArr vs) = JArr (map jsan vs)"
| "jsan (JObj ms) = JObj (map (\<lambda>(k, v). (to_valid k, jsan v)) ms)"
| "jsan v = v"

fun jdepth :: "json \<Rightarrow> nat" where
  "jdepth (JArr vs) = Suc (foldr max (map jdepth vs) 0)"
| "jdepth (JObj ms) = Suc (foldr max (map (\<lambda>(k, v). jdepth v) ms) 0)"
| "jdepth v = 0"

text \<open>The numbers the program writes are integers.\<close>

fun jints :: "json \<Rightarrow> bool" where
  "jints (JNum n) \<longleftrightarrow> (\<exists>i. n = int_dec i)"
| "jints (JArr vs) \<longleftrightarrow> (\<forall>v \<in> set vs. jints v)"
| "jints (JObj ms) \<longleftrightarrow> (\<forall>(k, v) \<in> set ms. jints v)"
| "jints v \<longleftrightarrow> True"

subsection \<open>Strings\<close>

lemma hex_val_hex_char: "d < 16 \<Longrightarrow> hex_val (hex_char d) = Some d"
proof -
  assume "d < 16"
  then have "d \<in> {0, 1, 2, 3, 4, 5, 6, 7, 8, 9, 10, 11, 12, 13, 14, 15}"
    by (simp only: insert_iff empty_iff) presburger
  then show ?thesis
    by (auto simp: hex_char_def hex_val_def)
qed

lemma lex_str_item:
  "s \<noteq> [] \<Longrightarrow> hd s \<noteq> qmark \<Longrightarrow> lex_item s = Some (x, r) \<Longrightarrow>
   lex_str s = map_option (\<lambda>(y, r'). (x @ y, r')) (lex_str r)"
  by (subst lex_str.simps) simp

lemma lex_item_u:
  "hex4 u = Some (v, t) \<Longrightarrow> \<not> (55296 \<le> v \<and> v < 57344) \<Longrightarrow> lex_item (bslash # CHR ''u'' # u) = Some (encode_rune v, t)"
  by (auto simp: lex_item_def unicode_escape_def)

lemma hex4_00: "b < 256 \<Longrightarrow> hex4 (CHR ''0'' # CHR ''0'' # hex_char (b div 16) # hex_char (b mod 16) # t) = Some (b, t)"
proof -
  assume "b < 256"
  moreover have "hex_val (CHR ''0'') = Some 0"
    by (simp add: hex_val_def)
  ultimately show ?thesis
    by (simp add: hex4_def hex_val_hex_char)
qed

lemma lex_item_esc_ascii:
  assumes "byte c < 128"
  shows "lex_item (esc_ascii c @ t) = Some ([c], t)" "esc_ascii c \<noteq> []" "hd (esc_ascii c) \<noteq> qmark"
proof -
  have "lex_item (esc_ascii c @ t) = Some ([c], t) \<and> esc_ascii c \<noteq> [] \<and> hd (esc_ascii c) \<noteq> qmark"
  proof (cases "c \<in> {qmark, bslash, CHR 0x08, CHR 0x0C, CHR 0x0A, CHR 0x0D, CHR 0x09}")
    case True
    then show ?thesis
      by (auto simp: esc_ascii_def lex_item_def simple_escape_def)
  next
    case False
    then have c: "c \<noteq> qmark" "c \<noteq> bslash" and e: "esc_ascii c =
        (if byte c < 32 \<or> c \<in> {CHR ''<'', CHR ''>'', CHR ''&''}
         then bslash # ''u00'' @ [hex_char (byte c div 16), hex_char (byte c mod 16)] else [c])"
      by (auto simp: esc_ascii_def)
    show ?thesis
    proof (cases "byte c < 32 \<or> c \<in> {CHR ''<'', CHR ''>'', CHR ''&''}")
      case True
      have "lex_item (bslash # CHR ''u'' # CHR ''0'' # CHR ''0'' # hex_char (byte c div 16) # hex_char (byte c mod 16) # t) =
          Some (encode_rune (byte c), t)"
        using assms by (intro lex_item_u hex4_00) auto
      then show ?thesis
        by (simp only: e if_P [OF True]) (simp add: encode_ascii assms)
    next
      case False
      then show ?thesis
        using assms c by (simp only: e if_not_P [OF False]) (simp add: lex_item_def encode_ascii)
    qed
  qed
  then show "lex_item (esc_ascii c @ t) = Some ([c], t)" "esc_ascii c \<noteq> []" "hd (esc_ascii c) \<noteq> qmark"
    by auto
qed

lemma lex_str_esc: "lex_str (esc s @ qmark # t) = Some (to_valid s, t)"
proof (induction s rule: rune_induct)
  case Nil
  then show ?case by (simp add: esc.simps lex_str.simps [of "qmark # t"])
next
  case (Bad s)
  have "hex4 (''fffd'' @ u) = Some (rune_error, u)" for u
    by (simp add: hex4_def hex_val_def)
  then have "lex_item (bslash # CHR ''u'' # ''fffd'' @ u) = Some (error_bytes, u)" for u
    by (subst lex_item_u) (auto simp: encode_rune_error)
  moreover have "esc s = bslash # ''ufffd'' @ esc (tl s)"
    using Bad by (subst esc.simps) (simp add: bad_rune_def drop_Suc)
  ultimately show ?case
    using Bad by (simp add: lex_str_item to_valid_step_bad)
next
  case (Good s)
  obtain r n where d: "decode_rune s = (r, n)" by (cases "decode_rune s")
  obtain c s' where s: "s = c # s'" using Good(1) by (cases s) auto
  let ?u = "esc (drop n s) @ qmark # t"
  have IH: "lex_str ?u = Some (to_valid (drop n s), t)"
    using Good(3) d by simp
  have good: "\<not> bad_rune (r, n)" and enc: "encode_rune r = take n s"
    using Good(1,2) encode_decode [of s] by (simp_all add: d)
  have "\<exists>w. esc s = w @ esc (drop n s) \<and> w \<noteq> [] \<and> hd w \<noteq> qmark \<and> lex_item (w @ ?u) = Some (take n s, ?u)"
  proof (cases "n = 1 \<and> r < 128")
    case True
    then have "byte c < 128" and n: "n = 1"
      using d s by (auto split: if_splits option.splits dest: decode_multi_not_ascii)
    with lex_item_esc_ascii(1) [OF this(1), of ?u] lex_item_esc_ascii(2,3) [OF this(1)] show ?thesis
      using True d s by (intro exI [of _ "esc_ascii c"]) simp
  next
    case False
    then have c: "\<not> byte c < 128"
      using d s by (auto split: if_splits)
    show ?thesis
    proof (cases "r = 8232 \<or> r = 8233")
      case True
      then have "hex4 (''202'' @ hex_char (r mod 16) # ?u) = Some (r, ?u)"
        by (simp add: hex4_def hex_val_hex_char) (auto simp: hex_val_def hex_char_def)
      then have "lex_item (bslash # CHR ''u'' # ''202'' @ hex_char (r mod 16) # ?u) = Some (encode_rune r, ?u)"
        using True by (intro lex_item_u) auto
      then show ?thesis
        using True False good d Good(1)
        by (intro exI [of _ "bslash # ''u202'' @ [hex_char (r mod 16)]"]) (auto simp: esc.simps [of s] enc)
    next
      case other: False
      have "0 < n" "n \<le> length s" using d decode_rune_size [OF Good(1)] by auto
      then have w: "take n s @ ?u = c # take (n - 1) s' @ ?u"
        using s by (cases n) auto
      have "decode_rune (take n s @ ?u) = (r, n)"
        using decode_rune_append [OF Good(1,2), of ?u] d by simp
      moreover have "drop n (take n s @ ?u) = ?u"
        using \<open>n \<le> length s\<close> by simp
      ultimately have "lex_item (take n s @ ?u) = Some (take n s, ?u)"
        using c enc unfolding w by (auto simp: lex_item_def simp del: decode_rune.simps)
      moreover have "esc s = take n s @ esc (drop n s)"
        using False other good d Good(1) by (auto simp: esc.simps [of s])
      moreover have "take n s \<noteq> []" "hd (take n s) \<noteq> qmark"
        using \<open>0 < n\<close> s c by (auto simp: take_Cons')
      ultimately show ?thesis by blast
    qed
  qed
  then obtain w where w: "esc s = w @ esc (drop n s)" "w \<noteq> []" "hd w \<noteq> qmark"
    "lex_item (w @ ?u) = Some (take n s, ?u)" by blast
  then show ?case
    using lex_str_item [OF _ _ w(4)] IH Good(1,2) d
    by (simp add: to_valid_step_good)
qed

subsection \<open>Values\<close>

text \<open>A number ends where a character that cannot continue it stands.\<close>

definition num_end :: "string \<Rightarrow> bool" where
  "num_end s \<longleftrightarrow> (case s of [] \<Rightarrow> True
     | c # _ \<Rightarrow> \<not> is_digit c \<and> c \<noteq> CHR ''.'' \<and> c \<noteq> CHR ''e'' \<and> c \<noteq> CHR ''E'')"

lemma takeWhile_digits_append:
  "list_all is_digit ds \<Longrightarrow> num_end t \<Longrightarrow>
   takeWhile is_digit (ds @ t) = ds \<and> dropWhile is_digit (ds @ t) = t"
  by (induction ds) (auto simp: num_end_def split: list.splits)

lemma lex_int_nat_dec: "num_end t \<Longrightarrow> lex_int (nat_dec n @ t) = Some (nat_dec n, t)"
proof -
  assume t: "num_end t"
  obtain c r where cr: "nat_dec n = c # r" by (cases "nat_dec n") auto
  show ?thesis
  proof (cases "c = CHR ''0''")
    case True
    with cr have "n = 0" by (auto dest: nat_dec_hd)
    then have "r = []" using cr by (simp add: nat_dec.simps [of 0])
    with True cr show ?thesis by (simp add: lex_int_def)
  next
    case False
    then show ?thesis
      using takeWhile_digits_append [OF nat_dec_digits t, of n] by (simp add: lex_int_def lex_digits_def cr)
  qed
qed

lemma lex_frac_exp_end: "num_end t \<Longrightarrow> lex_frac t = Some ([], t) \<and> lex_exp t = Some ([], t)"
  by (auto simp: lex_frac_def lex_exp_def num_end_def split: list.splits)

lemma nat_dec_hd_digit: "nat_dec n = c # r \<Longrightarrow> is_digit c"
  using nat_dec_digits [of n] by simp

lemma lex_number_int_dec:
  assumes "num_end t"
  shows "lex_number (int_dec i @ t) = Some (int_dec i, t)"
proof -
  have "lex_number (nat_dec n @ t) = Some (nat_dec n, t)" for n
  proof -
    obtain c r where cr: "nat_dec n = c # r" by (cases "nat_dec n") auto
    then have "c \<noteq> CHR ''-''"
      using nat_dec_hd_digit [OF cr] not_digit_minus by auto
    then show ?thesis
      using lex_int_nat_dec [OF assms, of n] lex_frac_exp_end [OF assms] by (simp add: lex_number_def cr)
  qed
  moreover have "lex_number (CHR ''-'' # nat_dec n @ t) = Some (CHR ''-'' # nat_dec n, t)" for n
    using lex_int_nat_dec [OF assms, of n] lex_frac_exp_end [OF assms] by (simp add: lex_number_def)
  ultimately show ?thesis
    by (simp add: int_dec_def)
qed

text \<open>The tokens a printed value starts with.\<close>

lemma lex1_punct [simp]:
  "lex1 (CHR ''{'' # s) = Some (TLBrace, s)" "lex1 (CHR ''}'' # s) = Some (TRBrace, s)"
  "lex1 (CHR ''['' # s) = Some (TLBrack, s)" "lex1 (CHR '']'' # s) = Some (TRBrack, s)"
  "lex1 (CHR '':'' # s) = Some (TColon, s)" "lex1 (CHR '','' # s) = Some (TComma, s)"
  by (simp_all add: lex1_def json_space_def lex_tok_def)

lemma lex1_quote [simp]: "lex1 (quote s @ t) = Some (TStr (to_valid s), t)"
  by (simp add: lex1_def json_space_def lex_tok_def quote_def lex_str_esc)

lemma lex1_atoms [simp]:
  "lex1 (CHR ''n'' # CHR ''u'' # CHR ''l'' # CHR ''l'' # s) = Some (TAtom JNull, s)"
  "lex1 (CHR ''t'' # CHR ''r'' # CHR ''u'' # CHR ''e'' # s) = Some (TAtom (JBool True), s)"
  "lex1 (CHR ''f'' # CHR ''a'' # CHR ''l'' # CHR ''s'' # CHR ''e'' # s) = Some (TAtom (JBool False), s)"
  by (simp_all add: lex1_def json_space_def lex_tok_def has_prefix_def)

lemma lex1_int_dec:
  assumes "num_end t"
  shows "lex1 (int_dec i @ t) = Some (TAtom (JNum (int_dec i)), t)"
proof -
  obtain c r where cr: "int_dec i = c # r" and c: "c = CHR ''-'' \<or> is_digit c"
  proof (cases "int_dec i")
    case (Cons c r)
    then show ?thesis
      using that [of c r] nat_dec_hd_digit by (auto simp: int_dec_def split: if_splits)
  qed (auto simp: int_dec_def split: if_splits)
  have "\<not> json_space c" "c \<notin> {CHR ''{'', CHR ''}'', CHR ''['', CHR '']'', CHR '':'', CHR '','', qmark, CHR ''n'', CHR ''t'', CHR ''f''}"
    using c by (auto simp: is_digit_def json_space_def)
  then have "lex1 (c # r @ t) = map_option (\<lambda>(n, r'). (TAtom (JNum n), r')) (lex_number (c # r @ t))"
    by (auto simp: lex1_def lex_tok_def has_prefix_def)
  also have "lex_number (c # r @ t) = Some (c # r, t)"
    using lex_number_int_dec [OF assms, of i] by (simp add: cr)
  finally show ?thesis by (simp add: cr)
qed

text \<open>What the parser does once a value is complete.\<close>

definition resume :: "parse \<Rightarrow> string \<Rightarrow> (json \<times> string) option" where
  "resume p r = (case p of PFail \<Rightarrow> None | PDone v \<Rightarrow> Some (v, r) | PCont m st \<Rightarrow> prun m st r)"

lemma prun_step: "lex1 s = Some (t, r) \<Longrightarrow> prun m st s = resume (pstep m st t) r"
  by (subst prun.simps) (simp add: resume_def)

lemma resume_simps [simp]:
  "resume (PDone v) r = Some (v, r)" "resume (PCont m st) r = prun m st r" "resume PFail r = None"
  by (simp_all add: resume_def)

lemma join_with_Cons: "join_with sep (p # ps) = p @ concat (map (\<lambda>q. sep @ q) ps)"
  by (induction ps arbitrary: p) auto

lemma num_end_simps [simp]:
  "num_end []" "num_end (CHR '','' # s)" "num_end (CHR ''}'' # s)" "num_end (CHR '']'' # s)"
  by (simp_all add: num_end_def is_digit_def)

text \<open>\<open>reads v\<close>: wherever a value may stand, the parser reads the text of \<open>v\<close> as \<open>jsan v\<close>.\<close>

definition reads :: "json \<Rightarrow> bool" where
  "reads v \<longleftrightarrow> (\<forall>m st t. m \<in> {MValue, MValueOrClose} \<longrightarrow> length st + jdepth v \<le> max_depth \<longrightarrow>
     num_end t \<longrightarrow> prun m st (jprint v @ t) = resume (complete (jsan v) st) t)"

lemma readsD:
  "reads v \<Longrightarrow> m \<in> {MValue, MValueOrClose} \<Longrightarrow> length st + jdepth v \<le> max_depth \<Longrightarrow> num_end t \<Longrightarrow>
   prun m st (jprint v @ t) = resume (complete (jsan v) st) t"
  unfolding reads_def by blast

lemma jdepth_member:
  "v \<in> set vs \<Longrightarrow> jdepth v \<le> foldr max (map jdepth vs) 0"
  "(k, v) \<in> set ms \<Longrightarrow> jdepth v \<le> foldr max (map (\<lambda>(k, v). jdepth v) ms) 0"
  by (induction vs; induction ms; force)+

lemma pstep_value:
  "m \<in> {MValue, MValueOrClose} \<Longrightarrow> t \<noteq> TRBrack \<Longrightarrow> pstep m st t = value_step t st"
  by (cases "(m, st, t)" rule: pstep.cases) auto

lemma prun_elems:
  assumes "\<forall>v \<in> set xs. reads v \<and> length st + Suc (jdepth v) \<le> max_depth"
  shows "prun MAfter (FArr vs # st) (concat (map (\<lambda>x. '','' @ jprint x) xs) @ CHR '']'' # t) =
    resume (complete (JArr (rev vs @ map jsan xs)) st) t"
  using assms
proof (induction xs arbitrary: vs)
  case Nil
  then show ?case by (simp add: prun_step)
next
  case (Cons x xs)
  let ?r = "concat (map (\<lambda>x. '','' @ jprint x) xs) @ CHR '']'' # t"
  have "num_end ?r"
    by (cases xs) simp_all
  then have "prun MValue (FArr vs # st) (jprint x @ ?r) = resume (complete (jsan x) (FArr vs # st)) ?r"
    using Cons.prems by (intro readsD) auto
  with Cons show ?case
    by (simp add: prun_step)
qed

lemma prun_arr: 
  assumes "\<forall>v \<in> set xs. reads v"
  shows "reads (JArr xs)"
  unfolding reads_def
proof (intro allI impI)
  fix m :: mode and st :: "frame list" and t
  assume m: "m \<in> {MValue, MValueOrClose}" and d: "length st + jdepth (JArr xs) \<le> max_depth"
  have start: "prun m st (CHR ''['' # s) = prun MValueOrClose (FArr [] # st) s" for s
    using m d by (auto simp: prun_step value_step_def push_def)
  show "prun m st (jprint (JArr xs) @ t) = resume (complete (jsan (JArr xs)) st) t"
  proof (cases xs)
    case Nil
    then show ?thesis by (simp add: start prun_step)
  next
    case (Cons x ys)
    let ?r = "concat (map (\<lambda>x. '','' @ jprint x) ys) @ CHR '']'' # t"
    have dx: "\<forall>v \<in> set xs. reads v \<and> length st + Suc (jdepth v) \<le> max_depth"
      using assms d jdepth_member(1) [of _ xs] by fastforce
    have "num_end ?r"
      by (cases ys) simp_all
    then have "prun MValueOrClose (FArr [] # st) (jprint x @ ?r) = resume (complete (jsan x) (FArr [] # st)) ?r"
      using dx Cons by (intro readsD) auto
    with prun_elems [of ys st "[jsan x]" t] dx Cons show ?thesis
      by (simp add: start join_with_Cons comp_def)
  qed
qed

abbreviation jmember :: "string \<times> json \<Rightarrow> string" where
  "jmember \<equiv> \<lambda>(k, v). quote k @ '':'' @ jprint v"

lemma prun_member:
  assumes "reads v" "length st + Suc (jdepth v) \<le> max_depth" "num_end r" "m \<in> {MKey, MKeyOrClose}"
  shows "prun m (FObj ms k0 # st) (jmember (k, v) @ r) =
    prun MAfter (FObj ((to_valid k, jsan v) # ms) (to_valid k) # st) r"
proof -
  have "prun MValue (FObj ms (to_valid k) # st) (jprint v @ r) =
      resume (complete (jsan v) (FObj ms (to_valid k) # st)) r"
    using assms by (intro readsD) auto
  with assms(4) show ?thesis
    by (auto simp: prun_step)
qed

lemma prun_members:
  assumes "\<forall>(k, v) \<in> set ps. reads v \<and> length st + Suc (jdepth v) \<le> max_depth"
  shows "prun MAfter (FObj ms k0 # st) (concat (map (\<lambda>p. '','' @ jmember p) ps) @ CHR ''}'' # t) =
    resume (complete (JObj (rev ms @ map (\<lambda>(k, v). (to_valid k, jsan v)) ps)) st) t"
  using assms
proof (induction ps arbitrary: ms k0)
  case Nil
  then show ?case by (simp add: prun_step)
next
  case (Cons p ps)
  obtain k v where p: "p = (k, v)" by (cases p)
  let ?r = "concat (map (\<lambda>p. '','' @ jmember p) ps) @ CHR ''}'' # t"
  have "num_end ?r"
    by (cases ps) simp_all
  then have "prun MKey (FObj ms k0 # st) (jmember (k, v) @ ?r) =
      prun MAfter (FObj ((to_valid k, jsan v) # ms) (to_valid k) # st) ?r"
    using Cons.prems p by (intro prun_member) auto
  with Cons p show ?case
    by (simp add: prun_step)
qed

lemma prun_obj:
  assumes "\<forall>(k, v) \<in> set ps. reads v"
  shows "reads (JObj ps)"
  unfolding reads_def
proof (intro allI impI)
  fix m :: mode and st :: "frame list" and t
  assume m: "m \<in> {MValue, MValueOrClose}" and d: "length st + jdepth (JObj ps) \<le> max_depth"
  have start: "prun m st (CHR ''{'' # s) = prun MKeyOrClose (FObj [] [] # st) s" for s
    using m d by (auto simp: prun_step value_step_def push_def)
  show "prun m st (jprint (JObj ps) @ t) = resume (complete (jsan (JObj ps)) st) t"
  proof (cases ps)
    case Nil
    then show ?thesis by (simp add: start prun_step)
  next
    case (Cons p qs)
    obtain k v where p: "p = (k, v)" by (cases p)
    let ?r = "concat (map (\<lambda>p. '','' @ jmember p) qs) @ CHR ''}'' # t"
    have dx: "\<forall>(k, v) \<in> set ps. reads v \<and> length st + Suc (jdepth v) \<le> max_depth"
      using assms d jdepth_member(2) [of _ _ ps] by fastforce
    have "num_end ?r"
      by (cases qs) simp_all
    then have "prun MKeyOrClose (FObj [] [] # st) (jmember (k, v) @ ?r) =
        prun MAfter (FObj [(to_valid k, jsan v)] (to_valid k) # st) ?r"
      using dx Cons p by (intro prun_member) auto
    with prun_members [of qs st "[(to_valid k, jsan v)]" "to_valid k" t] dx Cons p show ?thesis
      by (simp add: start join_with_Cons comp_def)
  qed
qed

theorem jints_reads: "jints v \<Longrightarrow> reads v"
proof (induction v)
  case (JArr vs)
  then show ?case by (intro prun_arr) auto
next
  case (JObj ms)
  then show ?case by (intro prun_obj) force
qed (auto simp: reads_def prun_step pstep_value value_step_def lex1_int_dec)

text \<open>The round trip of a whole text, and of the first value of a stream.\<close>

corollary json_first_jprint:
  "jints v \<Longrightarrow> jdepth v \<le> max_depth \<Longrightarrow> num_end t \<Longrightarrow> json_first (jprint v @ t) = Some (jsan v, t)"
  unfolding json_first_def by (subst readsD [OF jints_reads]) auto

corollary json_text_jprint: "jints v \<Longrightarrow> jdepth v \<le> max_depth \<Longrightarrow> json_text (jprint v) = Some (jsan v)"
  using json_first_jprint [of v "[]"] by (simp add: json_text_def)

section \<open>Every string that was read is valid UTF-8\<close>

fun jvalid :: "json \<Rightarrow> bool" where
  "jvalid (JStr s) \<longleftrightarrow> valid_utf8 s"
| "jvalid (JArr vs) \<longleftrightarrow> (\<forall>v \<in> set vs. jvalid v)"
| "jvalid (JObj ms) \<longleftrightarrow> (\<forall>(k, v) \<in> set ms. valid_utf8 k \<and> jvalid v)"
| "jvalid v \<longleftrightarrow> True"

fun frame_valid :: "frame \<Rightarrow> bool" where
  "frame_valid (FArr vs) \<longleftrightarrow> (\<forall>v \<in> set vs. jvalid v)"
| "frame_valid (FObj ms k) \<longleftrightarrow> valid_utf8 k \<and> (\<forall>(k, v) \<in> set ms. valid_utf8 k \<and> jvalid v)"

fun tok_valid :: "tok \<Rightarrow> bool" where
  "tok_valid (TStr s) \<longleftrightarrow> valid_utf8 s"
| "tok_valid (TAtom v) \<longleftrightarrow> jvalid v"
| "tok_valid t \<longleftrightarrow> True"

fun parse_valid :: "parse \<Rightarrow> bool" where
  "parse_valid PFail \<longleftrightarrow> True"
| "parse_valid (PDone v) \<longleftrightarrow> jvalid v"
| "parse_valid (PCont m st) \<longleftrightarrow> (\<forall>f \<in> set st. frame_valid f)"

lemma lex_item_valid: "lex_item s = Some (x, r) \<Longrightarrow> valid_utf8 x"
  by (auto simp: lex_item_def simple_escape_def valid_utf8_encode_rune split: list.splits if_splits prod.splits)

lemma lex_str_valid: "lex_str s = Some (x, r) \<Longrightarrow> valid_utf8 x"
proof (induction s arbitrary: x rule: lex_str.induct)
  case (1 s)
  show ?case
  proof (cases "s \<noteq> [] \<and> hd s = qmark")
    case True
    with 1(2) show ?thesis by (simp add: lex_str.simps [of s])
  next
    case False
    with 1(2) obtain y r' z where "lex_item s = Some (y, r')" "lex_str r' = Some (z, r)" "x = y @ z"
      unfolding lex_str.simps [of s] by (auto split: option.splits)
    with 1(1) [OF False] lex_item_valid show ?thesis
      by (fastforce intro: valid_utf8_append)
  qed
qed

lemma lex1_valid: "lex1 s = Some (t, r) \<Longrightarrow> tok_valid t"
  by (auto simp: lex1_def lex_tok_def split: list.splits if_splits dest: lex_str_valid)

lemma complete_valid: "jvalid v \<Longrightarrow> \<forall>f \<in> set st. frame_valid f \<Longrightarrow> parse_valid (complete v st)"
  by (auto simp: complete_def split: list.splits frame.splits)

lemma value_step_valid: "tok_valid t \<Longrightarrow> \<forall>f \<in> set st. frame_valid f \<Longrightarrow> parse_valid (value_step t st)"
  by (cases t) (auto simp: value_step_def push_def complete_valid)

lemma pstep_valid: "tok_valid t \<Longrightarrow> \<forall>f \<in> set st. frame_valid f \<Longrightarrow> parse_valid (pstep m st t)"
  by (cases "(m, st, t)" rule: pstep.cases) (auto intro!: complete_valid value_step_valid)

lemma prun_valid: "\<forall>f \<in> set st. frame_valid f \<Longrightarrow> prun m st s = Some (v, r) \<Longrightarrow> jvalid v"
proof (induction m st s rule: prun.induct)
  case (1 m st s)
  from 1(3) obtain t r' where t: "lex1 s = Some (t, r')"
    by (auto simp: prun.simps [of m st s] split: option.splits)
  have "parse_valid (pstep m st t)"
    using lex1_valid [OF t] 1(2) by (rule pstep_valid)
  with 1 t show ?case
    by (cases "pstep m st t") (auto simp: prun.simps [of m st s])
qed

lemma json_first_valid: "json_first s = Some (v, r) \<Longrightarrow> jvalid v"
  using prun_valid [of "[]" MValue s v r] by (simp add: json_first_def)

lemma json_text_valid: "json_text s = Some v \<Longrightarrow> jvalid v"
  by (auto simp: json_text_def split: option.splits if_splits dest: json_first_valid)

section \<open>Storing into Go values\<close>

text \<open>
  Struct fields are looked up under \<open>foldName\<close>: ASCII letters upper-cased, and the two
  other runes whose case orbit meets ASCII (U+017F and U+212A) taken to S and K. The field
  names of the program are ASCII, so folding the other runes further cannot matter.
\<close>

primrec upper :: "char \<Rightarrow> char" where
  "upper (Char b0 b1 b2 b3 b4 b5 b6 b7) =
     (if 97 \<le> byte (Char b0 b1 b2 b3 b4 b5 b6 b7) \<and> byte (Char b0 b1 b2 b3 b4 b5 b6 b7) \<le> 122
      then Char b0 b1 b2 b3 b4 False b6 b7 else Char b0 b1 b2 b3 b4 b5 b6 b7)"

fun fold_name :: "string \<Rightarrow> string" where
  "fold_name [] = []"
| "fold_name (c # r) =
     (if byte c < 128 then upper c # fold_name r
      else if c = CHR 0xC5 \<and> take 1 r = [CHR 0xBF] then CHR ''S'' # fold_name (drop 1 r)
      else if c = CHR 0xE2 \<and> take 2 r = [CHR 0x84, CHR 0xAA] then CHR ''K'' # fold_name (drop 2 r)
      else c # fold_name r)"

definition key_is :: "string \<Rightarrow> string \<Rightarrow> bool" where
  "key_is key name \<longleftrightarrow> fold_name key = map upper name"

text \<open>
  Storing a JSON value into a Go variable: the new value, and whether a type error is
  recorded (\<open>UnmarshalTypeError\<close>; the decoding goes on). \<open>null\<close> leaves a variable as it
  is, except that it sets a pointer to nil; a mismatch leaves an allocated pointer behind.
\<close>

fun dec_string :: "json \<Rightarrow> string \<Rightarrow> string \<times> bool" where
  "dec_string JNull old = (old, False)"
| "dec_string (JStr s) old = (s, False)"
| "dec_string _ old = (old, True)"

fun dec_bool :: "json \<Rightarrow> bool \<Rightarrow> bool \<times> bool" where
  "dec_bool JNull old = (old, False)"
| "dec_bool (JBool b) old = (b, False)"
| "dec_bool _ old = (old, True)"

fun dec_strptr :: "json \<Rightarrow> string option \<Rightarrow> string option \<times> bool" where
  "dec_strptr JNull old = (None, False)"
| "dec_strptr (JStr s) old = (Some s, False)"
| "dec_strptr _ old = (Some (case old of None \<Rightarrow> '''' | Some x \<Rightarrow> x), True)"

fun dec_int64 :: "json \<Rightarrow> int64 \<Rightarrow> int64 \<times> bool" where
  "dec_int64 JNull old = (old, False)"
| "dec_int64 (JNum n) old = (case parse_int64 n of Some w \<Rightarrow> (w, False) | None \<Rightarrow> (old, True))"
| "dec_int64 _ old = (old, True)"

text \<open>The members of an object, in order; the error flag is set once a type error occurs.\<close>

fun dec_members :: "(string \<Rightarrow> json \<Rightarrow> 'r \<Rightarrow> 'r \<times> bool) \<Rightarrow> (string \<times> json) list \<Rightarrow> 'r \<Rightarrow> 'r \<times> bool" where
  "dec_members store [] r = (r, False)"
| "dec_members store ((k, v) # ms) r =
     (let (r1, e1) = store k v r; (r2, e2) = dec_members store ms r1 in (r2, e1 \<or> e2))"

fun dec_struct :: "(string \<Rightarrow> json \<Rightarrow> 'r \<Rightarrow> 'r \<times> bool) \<Rightarrow> json \<Rightarrow> 'r \<Rightarrow> 'r \<times> bool" where
  "dec_struct store (JObj ms) r = dec_members store ms r"
| "dec_struct store JNull r = (r, False)"
| "dec_struct store _ r = (r, True)"

text \<open>A \<open>map[string]string\<close>: \<open>null\<close> makes it nil, an object adds to what the map holds;
  a value that is no string is recorded as an error and stored as the empty string.\<close>

definition store_entry :: "string \<Rightarrow> json \<Rightarrow> (string, string) fmap \<Rightarrow> (string, string) fmap \<times> bool" where
  "store_entry k v m = (let (x, e) = dec_string v '''' in (fmupd k x m, e))"

fun dec_strmap :: "json \<Rightarrow> gomap \<Rightarrow> gomap \<times> bool" where
  "dec_strmap JNull old = (NilMap, False)"
| "dec_strmap (JObj ms) old = (let (m, e) = dec_members store_entry ms (gomap_entries old) in (GoMap m, e))"
| "dec_strmap _ old = (old, True)"

datatype json_err = SyntaxError | TypeError

text \<open>\<open>json.Unmarshal\<close> checks the whole text first; \<open>Decoder.Decode\<close> reads one value.\<close>

definition stored :: "(json \<Rightarrow> 'r \<Rightarrow> 'r \<times> bool) \<Rightarrow> json option \<Rightarrow> 'r \<Rightarrow> 'r \<times> json_err option" where
  "stored dec jv r = (case jv of
     None \<Rightarrow> (r, Some SyntaxError)
   | Some v \<Rightarrow> (let (r', e) = dec v r in (r', if e then Some TypeError else None)))"

definition unmarshal :: "(json \<Rightarrow> 'r \<Rightarrow> 'r \<times> bool) \<Rightarrow> bytes \<Rightarrow> 'r \<Rightarrow> 'r \<times> json_err option" where
  "unmarshal dec b r = stored dec (json_text b) r"

definition decode_stream :: "(json \<Rightarrow> 'r \<Rightarrow> 'r \<times> bool) \<Rightarrow> bytes \<Rightarrow> 'r \<Rightarrow> 'r \<times> json_err option" where
  "decode_stream dec b r = stored dec (map_option fst (json_first b)) r"

lemma unmarshal_jprint:
  "jints v \<Longrightarrow> jdepth v \<le> max_depth \<Longrightarrow>
   unmarshal dec (jprint v) r = (let (r', e) = dec (jsan v) r in (r', if e then Some TypeError else None))"
  by (simp add: unmarshal_def stored_def json_text_jprint)

lemma unmarshal_jprint_newline:
  "jints v \<Longrightarrow> jdepth v \<le> max_depth \<Longrightarrow>
   unmarshal dec (jprint v @ [CHR 0x0A]) r = (let (r', e) = dec (jsan v) r in (r', if e then Some TypeError else None))"
  by (simp add: unmarshal_def stored_def json_text_def json_first_jprint num_end_def is_digit_def json_space_def)

lemma decode_stream_jprint:
  "jints v \<Longrightarrow> jdepth v \<le> max_depth \<Longrightarrow> num_end t \<Longrightarrow>
   decode_stream dec (jprint v @ t) r = (let (r', e) = dec (jsan v) r in (r', if e then Some TypeError else None))"
  by (simp add: decode_stream_def stored_def json_first_jprint)

lemma dec_string_valid: "jvalid v \<Longrightarrow> valid_utf8 s \<Longrightarrow> valid_utf8 (fst (dec_string v s))"
  by (cases v) auto

lemma dec_strptr_valid:
  "jvalid v \<Longrightarrow> pred_option valid_utf8 p \<Longrightarrow> pred_option valid_utf8 (fst (dec_strptr v p))"
  by (cases v) (auto split: option.splits)

lemma dec_members_inv:
  assumes "\<And>k v r. (k, v) \<in> set ms \<Longrightarrow> P r \<Longrightarrow> P (fst (store k v r))" and "P r"
  shows "P (fst (dec_members store ms r))"
  using assms
proof (induction ms arbitrary: r)
  case (Cons m ms)
  obtain k v where m: "m = (k, v)" by (cases m)
  have "P (fst (store k v r))"
    using Cons.prems m by auto
  with Cons m show ?case
    by (auto simp: Let_def case_prod_beta)
qed simp

lemma dec_struct_inv:
  assumes "\<And>k v r. jvalid v \<Longrightarrow> P r \<Longrightarrow> P (fst (store k v r))" and "P r" and "jvalid v"
  shows "P (fst (dec_struct store v r))"
proof (cases v)
  case (JObj ms)
  have "P (fst (dec_members store ms r))"
  proof (rule dec_members_inv [of ms P store r, OF _ assms(2)])
    fix k v r
    assume kv: "(k, v) \<in> set ms" and r: "P r"
    from kv assms(3) JObj have "jvalid v" by auto
    from assms(1) [OF this r] show "P (fst (store k v r))" .
  qed
  with JObj show ?thesis by simp
qed (use assms(2) in simp_all)

lemma unmarshal_inv:
  assumes "\<And>v r. jvalid v \<Longrightarrow> P r \<Longrightarrow> P (fst (dec v r))" and "P r"
  shows "P (fst (unmarshal dec b r))"
  using assms by (auto simp: unmarshal_def stored_def case_prod_beta split: option.splits dest: json_text_valid)

section \<open>Printed text holds no control characters\<close>

definition no_ctl :: "string \<Rightarrow> bool" where
  "no_ctl s \<longleftrightarrow> (\<forall>c \<in> set s. 32 \<le> byte c)"

lemma no_ctl_simps [simp]:
  "no_ctl []" "no_ctl (c # s) \<longleftrightarrow> 32 \<le> byte c \<and> no_ctl s" "no_ctl (s @ t) \<longleftrightarrow> no_ctl s \<and> no_ctl t"
  by (auto simp: no_ctl_def)

lemma hex_char_ge: "d < 16 \<Longrightarrow> 32 \<le> byte (hex_char d)"
proof -
  assume "d < 16"
  then have "hex_char d \<in> set ''0123456789abcdef''"
    unfolding hex_char_def by (intro nth_mem) simp
  then show ?thesis by auto
qed

lemma no_ctl_esc_ascii: "byte c < 128 \<Longrightarrow> no_ctl (esc_ascii c)"
  by (auto simp: esc_ascii_def hex_char_ge)

lemma no_ctl_chunk: "decode_multi x s = Some (r, n) \<Longrightarrow> no_ctl (take (n - 1) s)"
  by (auto simp: decode_defs numeral_3_eq_3 split: if_splits list.splits)

lemma no_ctl_esc: "no_ctl (esc s)"
proof (induction s rule: esc.induct)
  case (1 s)
  show ?case
  proof (cases s)
    case (Cons c s')
    obtain r n where d: "decode_rune s = (r, n)" by (cases "decode_rune s")
    have IH: "no_ctl (esc (drop n s))"
      using 1 [of "(r, n)" r n] d Cons by simp
    show ?thesis
    proof (cases "byte c < 128")
      case True
      with Cons d IH show ?thesis by (auto simp: no_ctl_esc_ascii)
    next
      case False
      then have multi: "\<not> (n = 1 \<and> r < 128)"
        using d Cons by (auto split: option.splits dest: decode_multi_not_ascii)
      have "s \<noteq> []"
        using Cons by simp
      then have "esc s = (if bad_rune (r, n) then bslash # ''ufffd''
          else if r = 8232 \<or> r = 8233 then bslash # ''u202'' @ [hex_char (r mod 16)]
          else take n s) @ esc (drop n s)"
        using multi d by (auto simp: esc.simps [of s])
      moreover have "no_ctl (take n s)"
        using False d Cons by (cases n) (auto split: option.splits dest: no_ctl_chunk)
      moreover have "r = 8232 \<or> r = 8233 \<Longrightarrow> 32 \<le> byte (hex_char (r mod 16))"
        by (rule hex_char_ge) simp
      ultimately show ?thesis
        using IH by auto
    qed
  qed simp
qed

lemma no_ctl_quote [simp]: "no_ctl (quote s)"
  by (simp add: quote_def no_ctl_esc)

lemma no_ctl_int_dec: "no_ctl (int_dec i)"
  using nat_dec_digits by (auto simp: int_dec_def no_ctl_def list_all_iff is_digit_def) fastforce+

lemma no_ctl_join: "no_ctl sep \<Longrightarrow> (\<And>p. p \<in> set ps \<Longrightarrow> no_ctl p) \<Longrightarrow> no_ctl (join_with sep ps)"
  by (induction sep ps rule: join_with.induct) auto

lemma no_ctl_jprint: "jints v \<Longrightarrow> no_ctl (jprint v)"
proof (induction v)
  case (JArr vs)
  then show ?case by (auto intro!: no_ctl_join)
next
  case (JObj ms)
  then show ?case by (auto intro!: no_ctl_join) fastforce
qed (auto simp: no_ctl_int_dec)

end
