(* ===== verification/Command.thy ===== *)
theory Command
  imports Json
begin

text \<open>
  \<open>internal/kv/command.go\<close>: the payload of a Raft log entry, its JSON encoding and
  decoding, and the result type of the state machine. An \<open>*string\<close> is a string option
  (nil is \<open>None\<close>).
\<close>

section \<open>Data\<close>

definition OpPut :: string where "OpPut = ''put''"
definition OpGet :: string where "OpGet = ''get''"
definition OpDelete :: string where "OpDelete = ''delete''"
definition OpCAS :: string where "OpCAS = ''cas''"

lemmas op_defs [eval_simps] = OpPut_def OpGet_def OpDelete_def OpCAS_def

lemma op_distinct [simp]:
  "OpPut \<noteq> OpGet" "OpPut \<noteq> OpDelete" "OpPut \<noteq> OpCAS" "OpGet \<noteq> OpPut" "OpGet \<noteq> OpDelete" "OpGet \<noteq> OpCAS"
  "OpDelete \<noteq> OpPut" "OpDelete \<noteq> OpGet" "OpDelete \<noteq> OpCAS" "OpCAS \<noteq> OpPut" "OpCAS \<noteq> OpGet" "OpCAS \<noteq> OpDelete"
  by (simp_all add: op_defs)

record command =
  cOp :: string
  cKey :: string
  cValue :: string
  cExpect :: "string option"

record result =
  rOk :: bool
  rPresent :: bool
  rValue :: string

text \<open>Go's zero value of a \<open>Command\<close> and of a \<open>Result\<close>.\<close>

definition zero_command :: command where
  "zero_command = \<lparr>cOp = '''', cKey = '''', cValue = '''', cExpect = None\<rparr>"

definition zero_result :: result where
  "zero_result = \<lparr>rOk = False, rPresent = False, rValue = ''''\<rparr>"

section \<open>Encoding and decoding\<close>

definition json_opt :: "string option \<Rightarrow> json" where
  "json_opt p = (case p of None \<Rightarrow> JNull | Some s \<Rightarrow> JStr s)"

definition command_json :: "command \<Rightarrow> json" where
  "command_json c = JObj
     ([(''op'', JStr (cOp c)), (''key'', JStr (cKey c))]
      @ (if cValue c = '''' then [] else [(''value'', JStr (cValue c))])
      @ [(''expect'', json_opt (cExpect c))])"

definition Encode :: "command \<Rightarrow> bytes" where
  "Encode c = jprint (command_json c)"

definition command_field :: "string \<Rightarrow> json \<Rightarrow> command \<Rightarrow> command \<times> bool" where
  "command_field k v c =
     (if key_is k ''op'' then (let (x, e) = dec_string v (cOp c) in (c\<lparr>cOp := x\<rparr>, e))
      else if key_is k ''key'' then (let (x, e) = dec_string v (cKey c) in (c\<lparr>cKey := x\<rparr>, e))
      else if key_is k ''value'' then (let (x, e) = dec_string v (cValue c) in (c\<lparr>cValue := x\<rparr>, e))
      else if key_is k ''expect'' then (let (x, e) = dec_strptr v (cExpect c) in (c\<lparr>cExpect := x\<rparr>, e))
      else (c, False))"

definition DecodeCommand :: "bytes \<Rightarrow> command \<times> json_err option" where
  "DecodeCommand b = unmarshal (dec_struct command_field) b zero_command"

text \<open>The response body of the HTTP API (\<open>json.Encoder\<close> adds a newline).\<close>

definition result_json :: "result \<Rightarrow> json" where
  "result_json r = JObj
     [(''ok'', JBool (rOk r)), (''present'', JBool (rPresent r)), (''value'', JStr (rValue r))]"

definition result_field :: "string \<Rightarrow> json \<Rightarrow> result \<Rightarrow> result \<times> bool" where
  "result_field k v r =
     (if key_is k ''ok'' then (let (x, e) = dec_bool v (rOk r) in (r\<lparr>rOk := x\<rparr>, e))
      else if key_is k ''present'' then (let (x, e) = dec_bool v (rPresent r) in (r\<lparr>rPresent := x\<rparr>, e))
      else if key_is k ''value'' then (let (x, e) = dec_string v (rValue r) in (r\<lparr>rValue := x\<rparr>, e))
      else (r, False))"

section \<open>Round trips\<close>

text \<open>The command with its strings made valid UTF-8, and the predicate that they are.\<close>

definition san_command :: "command \<Rightarrow> command" where
  "san_command c = \<lparr>cOp = to_valid (cOp c), cKey = to_valid (cKey c), cValue = to_valid (cValue c),
     cExpect = map_option to_valid (cExpect c)\<rparr>"

definition command_valid :: "command \<Rightarrow> bool" where
  "command_valid c \<longleftrightarrow> valid_utf8 (cOp c) \<and> valid_utf8 (cKey c) \<and> valid_utf8 (cValue c) \<and>
     pred_option valid_utf8 (cExpect c)"

lemma san_command_valid: "command_valid c \<Longrightarrow> san_command c = c"
  by (cases "cExpect c") (auto simp: san_command_def command_valid_def to_valid_valid)

lemma san_command_is_valid: "command_valid (san_command c)"
  by (cases "cExpect c") (auto simp: san_command_def command_valid_def valid_utf8_to_valid)

lemma json_opt_simps [simp]:
  "jints (json_opt p)" "jdepth (json_opt p) = 0" "jsan (json_opt p) = json_opt (map_option to_valid p)"
  "dec_strptr (json_opt p) old = (p, False)"
  by (cases p; simp add: json_opt_def)+

lemma dec_members_append:
  "dec_members store (xs @ ys) r =
     (let (r1, e1) = dec_members store xs r; (r2, e2) = dec_members store ys r1 in (r2, e1 \<or> e2))"
  by (induction xs arbitrary: r) (auto simp: Let_def case_prod_beta)

lemma field_names [simp]:
  "to_valid ''op'' = ''op''" "to_valid ''key'' = ''key''" "to_valid ''value'' = ''value''"
  "to_valid ''expect'' = ''expect''" "to_valid ''ok'' = ''ok''" "to_valid ''present'' = ''present''"
  by simp_all

lemma to_valid_eq_Nil [simp]: "to_valid s = [] \<longleftrightarrow> s = []"
proof (cases "s = []")
  case False
  then show ?thesis
    using decode_rune_size [of s]
    by (cases "bad_rune (decode_rune s)") (auto simp: to_valid_step_bad to_valid_step_good)
qed simp

lemma command_text:
  "jints (command_json c)" "jdepth (command_json c) \<le> max_depth"
  by (auto simp: command_json_def max_depth_def)

lemma decode_encode: "DecodeCommand (Encode c) = (san_command c, None)"
  unfolding DecodeCommand_def Encode_def unmarshal_jprint [OF command_text]
  by (simp add: command_json_def command_field_def key_is_def zero_command_def san_command_def)

lemma decode_encode_valid: "command_valid c \<Longrightarrow> DecodeCommand (Encode c) = (c, None)"
  by (simp add: decode_encode san_command_valid)

text \<open>C27: decoding an encoded command gives the command back, with every string made valid
  UTF-8 (a byte that starts no rune becomes U+FFFD) and without an error; a command whose
  strings are valid already comes back unchanged.\<close>

theorem DecodeCommand_Encode:
  "DecodeCommand (Encode c) = (san_command c, None) \<and> command_valid (san_command c) \<and>
   (if command_valid c then san_command c = c else True)"
  by (simp add: decode_encode san_command_is_valid san_command_valid)

lemma command_field_valid:
  "jvalid v \<Longrightarrow> command_valid c \<Longrightarrow> command_valid (fst (command_field k v c))"
  by (auto simp: command_field_def command_valid_def Let_def case_prod_beta dec_string_valid dec_strptr_valid)

lemma decoded_valid: "command_valid (fst (DecodeCommand b))"
  unfolding DecodeCommand_def
proof (rule unmarshal_inv)
  show "command_valid zero_command"
    by (simp add: command_valid_def zero_command_def)
  show "command_valid (fst (dec_struct command_field v r))" if "jvalid v" "command_valid r" for v r
    by (rule dec_struct_inv [of command_valid, OF command_field_valid]) (use that in auto)
qed

text \<open>whatever bytes are decoded, error or not, the strings of the command are valid
  UTF-8; the state machine never sees another key or value.\<close>

theorem DecodeCommand_valid: "command_valid (fst (DecodeCommand b))"
  by (rule decoded_valid)

end
