(* ===== verification/Fsm.thy ===== *)
theory Fsm
  imports Command
begin

text \<open>
  \<open>internal/kv/fsm.go\<close>: the replicated key-value state machine. \<open>Apply\<close> executes a
  committed log entry; \<open>Dump\<close>, \<open>Snapshot\<close>, \<open>Persist\<close> and \<open>Restore\<close> carry the state
  through a snapshot. The lock is not modelled: every method runs under it from its first
  access to the map to its last, so the methods are atomic steps of the state.
\<close>

section \<open>State and operations\<close>

record fsm =
  fData :: gomap

datatype panic = UndecodableEntry json_err | UnknownOp string | NilMapWrite

definition NewFSM :: fsm where
  "NewFSM = \<lparr>fData = GoMap fmempty\<rparr>"

text \<open>The switch of \<open>Apply\<close>, after the entry was decoded.\<close>

definition apply_command :: "fsm \<Rightarrow> command \<Rightarrow> panic + (result \<times> fsm)" where
  "apply_command f cmd =
     (if cOp cmd = OpPut then
        (case gomap_set (fData f) (cKey cmd) (cValue cmd) of
           None \<Rightarrow> Inl NilMapWrite
         | Some d \<Rightarrow> Inr (zero_result\<lparr>rOk := True\<rparr>, f\<lparr>fData := d\<rparr>))
      else if cOp cmd = OpGet then
        (case gomap_get (fData f) (cKey cmd) of
           Some v \<Rightarrow> Inr (\<lparr>rOk = True, rPresent = True, rValue = v\<rparr>, f)
         | None \<Rightarrow> Inr (\<lparr>rOk = True, rPresent = False, rValue = ''''\<rparr>, f))
      else if cOp cmd = OpDelete then
        (let existed = (gomap_get (fData f) (cKey cmd) \<noteq> None) in
         Inr (zero_result\<lparr>rOk := True, rPresent := existed\<rparr>,
              f\<lparr>fData := gomap_delete (fData f) (cKey cmd)\<rparr>))
      else if cOp cmd = OpCAS then
        (let present = (gomap_get (fData f) (cKey cmd) \<noteq> None);
             cur = (case gomap_get (fData f) (cKey cmd) of None \<Rightarrow> '''' | Some v \<Rightarrow> v);
             matches = (cExpect cmd = None \<and> \<not> present) \<or>
               (cExpect cmd \<noteq> None \<and> present \<and> cur = the (cExpect cmd)) in
         if matches then
           (case gomap_set (fData f) (cKey cmd) (cValue cmd) of
              None \<Rightarrow> Inl NilMapWrite
            | Some d \<Rightarrow> Inr (zero_result\<lparr>rOk := True\<rparr>, f\<lparr>fData := d\<rparr>))
         else Inr (\<lparr>rOk = False, rPresent = present, rValue = cur\<rparr>, f))
      else Inl (UnknownOp (cOp cmd)))"

definition Apply :: "fsm \<Rightarrow> bytes \<Rightarrow> panic + (result \<times> fsm)" where
  "Apply f l = (case DecodeCommand l of
     (cmd, Some err) \<Rightarrow> Inl (UndecodableEntry err)
   | (cmd, None) \<Rightarrow> apply_command f cmd)"

text \<open>Ranging over a map visits its entries in an unspecified order; here by key.\<close>

definition map_entries :: "(string, string) fmap \<Rightarrow> (string \<times> string) list" where
  "map_entries m = map (\<lambda>k. (k, the (fmlookup m k))) (sorted_list_of_fset (fmdom m))"

definition copy_entries :: "(string \<times> string) list \<Rightarrow> (string, string) fmap" where
  "copy_entries es = fold (\<lambda>(k, v) out. fmupd k v out) es fmempty"

definition Dump :: "fsm \<Rightarrow> gomap" where
  "Dump f = GoMap (copy_entries (map_entries (gomap_entries (fData f))))"

record fsmSnapshot =
  sState :: gomap

definition Snapshot :: "fsm \<Rightarrow> fsmSnapshot" where
  "Snapshot f = \<lparr>sState = Dump f\<rparr>"

text \<open>\<open>json.Encoder\<close> writes a map with its keys sorted, nil as \<open>null\<close>, and a newline.\<close>

definition strmap_json :: "gomap \<Rightarrow> json" where
  "strmap_json g = (case g of NilMap \<Rightarrow> JNull
     | GoMap m \<Rightarrow> JObj (map (\<lambda>(k, v). (k, JStr v)) (map_entries m)))"

definition snapshot_bytes :: "fsmSnapshot \<Rightarrow> bytes" where
  "snapshot_bytes s = jprint (strmap_json (sState s)) @ [CHR 0x0A]"

text \<open>The snapshot sink is Raft's: writing, closing and cancelling are parameters, with the
  error each returns.\<close>

record ('k, 'e) sink_ops =
  sink_write :: "'k \<Rightarrow> bytes \<Rightarrow> 'e option \<times> 'k"
  sink_close :: "'k \<Rightarrow> 'e option \<times> 'k"
  sink_cancel :: "'k \<Rightarrow> 'k"

definition Persist :: "('k, 'e) sink_ops \<Rightarrow> fsmSnapshot \<Rightarrow> 'k \<Rightarrow> 'e option \<times> 'k" where
  "Persist ops s sink = (case sink_write ops sink (snapshot_bytes s) of
     (Some err, sink') \<Rightarrow> (Some err, sink_cancel ops sink')
   | (None, sink') \<Rightarrow> sink_close ops sink')"

text \<open>
  \<open>Restore\<close> reads the first JSON value of the stream. A stream that fails midway is the
  bytes it delivered before: the decoder reports an error exactly when they do not complete
  a value.
\<close>

definition Restore :: "fsm \<Rightarrow> bytes \<Rightarrow> fsm \<times> json_err option" where
  "Restore f rc = (case decode_stream dec_strmap rc NilMap of
     (m, Some err) \<Rightarrow> (f, Some err)
   | (m, None) \<Rightarrow> (f\<lparr>fData := m\<rparr>, None))"

section \<open>The map behind the state\<close>

definition fsm_get :: "fsm \<Rightarrow> string \<Rightarrow> string option" where
  "fsm_get f k = gomap_get (fData f) k"

text \<open>What each command means on a map, without the program's case distinctions.\<close>

definition cas_matches :: "string option \<Rightarrow> string option \<Rightarrow> bool" where
  "cas_matches cur expect \<longleftrightarrow> cur = expect"

definition spec_update :: "command \<Rightarrow> (string \<rightharpoonup> string) \<Rightarrow> (string \<rightharpoonup> string)" where
  "spec_update c m =
     (if cOp c = OpPut \<or> cOp c = OpCAS \<and> cas_matches (m (cKey c)) (cExpect c) then m(cKey c \<mapsto> cValue c)
      else if cOp c = OpDelete then m(cKey c := None)
      else m)"

definition spec_result :: "command \<Rightarrow> (string \<rightharpoonup> string) \<Rightarrow> result" where
  "spec_result c m =
     (let cur = m (cKey c); shown = (case cur of None \<Rightarrow> '''' | Some v \<Rightarrow> v) in
      if cOp c = OpGet then \<lparr>rOk = True, rPresent = (cur \<noteq> None), rValue = shown\<rparr>
      else if cOp c = OpDelete then \<lparr>rOk = True, rPresent = (cur \<noteq> None), rValue = ''''\<rparr>
      else if cOp c = OpCAS \<and> \<not> cas_matches cur (cExpect c)
        then \<lparr>rOk = False, rPresent = (cur \<noteq> None), rValue = shown\<rparr>
      else \<lparr>rOk = True, rPresent = False, rValue = ''''\<rparr>)"

definition known_op :: "command \<Rightarrow> bool" where
  "known_op c \<longleftrightarrow> cOp c \<in> {OpPut, OpGet, OpDelete, OpCAS}"

lemma cas_guard:
  "(e = None \<and> \<not> cur \<noteq> None) \<or> (e \<noteq> None \<and> cur \<noteq> None \<and> (case cur of None \<Rightarrow> '''' | Some v \<Rightarrow> v) = the e)
    \<longleftrightarrow> cas_matches cur e"
  by (cases e; cases cur) (auto simp: cas_matches_def)

lemma apply_command_spec:
  assumes "fData f \<noteq> NilMap" and "known_op c"
  shows "\<exists>f'. apply_command f c = Inr (spec_result c (fsm_get f), f') \<and>
    fsm_get f' = spec_update c (fsm_get f) \<and> fData f' \<noteq> NilMap"
proof -
  obtain m where m: "fData f = GoMap m" using assms(1) by (cases "fData f") auto
  from assms(2) consider "cOp c = OpPut" | "cOp c = OpGet" | "cOp c = OpDelete" | "cOp c = OpCAS"
    by (auto simp: known_op_def)
  then show ?thesis
  proof cases
    case 4
    then show ?thesis
      unfolding apply_command_def Let_def cas_guard
      by (auto simp: m fsm_get_def gomap_get_def spec_result_def spec_update_def zero_result_def fun_eq_iff
          split: option.splits)
  qed (auto simp: apply_command_def m fsm_get_def gomap_get_def spec_result_def spec_update_def
      zero_result_def fun_eq_iff Let_def split: option.splits)
qed

section \<open>Apply\<close>

text \<open>C12: on a state whose map is not nil, a log entry that decodes to a known operation is
  executed as the map operation it names: the result and the new contents are those of the
  abstract map, and the map is still not nil.\<close>

theorem Apply_refines_map:
  assumes "fData f \<noteq> NilMap" and "DecodeCommand l = (c, None)" and "known_op c"
  shows "\<exists>f'. Apply f l = Inr (spec_result c (fsm_get f), f') \<and>
    fsm_get f' = spec_update c (fsm_get f) \<and> fData f' \<noteq> NilMap"
  using apply_command_spec [OF assms(1,3)] by (simp add: Apply_def assms(2))

lemma apply_command_nil:
  assumes "fData f = NilMap" and "known_op c"
  shows "(\<exists>p. apply_command f c = Inl p) \<longleftrightarrow> cOp c = OpPut \<or> cOp c = OpCAS \<and> cExpect c = None"
  using assms by (auto simp: apply_command_def known_op_def gomap_get_def Let_def)

text \<open>C28: the state machine panics exactly on an undecodable entry, an unknown operation, or a
  write to a nil map (a put, or a swap that expects the key absent).\<close>

theorem Apply_panics_iff:
  "(\<exists>p. Apply f l = Inl p) \<longleftrightarrow>
     (let (c, e) = DecodeCommand l in
      if e = None \<and> known_op c then fData f = NilMap \<and> (cOp c = OpPut \<or> cOp c = OpCAS \<and> cExpect c = None)
      else True)"
proof -
  obtain c e where d: "DecodeCommand l = (c, e)" by (cases "DecodeCommand l")
  show ?thesis
  proof (cases e)
    case None
    have "\<not> known_op c \<Longrightarrow> apply_command f c = Inl (UnknownOp (cOp c))"
      by (simp add: apply_command_def known_op_def)
    then show ?thesis
      using None d apply_command_spec [of f c] apply_command_nil [of f c]
      by (cases "known_op c"; cases "fData f = NilMap") (auto simp: Apply_def)
  qed (simp add: Apply_def d)
qed

section \<open>Snapshots\<close>

text \<open>The contents a snapshot keeps exactly: a map that is not nil, all of it valid UTF-8.\<close>

definition fsm_ok :: "fsm \<Rightarrow> bool" where
  "fsm_ok f \<longleftrightarrow> (case fData f of NilMap \<Rightarrow> False
     | GoMap m \<Rightarrow> fmpred (\<lambda>k v. valid_utf8 k \<and> valid_utf8 v) m)"

lemma fsm_ok_NewFSM: "fsm_ok NewFSM"
  by (simp add: fsm_ok_def NewFSM_def)

lemma fsm_ok_not_Nil: "fsm_ok f \<Longrightarrow> fData f \<noteq> NilMap"
  by (auto simp: fsm_ok_def)

lemma fsm_ok_get: "fsm_ok f \<Longrightarrow> fsm_get f k = Some v \<Longrightarrow> valid_utf8 k \<and> valid_utf8 v"
  by (auto simp: fsm_ok_def fsm_get_def gomap_get_def split: gomap.splits)

lemma fsm_eq_iff: "fData f \<noteq> NilMap \<Longrightarrow> fData g \<noteq> NilMap \<Longrightarrow> fsm_get f = fsm_get g \<Longrightarrow> f = g"
  by (cases "fData f"; cases "fData g"; cases f; cases g)
    (auto simp: fsm_get_def gomap_get_def fun_eq_iff intro: fmap_ext)

lemma fsm_okI: "fData f \<noteq> NilMap \<Longrightarrow> (\<And>k v. fsm_get f k = Some v \<Longrightarrow> valid_utf8 k \<and> valid_utf8 v) \<Longrightarrow> fsm_ok f"
  by (cases "fData f") (auto simp: fsm_ok_def fsm_get_def gomap_get_def)

lemma apply_command_ok:
  assumes "fsm_ok f" and "command_valid c" and "apply_command f c = Inr (r, f')"
  shows "fsm_ok f'"
proof -
  have "known_op c"
    using assms(3) by (auto simp: apply_command_def known_op_def split: if_splits)
  with apply_command_spec [OF fsm_ok_not_Nil [OF assms(1)], of c] assms(3)
  have get: "fsm_get f' = spec_update c (fsm_get f)" and "fData f' \<noteq> NilMap" by auto
  then show ?thesis
    using fsm_ok_get [OF assms(1)] assms(2)
    by (intro fsm_okI) (auto simp: spec_update_def command_valid_def split: if_splits)
qed

lemma apply_ok:
  assumes "fsm_ok f" and "Apply f l = Inr (r, f')"
  shows "fsm_ok f'"
proof -
  have "command_valid (fst (DecodeCommand l))" by (rule decoded_valid)
  with assms show ?thesis
    by (cases "DecodeCommand l") (auto simp: Apply_def intro: apply_command_ok split: option.splits)
qed

lemma map_of_map_entries: "map_of (map_entries m) k = fmlookup m k"
proof -
  have "map_of (map (\<lambda>k. (k, the (fmlookup m k))) ks) k = (if k \<in> set ks then Some (the (fmlookup m k)) else None)" for ks
    by (induction ks) auto
  then show ?thesis
    by (auto simp: map_entries_def fmdom'_notI sorted_list_of_fset_simps)
qed

lemma distinct_map_entries: "distinct (map fst (map_entries m))"
proof -
  have "map fst (map_entries m) = sorted_list_of_fset (fmdom m)"
    by (simp add: map_entries_def comp_def)
  also have "distinct \<dots>"
    by (simp add: sorted_list_of_fset.rep_eq)
  finally show ?thesis .
qed

lemma fold_fmupd_lookup:
  "distinct (map fst es) \<Longrightarrow>
   fmlookup (fold (\<lambda>(k, v) out. fmupd k v out) es m) k =
     (case map_of es k of Some v \<Rightarrow> Some v | None \<Rightarrow> fmlookup m k)"
proof (induction es arbitrary: m)
  case (Cons e es)
  then show ?case
    by (cases e) (auto split: option.splits dest: map_of_SomeD simp: rev_image_eqI)
qed simp

lemma copy_entries_any_order:
  assumes "mset es = mset (map_entries m)"
  shows "copy_entries es = m"
proof (rule fmap_ext)
  fix k
  have d: "distinct (map fst es)"
    using assms distinct_map_entries [of m] by (metis mset_eq_imp_distinct_iff mset_map)
  moreover have "map_of es k = map_of (map_entries m) k"
    using map_of_eqI [of es "map_entries m"] d distinct_map_entries [of m] mset_eq_setD [OF assms]
    by (metis map_of_inject_set)
  ultimately show "fmlookup (copy_entries es) k = fmlookup m k"
    by (simp add: copy_entries_def fold_fmupd_lookup map_of_map_entries split: option.splits)
qed

lemma Dump_eq: "Dump f = GoMap (gomap_entries (fData f))"
  by (simp add: Dump_def copy_entries_any_order)



lemma strmap_text: "jints (strmap_json g)" "jdepth (strmap_json g) \<le> max_depth"
  by (auto simp: strmap_json_def max_depth_def intro!: foldr_max_le split: gomap.splits)

lemma jsan_strmap:
  assumes "fmpred (\<lambda>k v. valid_utf8 k \<and> valid_utf8 v) m"
  shows "jsan (strmap_json (GoMap m)) = strmap_json (GoMap m)"
proof -
  have "valid_utf8 k \<and> valid_utf8 v" if "(k, v) \<in> set (map_entries m)" for k v
    using that assms distinct_map_entries [of m]
    by (metis fmpredD map_of_is_SomeI map_of_map_entries)
  then show ?thesis
    by (auto simp: strmap_json_def to_valid_valid)
qed

lemma dec_members_entries:
  "dec_members store_entry (map (\<lambda>(k, v). (k, JStr v)) es) m0 = (fold (\<lambda>(k, v) out. fmupd k v out) es m0, False)"
  by (induction es arbitrary: m0) (auto simp: store_entry_def)

lemma dec_strmap_strmap: "dec_strmap (strmap_json (GoMap m)) NilMap = (GoMap m, False)"
  using copy_entries_any_order [of "map_entries m" m]
  by (simp add: strmap_json_def dec_members_entries copy_entries_def)

lemma num_end_newline [simp]: "num_end (CHR 0x0A # s)"
  by (simp add: num_end_def is_digit_def)

lemma Restore_snapshot_bytes:
  assumes "fsm_ok f"
  shows "Restore g (snapshot_bytes (Snapshot f)) = (f, None)"
proof -
  obtain m where m: "fData f = GoMap m" and ok: "fmpred (\<lambda>k v. valid_utf8 k \<and> valid_utf8 v) m"
    using assms by (auto simp: fsm_ok_def split: gomap.splits)
  have "decode_stream dec_strmap (jprint (strmap_json (GoMap m)) @ [CHR 0x0A]) NilMap = (GoMap m, None)"
    by (subst decode_stream_jprint) (simp_all add: strmap_text jsan_strmap [OF ok] dec_strmap_strmap)
  moreover have "g\<lparr>fData := GoMap m\<rparr> = f"
    using m by (cases f; cases g) simp
  ultimately show ?thesis
    by (simp add: Restore_def snapshot_bytes_def Snapshot_def Dump_eq m)
qed

text \<open>C19: a snapshot that the sink accepts holds the state: what \<open>Persist\<close> handed to the sink,
  restored into any state machine, gives the state that was snapshotted.\<close>

theorem Persist_Restore:
  assumes "fsm_ok f" and "Persist ops (Snapshot f) sink = (None, sink'')"
  shows "\<exists>b sink'. sink_write ops sink b = (None, sink') \<and> sink_close ops sink' = (None, sink'') \<and>
    Restore g b = (f, None)"
  using assms(2) Restore_snapshot_bytes [OF assms(1), of g]
  by (auto simp: Persist_def split: prod.splits option.splits)

text \<open>a failed write cancels the sink and reports the error; a snapshot is never closed
  after a failed write.\<close>

theorem Persist_write_error:
  assumes "sink_write ops sink (snapshot_bytes s) = (Some err, sink')"
  shows "Persist ops s sink = (Some err, sink_cancel ops sink')"
  by (simp add: Persist_def assms)

definition is_str_or_null :: "json \<Rightarrow> bool" where
  "is_str_or_null v \<longleftrightarrow> (case v of JStr _ \<Rightarrow> True | JNull \<Rightarrow> True | _ \<Rightarrow> False)"

definition str_or_empty :: "json \<Rightarrow> string" where
  "str_or_empty v = (case v of JStr s \<Rightarrow> s | _ \<Rightarrow> '''')"

lemma dec_string_empty: "dec_string v '''' = (str_or_empty v, \<not> is_str_or_null v)"
  by (cases v) (auto simp: str_or_empty_def is_str_or_null_def)

lemma dec_members_store_entry:
  "dec_members store_entry ms m0 =
     (fold (\<lambda>(k, v) out. fmupd k v out) (map (\<lambda>(k, v). (k, str_or_empty v)) ms) m0,
      \<not> list_all (is_str_or_null \<circ> snd) ms)"
  by (induction ms arbitrary: m0) (auto simp: store_entry_def dec_string_empty Let_def)

text \<open>what a snapshot stream does to the state machine: an object whose members are strings
  or null replaces the contents by them (null as the empty string), \<open>null\<close> alone makes the map
  nil, and any other stream is rejected and leaves the state as it was.\<close>

theorem Restore_cases:
  "Restore f b = (case json_first b of
     None \<Rightarrow> (f, Some SyntaxError)
   | Some (v, _) \<Rightarrow> (case v of
       JNull \<Rightarrow> (f\<lparr>fData := NilMap\<rparr>, None)
     | JObj ms \<Rightarrow>
         if list_all (is_str_or_null \<circ> snd) ms
         then (f\<lparr>fData := GoMap (copy_entries (map (\<lambda>(k, v). (k, str_or_empty v)) ms))\<rparr>, None)
         else (f, Some TypeError)
     | _ \<Rightarrow> (f, Some TypeError)))"
  by (auto simp: Restore_def decode_stream_def stored_def dec_members_store_entry copy_entries_def
      split: option.splits json.splits)


section \<open>Witnesses\<close>

definition cas_absent :: command where
  "cas_absent = \<lparr>cOp = OpCAS, cKey = ''k'', cValue = ''v'', cExpect = None\<rparr>"

lemma cas_absent_decodes: "DecodeCommand (Encode cas_absent) = (cas_absent, None)"
  by (rule decode_encode_valid) (simp add: cas_absent_def command_valid_def op_defs)

lemma NewFSM_get: "fsm_get NewFSM k = None"
  by (simp add: NewFSM_def fsm_get_def gomap_get_def)

theorem Apply_refines_map_witness:
  "\<exists>f'. Apply NewFSM (Encode cas_absent) = Inr (zero_result\<lparr>rOk := True\<rparr>, f') \<and> fsm_get f' ''k'' = Some ''v''"
proof -
  have "fData NewFSM \<noteq> NilMap" "known_op cas_absent"
    by (simp_all add: NewFSM_def known_op_def cas_absent_def)
  from Apply_refines_map [OF this(1) cas_absent_decodes this(2)]
  show ?thesis
    by (auto simp: spec_result_def spec_update_def cas_matches_def cas_absent_def zero_result_def op_defs
        NewFSM_get Let_def)
qed

text \<open>A sink that keeps what it is given, and one whose disk is full.\<close>

definition list_sink :: "(bytes list, unit) sink_ops" where
  "list_sink = \<lparr>sink_write = (\<lambda>s b. (None, s @ [b])), sink_close = (\<lambda>s. (None, s)), sink_cancel = (\<lambda>s. [])\<rparr>"

definition full_sink :: "(bytes list, unit) sink_ops" where
  "full_sink = list_sink\<lparr>sink_write := (\<lambda>s b. (Some (), s))\<rparr>"

theorem Persist_Restore_witness:
  "Persist list_sink (Snapshot NewFSM) [] = (None, [snapshot_bytes (Snapshot NewFSM)]) \<and>
   (\<exists>b. Restore \<lparr>fData = NilMap\<rparr> b = (NewFSM, None))"
proof -
  have p: "Persist list_sink (Snapshot NewFSM) [] = (None, [snapshot_bytes (Snapshot NewFSM)])"
    by (simp add: Persist_def list_sink_def)
  from Persist_Restore [OF fsm_ok_NewFSM this, of "\<lparr>fData = NilMap\<rparr>"] p show ?thesis by blast
qed

theorem Persist_write_error_witness:
  "Persist full_sink (Snapshot NewFSM) [''x''] = (Some (), [])"
proof -
  have "sink_write full_sink [''x''] (snapshot_bytes (Snapshot NewFSM)) = (Some (), [''x''])"
    by (simp add: full_sink_def)
  from Persist_write_error [OF this] show ?thesis
    by (simp add: full_sink_def list_sink_def)
qed

end
