(* ===== verification/Node.thy ===== *)
theory Node
  imports Nodes Fsm
begin

text \<open>
  \<open>internal/server/node.go\<close>: the cluster's peers, the configuration of a node, how a node is
  put together from its parts, and what it knows of the leader. Raft, its transport and
  stores, the resolver and the file system are parameters: one operation each, on a world
  they may change. Where Raft writes its log text is not modelled.
\<close>

section \<open>Peers\<close>

record peer =
  pID :: string
  pRaftAddr :: string
  pHTTPURL :: string

definition peer_fields :: "string list \<Rightarrow> peer option" where
  "peer_fields bits = (case bits of
     [a, b, c] \<Rightarrow> Some \<lparr>pID = a, pRaftAddr = b, pHTTPURL = c\<rparr> | _ \<Rightarrow> None)"

primrec peer_loop :: "string list \<Rightarrow> peer list \<Rightarrow> spec_error + peer list" where
  "peer_loop [] peers = Inr peers"
| "peer_loop (p # ps) peers = (let part = trim_space p in
     if part = '''' then peer_loop ps peers
     else case peer_fields (split_on (CHR ''@'') part) of
       None \<Rightarrow> Inl (BadSpec part)
     | Some n \<Rightarrow> peer_loop ps (peers @ [n]))"

definition ParsePeers :: "string \<Rightarrow> spec_error + peer list" where
  "ParsePeers s = (case peer_loop (split_on (CHR '','') s) [] of
     Inl e \<Rightarrow> Inl e
   | Inr peers \<Rightarrow> if length peers \<noteq> 3 then Inl (WrongCount (length peers)) else Inr peers)"

definition peer_shown :: "peer \<Rightarrow> string list" where
  "peer_shown p = [pID p, pRaftAddr p, pHTTPURL p]"

interpretation ps: spec_list "CHR ''@''" peer_fields peer_shown peer_loop ParsePeers
proof
  show "peer_fields bits = Some n \<longleftrightarrow> bits = peer_shown n" for bits n
    by (cases n) (auto simp: peer_fields_def peer_shown_def split: list.splits)
qed (simp_all add: peer_shown_def ParsePeers_def split: option.splits)

definition peer_text :: "peer \<Rightarrow> string" where
  "peer_text p = join_with ''@'' [pID p, pRaftAddr p, pHTTPURL p]"

definition peer_plain :: "peer \<Rightarrow> bool" where
  "peer_plain p \<longleftrightarrow> list_all (list_all (spec_char (CHR ''@''))) [pID p, pRaftAddr p, pHTTPURL p]"

lemma peer_plain_iff: "ps.plain p \<longleftrightarrow> peer_plain p"
  unfolding ps.plain_def peer_plain_def peer_shown_def spec_char_def list_all_iff by blast

lemma parse_peer_texts:
  assumes "length peers = 3" and "list_all peer_plain peers"
  shows "ParsePeers (join_with '','' (map peer_text peers)) = Inr peers"
proof -
  have "\<forall>n \<in> set peers. ps.plain n"
    using assms(2) by (simp add: peer_plain_iff list_all_iff)
  from ps.parse_print [OF assms(1) this] show ?thesis
    by (simp add: peer_text_def [abs_def] peer_shown_def)
qed

text \<open>\<open>ParsePeers\<close> accepts exactly three peers written as their texts, and what it accepts is
  what was written: the parts of the input that are not blank.\<close>

theorem ParsePeers_sound:
  assumes "ParsePeers s = Inr peers"
  shows "length peers = 3 \<and> map peer_text peers = blank_free_parts s"
  using ps.parse_sound [OF assms]
  by (simp add: peer_text_def [abs_def] peer_shown_def ps.parts_def blank_free_parts_def)

section \<open>Configuration\<close>

record server_config =
  cfgNodeID :: string
  cfgDataDir :: string
  cfgRaftBind :: string
  cfgRaftAdvertise :: string
  cfgPeers :: "peer list"
  cfgBootstrap :: bool

text \<open>Durations are nanoseconds.\<close>

definition Millisecond :: int64 where "Millisecond = 1000000"
definition Second :: int64 where "Second = 1000 * Millisecond"

definition HeartbeatTimeout :: int64 where "HeartbeatTimeout = 1000 * Millisecond"
definition ElectionTimeout :: int64 where "ElectionTimeout = 1000 * Millisecond"
definition LeaderLeaseTimeout :: int64 where "LeaderLeaseTimeout = 500 * Millisecond"
definition CommitTimeout :: int64 where "CommitTimeout = 50 * Millisecond"
definition ApplyTimeout :: int64 where "ApplyTimeout = 5 * Second"

text \<open>The fields of Raft's configuration that the program sets; Raft's default has more.\<close>

record raft_config =
  rcLocalID :: string
  rcHeartbeatTimeout :: int64
  rcElectionTimeout :: int64
  rcLeaderLeaseTimeout :: int64
  rcCommitTimeout :: int64
  rcSnapshotInterval :: int64
  rcSnapshotThreshold :: "64 word"

definition set_raft_config :: "string \<Rightarrow> 'c raft_config_scheme \<Rightarrow> 'c raft_config_scheme" where
  "set_raft_config nodeID rc = rc\<lparr>rcLocalID := nodeID, rcHeartbeatTimeout := HeartbeatTimeout,
     rcElectionTimeout := ElectionTimeout, rcLeaderLeaseTimeout := LeaderLeaseTimeout,
     rcCommitTimeout := CommitTimeout, rcSnapshotInterval := 30 * Second, rcSnapshotThreshold := 4096\<rparr>"

section \<open>Putting a node together\<close>

record raft_server =
  srvID :: string
  srvAddress :: string

text \<open>The state machine is a heap cell that Raft and the node share: \<open>neAlloc\<close> allocates it and
  gives its address.\<close>

record ('w, 'e, 'c, 'a, 't, 's, 'p, 'r, 'f) node_env =
  neMkdirAll :: "string \<Rightarrow> 'w \<Rightarrow> 'e option \<times> 'w"
  neDefaultConfig :: "'c raft_config_scheme"
  neResolve :: "string \<Rightarrow> 'w \<Rightarrow> ('e + 'a) \<times> 'w"
  neTransport :: "string \<Rightarrow> 'a \<Rightarrow> nat \<Rightarrow> int64 \<Rightarrow> 'w \<Rightarrow> ('e + 't) \<times> 'w"
  neBoltStore :: "string \<Rightarrow> 'w \<Rightarrow> ('e + 's) \<times> 'w"
  neSnapshots :: "string \<Rightarrow> nat \<Rightarrow> 'w \<Rightarrow> ('e + 'p) \<times> 'w"
  neAlloc :: "fsm \<Rightarrow> 'w \<Rightarrow> 'f \<times> 'w"
  neNewRaft :: "'c raft_config_scheme \<Rightarrow> 'f \<Rightarrow> 's \<Rightarrow> 's \<Rightarrow> 'p \<Rightarrow> 't \<Rightarrow> 'w \<Rightarrow> ('e + 'r) \<times> 'w"
  neBootstrap :: "'r \<Rightarrow> raft_server list \<Rightarrow> 'w \<Rightarrow> 'e option \<times> 'w"
  neErrCantBootstrap :: 'e

record ('r, 'f) server_node =
  snRaft :: 'r
  snFSM :: 'f
  snCfg :: server_config

datatype 'e node_error = MkdirErr 'e | ResolveErr string 'e | TransportErr 'e | BoltErr 'e
  | SnapshotErr 'e | NewRaftErr 'e | BootstrapErr 'e

definition bootstrap_servers :: "peer list \<Rightarrow> raft_server list" where
  "bootstrap_servers peers = map (\<lambda>p. \<lparr>srvID = pID p, srvAddress = pRaftAddr p\<rparr>) peers"

definition NewNode :: "('w, 'e, 'c, 'a, 't, 's, 'p, 'r, 'f) node_env \<Rightarrow> server_config \<Rightarrow> 'w \<Rightarrow>
    ('e node_error + ('r, 'f) server_node) \<times> 'w" where
  "NewNode env cfg w0 = (case neMkdirAll env (cfgDataDir cfg) w0 of
     (Some e, w) \<Rightarrow> (Inl (MkdirErr e), w)
   | (None, w1) \<Rightarrow>
     let rc = set_raft_config (cfgNodeID cfg) (neDefaultConfig env) in
     (case neResolve env (cfgRaftAdvertise cfg) w1 of
        (Inl e, w) \<Rightarrow> (Inl (ResolveErr (cfgRaftAdvertise cfg) e), w)
      | (Inr advAddr, w2) \<Rightarrow>
     (case neTransport env (cfgRaftBind cfg) advAddr 3 (10 * Second) w2 of
        (Inl e, w) \<Rightarrow> (Inl (TransportErr e), w)
      | (Inr transport, w3) \<Rightarrow>
     (case neBoltStore env (join_path [cfgDataDir cfg, ''raft.db'']) w3 of
        (Inl e, w) \<Rightarrow> (Inl (BoltErr e), w)
      | (Inr store, w4) \<Rightarrow>
     (case neSnapshots env (cfgDataDir cfg) 2 w4 of
        (Inl e, w) \<Rightarrow> (Inl (SnapshotErr e), w)
      | (Inr snaps, w5) \<Rightarrow>
     let (fsm, w5') = neAlloc env NewFSM w5 in
     (case neNewRaft env rc fsm store store snaps transport w5' of
        (Inl e, w) \<Rightarrow> (Inl (NewRaftErr e), w)
      | (Inr r, w6) \<Rightarrow>
     let node = \<lparr>snRaft = r, snFSM = fsm, snCfg = cfg\<rparr> in
     if cfgBootstrap cfg then
       (case neBootstrap env r (bootstrap_servers (cfgPeers cfg)) w6 of
          (None, w7) \<Rightarrow> (Inr node, w7)
        | (Some e, w7) \<Rightarrow> if e \<noteq> neErrCantBootstrap env then (Inl (BootstrapErr e), w7) else (Inr node, w7))
     else (Inr node, w6)))))))"

text \<open>starting again is not an error. Bootstrapping changes nothing about how the node is put
  together: what fails without it fails with it, in the same way, and a node that comes up
  without it comes up with it, whether the cluster is created now, with the configured peers
  in order, or Raft answers that it exists already; only another answer is an error.\<close>

theorem NewNode_bootstrap:
  "NewNode env (cfg\<lparr>cfgBootstrap := True\<rparr>) w0 =
     (case NewNode env (cfg\<lparr>cfgBootstrap := False\<rparr>) w0 of
        (Inl e, w) \<Rightarrow> (Inl e, w)
      | (Inr node, w) \<Rightarrow>
          (case neBootstrap env (snRaft node) (bootstrap_servers (cfgPeers cfg)) w of
             (e, w') \<Rightarrow>
               if e \<in> {None, Some (neErrCantBootstrap env)}
               then (Inr (node\<lparr>snCfg := cfg\<lparr>cfgBootstrap := True\<rparr>\<rparr>), w')
               else (Inl (BootstrapErr (the e)), w')))"
  by (auto simp: NewNode_def Let_def split: prod.splits sum.splits option.splits)

lemma duration_values:
  "sint HeartbeatTimeout = 1000000000" "sint ElectionTimeout = 1000000000" "sint LeaderLeaseTimeout = 500000000"
  "sint CommitTimeout = 50000000" "sint ApplyTimeout = 5000000000"
  by (simp_all add: HeartbeatTimeout_def ElectionTimeout_def LeaderLeaseTimeout_def CommitTimeout_def
      ApplyTimeout_def Second_def Millisecond_def)

section \<open>The leader\<close>

datatype raft_state = Follower | Candidate | Leader | Shutdown

text \<open>A proposal's future: the state machine's response (which need not be a \<open>Result\<close>), or an
  error. The errors the program names are constructors.\<close>

datatype raft_error = ErrNotLeader | ErrLeadershipTransferInProgress | OtherRaftError string

datatype apply_future = Response "result option" | ApplyError raft_error

record ('w, 'r, 'f) raft_api =
  raLeaderWithID :: "'r \<Rightarrow> 'w \<Rightarrow> string \<times> string"
  raState :: "'r \<Rightarrow> 'w \<Rightarrow> raft_state"
  raStateString :: "raft_state \<Rightarrow> string"
  raStats :: "'r \<Rightarrow> 'w \<Rightarrow> string \<Rightarrow> string"
  raApply :: "'r \<Rightarrow> bytes \<Rightarrow> int64 \<Rightarrow> 'w \<Rightarrow> apply_future \<times> 'w"
  raCell :: "'f \<Rightarrow> 'w \<Rightarrow> fsm"

primrec peer_url :: "peer list \<Rightarrow> string \<Rightarrow> string" where
  "peer_url [] lid = ''''"
| "peer_url (p # ps) lid = (if pID p = lid then pHTTPURL p else peer_url ps lid)"

definition LeaderHTTPURL :: "('w, 'r, 'f) raft_api \<Rightarrow> ('r, 'f) server_node \<Rightarrow> 'w \<Rightarrow> string" where
  "LeaderHTTPURL api n w =
     (let (_, lid) = raLeaderWithID api (snRaft n) w in
      if lid = '''' \<or> lid = cfgNodeID (snCfg n) then '''' else peer_url (cfgPeers (snCfg n)) lid)"

definition IsLeader :: "('w, 'r, 'f) raft_api \<Rightarrow> ('r, 'f) server_node \<Rightarrow> 'w \<Rightarrow> bool" where
  "IsLeader api n w \<longleftrightarrow> raState api (snRaft n) w = Leader"

lemma peer_url_in: "peer_url ps lid = u \<Longrightarrow> u \<noteq> '''' \<Longrightarrow> \<exists>p \<in> set ps. pID p = lid \<and> pHTTPURL p = u"
  by (induction ps) (auto split: if_splits)

text \<open>a node never sends a request to itself or to an address it was not configured with: the
  URL it names for the leader is that of a peer whose id is the leader's and not its own.\<close>

theorem LeaderHTTPURL_peer:
  assumes "LeaderHTTPURL api n w = u" and "u \<noteq> ''''"
  shows "\<exists>p \<in> set (cfgPeers (snCfg n)). pHTTPURL p = u \<and> pID p = snd (raLeaderWithID api (snRaft n) w) \<and>
    pID p \<noteq> cfgNodeID (snCfg n)"
  using assms peer_url_in [of "cfgPeers (snCfg n)" "snd (raLeaderWithID api (snRaft n) w)" u]
  by (auto simp: LeaderHTTPURL_def case_prod_beta Let_def split: if_splits)


section \<open>Witnesses\<close>

definition compose_peers :: "peer list" where
  "compose_peers =
     [\<lparr>pID = ''node1'', pRaftAddr = ''node1:7000'', pHTTPURL = ''http://node1:8080''\<rparr>,
      \<lparr>pID = ''node2'', pRaftAddr = ''node2:7000'', pHTTPURL = ''http://node2:8080''\<rparr>,
      \<lparr>pID = ''node3'', pRaftAddr = ''node3:7000'', pHTTPURL = ''http://node3:8080''\<rparr>]"

theorem ParsePeers_sound_witness:
  "map peer_text compose_peers = blank_free_parts (join_with '','' (map peer_text compose_peers))"
proof -
  have "list_all peer_plain compose_peers" by code_simp
  then have "ParsePeers (join_with '','' (map peer_text compose_peers)) = Inr compose_peers"
    by (intro parse_peer_texts) (simp add: compose_peers_def)
  from ParsePeers_sound [OF this] show ?thesis by simp
qed

definition follower_api :: "(unit, unit, unit) raft_api" where
  "follower_api = \<lparr>raLeaderWithID = (\<lambda>_ _. (''node2:7000'', ''node2'')), raState = (\<lambda>_ _. Follower),
     raStateString = (\<lambda>_. ''''), raStats = (\<lambda>_ _ _. ''''), raApply = (\<lambda>_ _ _ w. (ApplyError ErrNotLeader, w)),
     raCell = (\<lambda>_ _. NewFSM)\<rparr>"

definition node1 :: "(unit, unit) server_node" where
  "node1 = \<lparr>snRaft = (), snFSM = (), snCfg = \<lparr>cfgNodeID = ''node1'', cfgDataDir = ''/data'', cfgRaftBind = '':7000'',
     cfgRaftAdvertise = ''node1:7000'', cfgPeers = compose_peers, cfgBootstrap = True\<rparr>\<rparr>"

lemma leader_url_node2: "LeaderHTTPURL follower_api node1 () = ''http://node2:8080''"
  by (simp add: LeaderHTTPURL_def follower_api_def node1_def compose_peers_def)

theorem LeaderHTTPURL_peer_witness:
  "\<exists>p \<in> set (cfgPeers (snCfg node1)). pHTTPURL p = ''http://node2:8080'' \<and>
     pID p = snd (raLeaderWithID follower_api () ()) \<and> pID p \<noteq> ''node1''"
  using LeaderHTTPURL_peer [OF leader_url_node2] by (simp add: node1_def)

end
