(* ===== verification/Http.thy ===== *)
theory Http
  imports Node
begin

text \<open>
  \<open>internal/server/http.go\<close>: the HTTP API of a node. Requests and responses carry what the
  program reads and writes of them. The routing of \<open>net/http\<close> is modelled as the standard
  library has it (Go 1.24): a path is cleaned, by a redirect, in its escaped form, and
  handed to the handlers decoded. Raft, the network to the leader, the parser of its URL
  and the texts of decoding errors are parameters.
\<close>

section \<open>Requests and responses\<close>

record request =
  rqMethod :: string
  rqEscapedPath :: string
  rqNoProxy :: string
  rqForwarded :: string
  rqBody :: bytes
  rqBodyErr :: "string option"

record response =
  rsCode :: nat
  rsContentType :: string
  rsLocation :: string
  rsBody :: bytes

text \<open>Percent-decoding of a path.\<close>

definition unhex :: "char \<Rightarrow> nat option" where
  "unhex c = (if CHR ''0'' \<le> c \<and> c \<le> CHR ''9'' then Some (byte c - 48)
     else if CHR ''a'' \<le> c \<and> c \<le> CHR ''f'' then Some (byte c - 87)
     else if CHR ''A'' \<le> c \<and> c \<le> CHR ''F'' then Some (byte c - 55) else None)"

fun path_unescape :: "string \<Rightarrow> string option" where
  "path_unescape [] = Some []"
| "path_unescape (c # s) =
     (if c = CHR ''%'' then
        (case s of a # b # r \<Rightarrow>
           (case (unhex a, unhex b, path_unescape r) of
              (Some x, Some y, Some t) \<Rightarrow> Some (char_of (16 * x + y) # t)
            | _ \<Rightarrow> None)
         | _ \<Rightarrow> None)
      else map_option (Cons c) (path_unescape s))"

definition unescape_or_raw :: "string \<Rightarrow> string" where
  "unescape_or_raw s = (case path_unescape s of None \<Rightarrow> s | Some t \<Rightarrow> t)"

text \<open>\<open>r.URL.Path\<close>. A request whose path does not decode never reaches a handler.\<close>

definition URL_Path :: "request \<Rightarrow> string" where
  "URL_Path r = unescape_or_raw (rqEscapedPath r)"

section \<open>Routing\<close>

definition clean_url_path :: "string \<Rightarrow> string" where
  "clean_url_path p0 =
     (if p0 = '''' then ''/''
      else let p = (if hd p0 = CHR ''/'' then p0 else CHR ''/'' # p0); np = clean_path p in
        if last p = CHR ''/'' \<and> np \<noteq> ''/'' then np @ ''/'' else np)"

datatype route = RouteKV | RouteState | RouteHealth | RedirectTo string | NotFound

text \<open>The patterns \<open>/kv/\<close>, \<open>/internal/state\<close> and \<open>/healthz\<close>, matched by segments.\<close>

definition match_path :: "string \<Rightarrow> route" where
  "match_path p = (case map unescape_or_raw (split_on (CHR ''/'') p) of
     [] \<Rightarrow> NotFound
   | first # segs \<Rightarrow>
       if first \<noteq> '''' then NotFound
       else if segs = [''healthz''] then RouteHealth
       else if segs = [''internal'', ''state''] then RouteState
       else if segs = [''kv''] then RedirectTo (p @ ''/'')
       else if segs \<noteq> [] \<and> hd segs = ''kv'' then RouteKV
       else NotFound)"

definition mux_route :: "request \<Rightarrow> route" where
  "mux_route r =
     (if rqMethod r = ''CONNECT'' then match_path (rqEscapedPath r)
      else let p = clean_url_path (rqEscapedPath r) in
        case match_path p of RedirectTo u \<Rightarrow> RedirectTo u
        | m \<Rightarrow> if p \<noteq> rqEscapedPath r then RedirectTo p else m)"

section \<open>Responses\<close>

definition errNoLeader :: string where "errNoLeader = ''no_leader''"
definition errNotLeader :: string where "errNotLeader = ''not_leader''"
definition errBadReq :: string where "errBadReq = ''bad_request''"

text \<open>\<open>writeJSON\<close> sets the content type and the status and writes one JSON value and a newline.\<close>

definition writeJSON :: "nat \<Rightarrow> json \<Rightarrow> response" where
  "writeJSON code v = \<lparr>rsCode = code, rsContentType = ''application/json'', rsLocation = '''',
     rsBody = jprint v @ [CHR 0x0A]\<rparr>"

definition writeErr :: "nat \<Rightarrow> string \<Rightarrow> string \<Rightarrow> response" where
  "writeErr code errCode msg =
     writeJSON code (JObj [(''error'', JStr errCode), (''message'', JStr msg)])"

section \<open>The parameters\<close>

record ('w, 'u) http_env =
  heParseURL :: "string \<Rightarrow> 'u option"
  heForward :: "'u \<Rightarrow> request \<Rightarrow> 'w \<Rightarrow> (string + response) \<times> 'w"
  heJsonErrText :: "bytes \<Rightarrow> json_err \<Rightarrow> string"

section \<open>From a request to a command\<close>

definition max_body :: nat where
  "max_body = 2 ^ 20"

text \<open>\<open>io.ReadAll(io.LimitReader(r.Body, 1<<20))\<close>: the limit is an end of file, so an error of
  the body is seen only when the body stops short of it.\<close>

definition read_body :: "bytes \<Rightarrow> string option \<Rightarrow> string + bytes" where
  "read_body body err =
     (if length body < max_body then (case err of Some e \<Rightarrow> Inl e | None \<Rightarrow> Inr body)
      else Inr (take max_body body))"

record put_body =
  pbValue :: string

record cas_body =
  cbExpect :: "string option"
  cbValue :: string

definition put_field :: "string \<Rightarrow> json \<Rightarrow> put_body \<Rightarrow> put_body \<times> bool" where
  "put_field k v b =
     (if key_is k ''value'' then (let (x, e) = dec_string v (pbValue b) in (b\<lparr>pbValue := x\<rparr>, e))
      else (b, False))"

definition cas_field :: "string \<Rightarrow> json \<Rightarrow> cas_body \<Rightarrow> cas_body \<times> bool" where
  "cas_field k v b =
     (if key_is k ''expect'' then (let (x, e) = dec_strptr v (cbExpect b) in (b\<lparr>cbExpect := x\<rparr>, e))
      else if key_is k ''value'' then (let (x, e) = dec_string v (cbValue b) in (b\<lparr>cbValue := x\<rparr>, e))
      else (b, False))"

text \<open>The body of the \<open>/kv/\<close> handler up to its call of \<open>apply\<close>: a rejection (status and
  message; the code is always \<open>bad_request\<close>), or the command.\<close>

definition kv_command :: "(bytes \<Rightarrow> json_err \<Rightarrow> string) \<Rightarrow> string \<Rightarrow> string \<Rightarrow> bytes \<Rightarrow> (nat \<times> string) + command" where
  "kv_command json_err_text meth rest raw =
     (let (key, ok) = cut_suffix rest ''/cas'' in
      if ok \<and> meth = ''POST'' then
        (case unmarshal (dec_struct cas_field) raw \<lparr>cbExpect = None, cbValue = ''''\<rparr> of
           (body, Some e) \<Rightarrow> Inl (400, ''bad cas body: '' @ json_err_text raw e)
         | (body, None) \<Rightarrow> Inr \<lparr>cOp = OpCAS, cKey = key, cValue = cbValue body, cExpect = cbExpect body\<rparr>)
      else let key = rest in
      if CHR ''/'' \<in> set key then Inl (400, ''key must not contain '' @ [char_of (39 :: nat)] @ ''/'' @ [char_of (39 :: nat)])
      else if meth = ''GET'' then Inr (zero_command\<lparr>cOp := OpGet, cKey := key\<rparr>)
      else if meth = ''PUT'' then
        (case unmarshal (dec_struct put_field) raw \<lparr>pbValue = ''''\<rparr> of
           (body, Some e) \<Rightarrow> Inl (400, ''bad put body: '' @ json_err_text raw e)
         | (body, None) \<Rightarrow> Inr (zero_command\<lparr>cOp := OpPut, cKey := key, cValue := pbValue body\<rparr>))
      else if meth = ''DELETE'' then Inr (zero_command\<lparr>cOp := OpDelete, cKey := key\<rparr>)
      else Inl (405, ''method not allowed''))"

section \<open>Applying and proxying\<close>

definition proxyOrReject :: "('w, 'r, 'f) raft_api \<Rightarrow> ('w, 'u) http_env \<Rightarrow> ('r, 'f) server_node \<Rightarrow> request \<Rightarrow> 'w \<Rightarrow>
    response \<times> 'w" where
  "proxyOrReject api env n r w =
     (let leaderURL = LeaderHTTPURL api n w in
      if rqNoProxy r \<noteq> '''' then (writeErr 421 errNotLeader ''this node is not the leader'', w)
      else if leaderURL = '''' \<or> rqForwarded r \<noteq> '''' then
        (writeErr 503 errNoLeader ''no leader available from this node'', w)
      else (case heParseURL env leaderURL of
          None \<Rightarrow> (writeErr 500 ''internal'' ''bad leader url'', w)
        | Some target \<Rightarrow> (case heForward env target (r\<lparr>rqForwarded := ''1''\<rparr>) w of
              (Inl err, w') \<Rightarrow> (writeErr 502 ''proxy_error'' err, w')
            | (Inr rsp, w') \<Rightarrow> (rsp, w'))))"

definition apply_http :: "('w, 'r, 'f) raft_api \<Rightarrow> ('w, 'u) http_env \<Rightarrow> ('r, 'f) server_node \<Rightarrow> request \<Rightarrow> command \<Rightarrow> 'w \<Rightarrow>
    response \<times> 'w" where
  "apply_http api env n r cmd w0 = (case raApply api (snRaft n) (Encode cmd) ApplyTimeout w0 of
     (Response (Some res), w) \<Rightarrow> (writeJSON 200 (result_json res), w)
   | (Response None, w) \<Rightarrow> (writeErr 500 ''internal'' ''unexpected fsm response'', w)
   | (ApplyError ErrNotLeader, w) \<Rightarrow> proxyOrReject api env n r w
   | (ApplyError ErrLeadershipTransferInProgress, w) \<Rightarrow> proxyOrReject api env n r w
   | (ApplyError (OtherRaftError e), w) \<Rightarrow> (writeErr 500 ''apply_failed'' e, w))"

definition handle_kv :: "('w, 'r, 'f) raft_api \<Rightarrow> ('w, 'u) http_env \<Rightarrow> ('r, 'f) server_node \<Rightarrow> request \<Rightarrow> 'w \<Rightarrow>
    response \<times> 'w" where
  "handle_kv api env n r w =
     (let rest = trim_prefix (URL_Path r) ''/kv/'' in
      if rest = '''' then (writeErr 400 errBadReq ''missing key'', w)
      else case read_body (rqBody r) (rqBodyErr r) of
        Inl e \<Rightarrow> (writeErr 400 errBadReq (''read body: '' @ e), w)
      | Inr raw \<Rightarrow>
          let r' = r\<lparr>rqBody := raw, rqBodyErr := None\<rparr> in
          (case kv_command (heJsonErrText env) (rqMethod r') rest raw of
             Inl (code, msg) \<Rightarrow> (writeErr code errBadReq msg, w)
           | Inr cmd \<Rightarrow> apply_http api env n r' cmd w))"

definition handle_state :: "('w, 'r, 'f) raft_api \<Rightarrow> ('r, 'f) server_node \<Rightarrow> 'w \<Rightarrow> response" where
  "handle_state api n w =
     (let stats = raStats api (snRaft n) w in
      writeJSON 200 (JObj
        [(''commit_index'', JStr (stats ''commit_index'')),
         (''data'', strmap_json (Dump (raCell api (snFSM n) w))),
         (''last_applied'', JStr (stats ''applied_index'')),
         (''last_log_term'', JStr (stats ''last_log_term'')),
         (''node'', JStr (cfgNodeID (snCfg n))),
         (''state'', JStr (raStateString api (raState api (snRaft n) w)))]))"

definition handle_healthz :: "('w, 'r, 'f) raft_api \<Rightarrow> ('r, 'f) server_node \<Rightarrow> 'w \<Rightarrow> response" where
  "handle_healthz api n w =
     (let (addr, lid) = raLeaderWithID api (snRaft n) w in
      writeJSON 200 (JObj
        [(''leader_addr'', JStr addr), (''leader_id'', JStr lid), (''node'', JStr (cfgNodeID (snCfg n))),
         (''state'', JStr (raStateString api (raState api (snRaft n) w)))]))"

text \<open>What \<open>NewHandler\<close> returns. The bodies of redirects and of ``not found'' are \<open>net/http\<close>'s
  and left empty.\<close>

definition Handler :: "('w, 'r, 'f) raft_api \<Rightarrow> ('w, 'u) http_env \<Rightarrow> ('r, 'f) server_node \<Rightarrow> request \<Rightarrow> 'w \<Rightarrow>
    response \<times> 'w" where
  "Handler api env n r w = (case mux_route r of
     RouteKV \<Rightarrow> handle_kv api env n r w
   | RouteState \<Rightarrow> (handle_state api n w, w)
   | RouteHealth \<Rightarrow> (handle_healthz api n w, w)
   | RedirectTo u \<Rightarrow> (\<lparr>rsCode = 301, rsContentType = ''text/html'', rsLocation = u, rsBody = ''''\<rparr>, w)
   | NotFound \<Rightarrow> (\<lparr>rsCode = 404, rsContentType = ''text/plain'', rsLocation = '''', rsBody = ''''\<rparr>, w))"


section \<open>Paths\<close>

text \<open>A path without escapes, empty elements and dots is routed as it is.\<close>

lemma unescape_plain: "CHR ''%'' \<notin> set s \<Longrightarrow> unescape_or_raw s = s"
proof -
  have "CHR ''%'' \<notin> set s \<Longrightarrow> path_unescape s = Some s" by (induction s) auto
  then show "CHR ''%'' \<notin> set s \<Longrightarrow> unescape_or_raw s = s" by (simp add: unescape_or_raw_def)
qed

lemma clean_parts_plain:
  assumes "\<forall>p \<in> set ps. p \<noteq> '''' \<and> p \<noteq> ''.'' \<and> p \<noteq> ''..''"
  shows "clean_parts rooted st ps = rev st @ ps"
  using assms by (induction ps arbitrary: st) auto

lemma clean_url_plain:
  assumes "ps \<noteq> []" and "\<forall>p \<in> set ps. p \<noteq> '''' \<and> p \<noteq> ''.'' \<and> p \<noteq> ''..'' \<and> CHR ''/'' \<notin> set p"
  shows "clean_url_path (CHR ''/'' # join_with ''/'' ps) = CHR ''/'' # join_with ''/'' ps"
    and "split_on (CHR ''/'') (CHR ''/'' # join_with ''/'' ps) = '''' # ps"
proof -
  show split: "split_on (CHR ''/'') (CHR ''/'' # join_with ''/'' ps) = '''' # ps"
    using split_on_join [of ps "CHR ''/''"] assms by simp
  have clean: "clean_path (CHR ''/'' # join_with ''/'' ps) = CHR ''/'' # join_with ''/'' ps"
    unfolding clean_path_def split using assms(2) by (simp add: has_prefix_def clean_parts_plain)
  have "join_with ''/'' ps \<noteq> [] \<and> last (join_with ''/'' ps) \<noteq> CHR ''/''"
    using assms by (induction "''/''" ps rule: join_with.induct) (auto simp: last_append, metis last_in_set)
  then show "clean_url_path (CHR ''/'' # join_with ''/'' ps) = CHR ''/'' # join_with ''/'' ps"
    by (simp add: clean_url_path_def clean)
qed

lemma read_body_whole: "length b \<le> max_body \<Longrightarrow> read_body b None = Inr b"
  by (simp add: read_body_def)

text \<open>A text with each of its bytes percent-encoded: one element of a path that names any key at all.\<close>

definition pct :: "string \<Rightarrow> string" where
  "pct s = concat (map (\<lambda>c. [CHR ''%'', hex_char (byte c div 16), hex_char (byte c mod 16)]) s)"

lemma hex_char_16:
  assumes "n < 16"
  shows "unhex (hex_char n) = Some n" and "hex_char n \<noteq> CHR ''/''" and "hex_char n \<noteq> CHR ''%''"
proof -
  have "list_all (\<lambda>n. unhex (hex_char n) = Some n \<and> hex_char n \<noteq> CHR ''/'' \<and> hex_char n \<noteq> CHR ''%'') [0..<16]"
    by code_simp
  with assms show "unhex (hex_char n) = Some n" and "hex_char n \<noteq> CHR ''/''" and "hex_char n \<noteq> CHR ''%''"
    by (simp_all add: list_all_iff)
qed

lemma byte_halves: "byte c div 16 < 16" "byte c mod 16 < 16" "16 * (byte c div 16) + byte c mod 16 = byte c"
  using byte_less_256 [of c] by (auto simp del: byte_less_256)

lemma path_unescape_pct: "path_unescape (pct s) = Some s"
  by (induction s) (simp_all add: pct_def hex_char_16 byte_halves)

lemma pct_element: "CHR ''/'' \<notin> set (pct s)"
  using byte_halves(1,2) [THEN hex_char_16(2)] by (induction s) (simp_all add: pct_def eq_commute)

lemma pct_plain: "s \<noteq> '''' \<Longrightarrow> pct s \<noteq> '''' \<and> pct s \<noteq> ''.'' \<and> pct s \<noteq> ''..''"
  by (cases s) (auto simp: pct_def)

lemma route_pct:
  assumes "rqEscapedPath r = ''/kv/'' @ pct s" and "s \<noteq> ''''" and "rqMethod r \<noteq> ''CONNECT''"
  shows "mux_route r = RouteKV" and "trim_prefix (URL_Path r) ''/kv/'' = s"
proof -
  have path: "rqEscapedPath r = CHR ''/'' # join_with ''/'' [''kv'', pct s]"
    by (simp add: assms(1))
  have "\<forall>p \<in> set [''kv'', pct s]. p \<noteq> '''' \<and> p \<noteq> ''.'' \<and> p \<noteq> ''..'' \<and> CHR ''/'' \<notin> set p"
    using pct_plain [OF assms(2)] pct_element by simp
  note clean = clean_url_plain [OF _ this, OF list.discI [OF refl], folded path]
  have "match_path (rqEscapedPath r) = RouteKV"
    unfolding match_path_def clean(2) by (simp add: unescape_plain)
  then show "mux_route r = RouteKV"
    using clean(1) assms(3) by (simp add: mux_route_def Let_def)
  have "path_unescape (rqEscapedPath r) = Some (''/kv/'' @ s)"
    by (simp add: assms(1) path_unescape_pct)
  then show "trim_prefix (URL_Path r) ''/kv/'' = s"
    by (simp add: URL_Path_def unescape_or_raw_def trim_prefix_append del: append_Cons)
qed

section \<open>What the handler proposes\<close>

lemma kv_command_cases:
  assumes "kv_command txt meth rest raw = Inr c"
  shows "(cOp c = OpCAS \<and> meth = ''POST'' \<and> rest = cKey c @ ''/cas'') \<or>
    (cOp c \<in> {OpGet, OpPut, OpDelete} \<and> cKey c = rest \<and> CHR ''/'' \<notin> set rest)"
  using assms
  by (auto simp: kv_command_def Let_def zero_command_def cut_suffix_True split: prod.splits if_splits option.splits)

lemma kv_command_known: "kv_command txt meth rest raw = Inr c \<Longrightarrow> known_op c"
  by (drule kv_command_cases) (auto simp: known_op_def)

lemma op_names_valid: "known_op c \<Longrightarrow> to_valid (cOp c) = cOp c"
  by (auto simp: known_op_def op_defs)

lemma san_known_op: "known_op c \<Longrightarrow> known_op (san_command c)"
  using op_names_valid [of c] by (simp add: known_op_def san_command_def)

lemma apply_encoded:
  assumes "fData f \<noteq> NilMap" and "known_op c"
  shows "\<exists>f'. Apply f (Encode c) = Inr (spec_result (san_command c) (fsm_get f), f') \<and>
    fsm_get f' = spec_update (san_command c) (fsm_get f) \<and> fData f' \<noteq> NilMap"
  using apply_command_spec [OF assms(1) san_known_op [OF assms(2)]] by (simp add: Apply_def decode_encode)

text \<open>C15: no request can crash the replicas: whatever the method, path and body, a command the
  handler proposes is executed by every state machine whose map is not nil, as the map
  operation it names.\<close>

theorem proposed_commands_execute:
  assumes "kv_command txt meth rest raw = Inr c" and "fData f \<noteq> NilMap"
  shows "\<exists>f'. Apply f (Encode c) = Inr (spec_result (san_command c) (fsm_get f), f') \<and>
    fsm_get f' = spec_update (san_command c) (fsm_get f) \<and> fData f' \<noteq> NilMap"
  by (rule apply_encoded [OF assms(2) kv_command_known [OF assms(1)]])

section \<open>Keys of a compare-and-swap\<close>

lemma cas_command:
  assumes "unmarshal (dec_struct cas_field) raw \<lparr>cbExpect = None, cbValue = ''''\<rparr> = (b, None)"
  shows "kv_command txt ''POST'' (key @ ''/cas'') raw =
    Inr \<lparr>cOp = OpCAS, cKey = key, cValue = cbValue b, cExpect = cbExpect b\<rparr>"
  using assms by (simp add: kv_command_def)

section \<open>One hop\<close>

lemma apply_forwarded:
  assumes "rqForwarded r \<noteq> ''''"
  shows "apply_http api env n r c w = apply_http api env' n r c w"
proof -
  have "proxyOrReject api env n r = proxyOrReject api env' n r"
    using assms by (simp add: fun_eq_iff proxyOrReject_def Let_def)
  then show ?thesis unfolding apply_http_def by (rule ssubst) (rule refl)
qed

lemma forwarded_is_final':
  assumes "rqForwarded r \<noteq> ''''" and "heJsonErrText env = heJsonErrText env'"
  shows "Handler api env n r w = Handler api env' n r w"
proof -
  have "handle_kv api env n r w = handle_kv api env' n r w"
    unfolding handle_kv_def Let_def assms(2)
    by (auto intro!: apply_forwarded simp: assms(1) split: sum.splits)
  then show ?thesis by (simp add: Handler_def split: route.splits)
qed

text \<open>a request that another node forwarded is answered by the node it reached: whatever the
  network to other nodes would do, the answer and the effect are the same.\<close>

theorem forwarded_is_final:
  assumes "rqForwarded r \<noteq> ''''" and "heJsonErrText env = heJsonErrText env'"
  shows "Handler api env n r w = Handler api env' n r w"
  using assms by (rule forwarded_is_final')

section \<open>Answers that mean ``not applied''\<close>

text \<open>The error code as the client decodes it, and the codes the contract of the API names.\<close>

definition error_field :: "string \<Rightarrow> json \<Rightarrow> string \<Rightarrow> string \<times> bool" where
  "error_field k v s = (if key_is k ''error'' then dec_string v s else (s, False))"

definition response_error :: "bytes \<Rightarrow> string" where
  "response_error body = fst (unmarshal (dec_struct error_field) body '''')"

definition definite_codes :: "string list" where
  "definite_codes = [''no_leader'', ''not_leader'', ''bad_request'']"

definition definite :: "response \<Rightarrow> bool" where
  "definite rsp \<longleftrightarrow> rsCode rsp \<noteq> 200 \<and> response_error (rsBody rsp) \<in> set definite_codes"

lemma response_error_writeErr: "response_error (rsBody (writeErr code e msg)) = to_valid e"
proof -
  let ?v = "JObj [(''error'', JStr e), (''message'', JStr msg)]"
  have "jints ?v" "jdepth ?v \<le> max_depth" by (simp_all add: max_depth_def)
  then show ?thesis
    unfolding response_error_def writeErr_def writeJSON_def response.simps
    by (subst unmarshal_jprint_newline) (simp_all add: error_field_def key_is_def)
qed

lemma ambiguous_codes:
  "\<not> definite (writeErr code ''internal'' m)" "\<not> definite (writeErr code ''proxy_error'' m)"
  "\<not> definite (writeErr code ''apply_failed'' m)" "\<not> definite (writeJSON 200 v)"
  by (simp_all add: definite_def response_error_writeErr definite_codes_def) (simp add: writeJSON_def)

text \<open>
  What the handlers rely on in Raft: a proposal that is refused because the node does not lead,
  or is handing the leadership over, was not accepted. \<open>accepted\<close> reads off a world the
  entries that are committed or may still be.
\<close>

locale raft_contract =
  fixes api :: "('w, 'r, 'f) raft_api" and accepted :: "'w \<Rightarrow> bytes list"
  assumes refused: "raApply api r b t w = (ApplyError e, w') \<Longrightarrow>
    e = ErrNotLeader \<or> e = ErrLeadershipTransferInProgress \<Longrightarrow> accepted w' = accepted w"
begin

lemma proxy_no_effect:
  assumes "proxyOrReject api env n r w = (rsp, w')" and "definite rsp"
    and "\<And>u rsp w'. heForward env u (r\<lparr>rqForwarded := ''1''\<rparr>) w = (Inr rsp, w') \<Longrightarrow>
      definite rsp \<Longrightarrow> accepted w' = accepted w"
  shows "accepted w' = accepted w"
  using assms
  by (auto simp: proxyOrReject_def Let_def ambiguous_codes split: if_splits option.splits prod.splits sum.splits)

lemma apply_no_effect:
  assumes "apply_http api env n r c w = (rsp, w')" and "definite rsp"
    and "\<And>u w rsp w'. heForward env u (r\<lparr>rqForwarded := ''1''\<rparr>) w = (Inr rsp, w') \<Longrightarrow>
      definite rsp \<Longrightarrow> accepted w' = accepted w"
  shows "accepted w' = accepted w"
proof (cases "raApply api (snRaft n) (Encode c) ApplyTimeout w")
  case (Pair fut w1)
  show ?thesis
  proof (cases "fut = ApplyError ErrNotLeader \<or> fut = ApplyError ErrLeadershipTransferInProgress")
    case True
    with Pair have "accepted w1 = accepted w" using refused by blast
    moreover have "proxyOrReject api env n r w1 = (rsp, w')"
      using True Pair assms(1) by (auto simp: apply_http_def)
    ultimately show ?thesis using proxy_no_effect [OF _ assms(2), of env n r w1 w'] assms(3) by metis
  next
    case False
    with Pair assms(1,2) show ?thesis
      by (auto simp: apply_http_def ambiguous_codes split: apply_future.splits option.splits raft_error.splits)
  qed
qed

lemma handle_no_effect:
  assumes "Handler api env n r w = (rsp, w')" and "definite rsp"
    and "\<And>u r' w rsp w'. rqForwarded r' \<noteq> '''' \<Longrightarrow> heForward env u r' w = (Inr rsp, w') \<Longrightarrow>
      definite rsp \<Longrightarrow> accepted w' = accepted w"
  shows "accepted w' = accepted w"
proof (cases "mux_route r")
  case RouteKV
  with assms(1) have h: "handle_kv api env n r w = (rsp, w')" by (simp add: Handler_def)
  have "accepted w' = accepted w" if "apply_http api env n (r\<lparr>rqBody := raw, rqBodyErr := None\<rparr>) c w = (rsp, w')" for raw c
  proof (rule apply_no_effect [OF that assms(2)])
    fix u w rsp w'
    assume "heForward env u (r\<lparr>rqBody := raw, rqBodyErr := None, rqForwarded := ''1''\<rparr>) w = (Inr rsp, w')" "definite rsp"
    then show "accepted w' = accepted w"
      by (rule assms(3) [rotated]) simp
  qed
  with h show ?thesis
    by (auto simp: handle_kv_def Let_def split: if_splits sum.splits prod.splits)
qed (use assms(1) in \<open>auto simp: Handler_def\<close>)

text \<open>A forwarded request forwards nothing; and so the assumption on what comes back over the
  network is only that it is what some node answered.\<close>

lemma forwarded_no_effect:
  assumes "rqForwarded r \<noteq> ''''" and "Handler api env n r w = (rsp, w')" and "definite rsp"
  shows "accepted w' = accepted w"
proof -
  let ?env = "env\<lparr>heForward := (\<lambda>u r w. (Inl '''', w))\<rparr>"
  have "Handler api ?env n r w = (rsp, w')"
    using forwarded_is_final' [OF assms(1), of ?env env api n w] assms(2) by simp
  then show ?thesis by (rule handle_no_effect [OF _ assms(3)]) simp
qed

lemma definite_no_effect:
  assumes "\<And>u r w rsp w'. rqForwarded r \<noteq> '''' \<Longrightarrow> heForward env u r w = (Inr rsp, w') \<Longrightarrow>
      \<exists>n' env'. Handler api env' n' r w = (rsp, w')"
    and "Handler api env n r w = (rsp, w')" and "definite rsp"
  shows "accepted w' = accepted w"
proof (rule handle_no_effect [OF assms(2,3)])
  fix u r' w rsp w'
  assume "rqForwarded r' \<noteq> ''''" "heForward env u r' w = (Inr rsp, w')" "definite rsp"
  with assms(1) forwarded_no_effect show "accepted w' = accepted w" by metis
qed

end


section \<open>A cluster with a working Raft\<close>

text \<open>
  The smallest Raft that keeps the contract: one node leads, its proposals are appended and
  executed at once, and the other nodes refuse. The network delivers a forwarded request to
  the node with that URL. It shows that the contract can be met, and what the API does when
  nothing fails.
\<close>

record ideal =
  idLeader :: string
  idLog :: "bytes list"
  idFsm :: fsm

definition ideal_apply :: "string \<Rightarrow> bytes \<Rightarrow> int64 \<Rightarrow> ideal \<Rightarrow> apply_future \<times> ideal" where
  "ideal_apply node b t w =
     (if node \<noteq> idLeader w then (ApplyError ErrNotLeader, w)
      else case Apply (idFsm w) b of
        Inl p \<Rightarrow> (ApplyError (OtherRaftError ''shutdown''), w\<lparr>idLeader := ''''\<rparr>)
      | Inr (res, f) \<Rightarrow> (Response (Some res), w\<lparr>idLog := idLog w @ [b], idFsm := f\<rparr>))"

definition ideal_api :: "(ideal, string, unit) raft_api" where
  "ideal_api = \<lparr>raLeaderWithID = (\<lambda>_ w. ('''', idLeader w)),
     raState = (\<lambda>node w. if node = idLeader w then Leader else Follower),
     raStateString = (\<lambda>s. case s of Leader \<Rightarrow> ''Leader'' | _ \<Rightarrow> ''Follower''), raStats = (\<lambda>_ _ _. ''''),
     raApply = ideal_apply, raCell = (\<lambda>_ w. idFsm w)\<rparr>"

definition ideal_node :: "peer list \<Rightarrow> string \<Rightarrow> (string, unit) server_node" where
  "ideal_node peers i = \<lparr>snRaft = i, snFSM = (), snCfg = \<lparr>cfgNodeID = i, cfgDataDir = ''/data'',
     cfgRaftBind = '':7000'', cfgRaftAdvertise = i @ '':7000'', cfgPeers = peers, cfgBootstrap = True\<rparr>\<rparr>"

definition unreachable :: "(ideal, string) http_env" where
  "unreachable = \<lparr>heParseURL = Some, heForward = (\<lambda>_ _ w. (Inl ''unreachable'', w)), heJsonErrText = (\<lambda>_ _. '''')\<rparr>"

definition ideal_env :: "peer list \<Rightarrow> (ideal, string) http_env" where
  "ideal_env peers = unreachable\<lparr>heForward := (\<lambda>u r w.
     case find (\<lambda>p. pHTTPURL p = u) peers of
       None \<Rightarrow> (Inl ''no such host'', w)
     | Some p \<Rightarrow> (let (rsp, w') = Handler ideal_api unreachable (ideal_node peers (pID p)) r w in (Inr rsp, w')))\<rparr>"

interpretation ideal: raft_contract ideal_api idLog
  by unfold_locales (auto simp: ideal_api_def ideal_apply_def split: if_splits sum.splits prod.splits)

lemma ideal_delivers:
  "heForward (ideal_env peers) u r w = (Inr rsp, w') \<Longrightarrow>
   \<exists>n' (env' :: (ideal, string) http_env). Handler ideal_api env' n' r w = (rsp, w')"
  by (auto simp: ideal_env_def split: option.splits prod.splits)

definition ideal_peers :: "peer list \<Rightarrow> bool" where
  "ideal_peers peers \<longleftrightarrow> distinct (map pID peers) \<and> distinct (map pHTTPURL peers) \<and>
     list_all (\<lambda>p. pID p \<noteq> '''' \<and> pHTTPURL p \<noteq> '''') peers"

lemma peer_url_distinct: "distinct (map pID peers) \<Longrightarrow> p \<in> set peers \<Longrightarrow> peer_url peers (pID p) = pHTTPURL p"
  by (induction peers) (auto simp: rev_image_eqI)

lemma find_url_distinct:
  "distinct (map pHTTPURL peers) \<Longrightarrow> p \<in> set peers \<Longrightarrow> find (\<lambda>q. pHTTPURL q = pHTTPURL p) peers = Some p"
  by (induction peers) (auto simp: rev_image_eqI)

text \<open>The command of a request to the key-value API, if it is one that is proposed.\<close>

definition request_command :: "(bytes \<Rightarrow> json_err \<Rightarrow> string) \<Rightarrow> request \<Rightarrow> (bytes \<times> command) option" where
  "request_command txt r =
     (let rest = trim_prefix (URL_Path r) ''/kv/'' in
      if mux_route r \<noteq> RouteKV \<or> rest = '''' then None
      else case read_body (rqBody r) (rqBodyErr r) of
        Inl e \<Rightarrow> None
      | Inr raw \<Rightarrow> (case kv_command txt (rqMethod r) rest raw of Inl e \<Rightarrow> None | Inr c \<Rightarrow> Some (raw, c)))"

lemma request_command_handled:
  assumes "request_command (heJsonErrText env) r = Some (raw, c)"
  shows "Handler api env n r w = apply_http api env n (r\<lparr>rqBody := raw, rqBodyErr := None\<rparr>) c w"
  using assms
  by (auto simp: request_command_def Handler_def handle_kv_def Let_def split: if_splits sum.splits)

text \<open>A compare-and-swap on a key, its path percent-encoded throughout.\<close>

definition cas_request :: "string \<Rightarrow> string \<Rightarrow> string \<Rightarrow> bytes \<Rightarrow> request" where
  "cas_request key np fwd raw = \<lparr>rqMethod = ''POST'', rqEscapedPath = ''/kv/'' @ pct (key @ ''/cas''), rqNoProxy = np,
     rqForwarded = fwd, rqBody = raw, rqBodyErr = None\<rparr>"

text \<open>C30: the key of a compare-and-swap is not checked: for any key at all, the empty one and those with slashes
  included, and any body that decodes, there is a \<open>POST\<close> whose swap on that key the handler hands to \<open>apply\<close>.
  No other operation reaches such a key: a request whose command is not a swap has a key that is not empty and
  has no slash.\<close>

theorem cas_key_unchecked:
  assumes "unmarshal (dec_struct cas_field) raw \<lparr>cbExpect = None, cbValue = ''''\<rparr> = (b, None)"
    and "length raw \<le> max_body"
  shows "Handler api env n (cas_request key np fwd raw) w = apply_http api env n (cas_request key np fwd raw)
      \<lparr>cOp = OpCAS, cKey = key, cValue = cbValue b, cExpect = cbExpect b\<rparr> w \<and>
    (\<forall>r raw' c. request_command (heJsonErrText env) r = Some (raw', c) \<and> cOp c \<noteq> OpCAS \<longrightarrow>
      cKey c \<noteq> '''' \<and> CHR ''/'' \<notin> set (cKey c))"
proof
  let ?r = "cas_request key np fwd raw"
  have "mux_route ?r = RouteKV" and "trim_prefix (URL_Path ?r) ''/kv/'' = key @ ''/cas''"
    using route_pct [of ?r "key @ ''/cas''"] by (simp_all add: cas_request_def)
  moreover have "read_body (rqBody ?r) (rqBodyErr ?r) = Inr raw"
    using assms(2) by (simp add: cas_request_def read_body_whole)
  ultimately have "request_command (heJsonErrText env) ?r =
      Some (raw, \<lparr>cOp = OpCAS, cKey = key, cValue = cbValue b, cExpect = cbExpect b\<rparr>)"
    using cas_command [OF assms(1)] by (simp add: request_command_def cas_request_def)
  from request_command_handled [OF this] show "Handler api env n ?r w =
      apply_http api env n ?r \<lparr>cOp = OpCAS, cKey = key, cValue = cbValue b, cExpect = cbExpect b\<rparr> w"
    by (simp add: cas_request_def)
  show "\<forall>r raw' c. request_command (heJsonErrText env) r = Some (raw', c) \<and> cOp c \<noteq> OpCAS \<longrightarrow>
      cKey c \<noteq> '''' \<and> CHR ''/'' \<notin> set (cKey c)"
    by (auto simp: request_command_def Let_def split: if_splits sum.splits dest: kv_command_cases)
qed

lemma request_command_known: "request_command txt r = Some (raw, c) \<Longrightarrow> known_op c"
  by (auto simp: request_command_def Let_def split: if_splits sum.splits dest: kv_command_known)

lemma read_body_again: "read_body b e = Inr raw \<Longrightarrow> read_body raw None = Inr raw"
  by (auto simp: read_body_def split: if_splits option.splits)

lemma request_command_again:
  assumes "request_command txt r = Some (raw, c)"
  shows "request_command txt (r\<lparr>rqBody := raw, rqBodyErr := None, rqForwarded := x\<rparr>) = Some (raw, c)"
  using assms read_body_again [of "rqBody r" "rqBodyErr r" raw]
  by (auto simp: request_command_def URL_Path_def mux_route_def Let_def split: if_splits sum.splits)

text \<open>
  What serving a request takes, of any cluster (\<open>node i\<close> is what node \<open>i\<close> runs, \<open>store\<close> the state the
  leader's Raft executes on, \<open>leads w i\<close> that node \<open>i\<close> leads with a majority behind it):
  every node is configured with the same peers; the leader's Raft commits what it is given and answers the
  result of executing it; every other node's Raft refuses for want of leadership, which disturbs nothing, and
  names the leader; and a peer's URL parses, to an address at which the network delivers a request to the
  handler of that peer and brings back its answer. What the handlers make of it is not assumed.
\<close>

locale working_cluster =
  fixes api :: "('w, 'r, 'f) raft_api" and env :: "('w, 'u) http_env" and node :: "string \<Rightarrow> ('r, 'f) server_node"
    and peers :: "peer list" and leads :: "'w \<Rightarrow> string \<Rightarrow> bool" and store :: "'w \<Rightarrow> fsm"
  assumes configured: "cfgNodeID (snCfg (node i)) = i" "cfgPeers (snCfg (node i)) = peers"
    and named: "list_all (\<lambda>p. pID p \<noteq> '''' \<and> pHTTPURL p \<noteq> '''') peers" "distinct (map pID peers)"
    and executes: "leads w i \<Longrightarrow> Apply (store w) b = Inr (res, f) \<Longrightarrow>
      \<exists>w'. raApply api (snRaft (node i)) b ApplyTimeout w = (Response (Some res), w') \<and> store w' = f"
    and refuses: "leads w j \<Longrightarrow> i \<noteq> j \<Longrightarrow>
      \<exists>w'. raApply api (snRaft (node i)) b ApplyTimeout w = (ApplyError ErrNotLeader, w') \<and> store w' = store w \<and> leads w' j"
    and names: "leads w j \<Longrightarrow> snd (raLeaderWithID api (snRaft (node i)) w) = j"
    and resolves: "p \<in> set peers \<Longrightarrow> heParseURL env (pHTTPURL p) \<noteq> None"
    and delivers: "p \<in> set peers \<Longrightarrow> heParseURL env (pHTTPURL p) = Some u \<Longrightarrow> leads w (pID p) \<Longrightarrow>
      \<exists>w1 (env' :: ('w, 'u) http_env) rsp w2 w3. leads w1 (pID p) \<and> store w1 = store w \<and>
        heJsonErrText env' = heJsonErrText env \<and> Handler api env' (node (pID p)) r w1 = (rsp, w2) \<and>
        heForward env u r w = (Inr rsp, w3) \<and> store w3 = store w2"
begin

lemma leader_serves:
  assumes "leads w i" and "fData (store w) \<noteq> NilMap" and "known_op c"
  shows "\<exists>w'. apply_http api env' (node i) r c w =
      (writeJSON 200 (result_json (spec_result (san_command c) (fsm_get (store w)))), w') \<and>
    fsm_get (store w') = spec_update (san_command c) (fsm_get (store w)) \<and> fData (store w') \<noteq> NilMap"
proof -
  from apply_encoded [OF assms(2,3)] obtain f where f: "Apply (store w) (Encode c) =
      Inr (spec_result (san_command c) (fsm_get (store w)), f)"
    "fsm_get f = spec_update (san_command c) (fsm_get (store w))" "fData f \<noteq> NilMap" by blast
  with executes [OF assms(1) f(1)] show ?thesis
    by (auto simp: apply_http_def)
qed

lemma follower_forwards:
  assumes "p \<in> set peers" and "leads w (pID p)" and "i \<noteq> pID p" and "rqNoProxy r = ''''" and "rqForwarded r = ''''"
  shows "\<exists>w1 (env' :: ('w, 'u) http_env) rsp w2 w3. leads w1 (pID p) \<and> store w1 = store w \<and>
    heJsonErrText env' = heJsonErrText env \<and> Handler api env' (node (pID p)) (r\<lparr>rqForwarded := ''1''\<rparr>) w1 = (rsp, w2) \<and>
    apply_http api env (node i) r c w = (rsp, w3) \<and> store w3 = store w2"
proof -
  from refuses [OF assms(2,3)] obtain w0 where w0:
      "raApply api (snRaft (node i)) (Encode c) ApplyTimeout w = (ApplyError ErrNotLeader, w0)"
      "store w0 = store w" "leads w0 (pID p)" by blast
  from resolves [OF assms(1)] obtain u where u: "heParseURL env (pHTTPURL p) = Some u" by blast
  have p: "pID p \<noteq> ''''" "pHTTPURL p \<noteq> ''''"
    using assms(1) named(1) by (auto simp: list_all_iff)
  have "LeaderHTTPURL api (node i) w0 = pHTTPURL p"
    using names [OF w0(3), of i] assms(1,3) p peer_url_distinct [OF named(2) assms(1)]
    by (simp add: LeaderHTTPURL_def configured case_prod_beta)
  then have "apply_http api env (node i) r c w = (case heForward env u (r\<lparr>rqForwarded := ''1''\<rparr>) w0 of
      (Inl err, w') \<Rightarrow> (writeErr 502 ''proxy_error'' err, w') | (Inr rsp, w') \<Rightarrow> (rsp, w'))"
    using assms(4,5) p u w0(1) by (simp add: apply_http_def proxyOrReject_def)
  with delivers [OF assms(1) u w0(3), of "r\<lparr>rqForwarded := ''1''\<rparr>"] w0(2) show ?thesis
    by fastforce
qed

lemma node_serves:
  assumes "p \<in> set peers" and "leads w (pID p)" and "fData (store w) \<noteq> NilMap"
    and "request_command (heJsonErrText env) r = Some (raw, c)" and "rqNoProxy r = ''''" and "rqForwarded r = ''''"
  shows "\<exists>w'. Handler api env (node i) r w =
      (writeJSON 200 (result_json (spec_result (san_command c) (fsm_get (store w)))), w') \<and>
    fsm_get (store w') = spec_update (san_command c) (fsm_get (store w)) \<and> fData (store w') \<noteq> NilMap"
proof -
  let ?r = "r\<lparr>rqBody := raw, rqBodyErr := None\<rparr>"
  have here: "Handler api env (node i) r w = apply_http api env (node i) ?r c w"
    by (rule request_command_handled [OF assms(4)])
  have known: "known_op c" by (rule request_command_known [OF assms(4)])
  show ?thesis
  proof (cases "i = pID p")
    case True
    with leader_serves [OF assms(2,3) known] here show ?thesis by simp
  next
    case False
    let ?r2 = "?r\<lparr>rqForwarded := ''1''\<rparr>"
    have "rqNoProxy ?r = ''''" "rqForwarded ?r = ''''" using assms(5,6) by simp_all
    from follower_forwards [OF assms(1,2) False this] obtain w1 env' rsp w2 w3 where
      w1: "leads w1 (pID p)" "store w1 = store w" and jt: "heJsonErrText (env' :: ('w, 'u) http_env) = heJsonErrText env"
      and there: "Handler api env' (node (pID p)) ?r2 w1 = (rsp, w2)"
      and ret: "apply_http api env (node i) ?r c w = (rsp, w3)" "store w3 = store w2" by blast
    have "request_command (heJsonErrText env') ?r2 = Some (raw, c)"
      using request_command_again [OF assms(4), of "''1''"] by (simp add: jt)
    from request_command_handled [OF this, of api "node (pID p)" w1] there have "apply_http api env' (node (pID p)) ?r2 c w1 = (rsp, w2)"
      by (cases r) simp
    with leader_serves [OF w1(1) _ known, of env' ?r2] assms(3)
    have "rsp = writeJSON 200 (result_json (spec_result (san_command c) (fsm_get (store w)))) \<and>
        fsm_get (store w2) = spec_update (san_command c) (fsm_get (store w)) \<and> fData (store w2) \<noteq> NilMap"
      by (auto simp: w1(2))
    with here ret show ?thesis by simp
  qed
qed

end

lemma ideal_working:
  assumes "ideal_peers peers"
  shows "working_cluster ideal_api (ideal_env peers) (ideal_node peers) peers (\<lambda>w i. idLeader w = i) idFsm"
proof
  show "\<exists>w1 (env' :: (ideal, string) http_env) rsp w2 w3. idLeader w1 = pID p \<and> idFsm w1 = idFsm w \<and>
      heJsonErrText env' = heJsonErrText (ideal_env peers) \<and>
      Handler ideal_api env' (ideal_node peers (pID p)) r w1 = (rsp, w2) \<and>
      heForward (ideal_env peers) u r w = (Inr rsp, w3) \<and> idFsm w3 = idFsm w2"
    if "p \<in> set peers" "heParseURL (ideal_env peers) (pHTTPURL p) = Some u" "idLeader w = pID p" for p u w r
  proof -
    have "u = pHTTPURL p"
      using that by (simp add: ideal_env_def unreachable_def)
    moreover have "find (\<lambda>q. pHTTPURL q = pHTTPURL p) peers = Some p"
      using that(1) assms by (simp add: ideal_peers_def find_url_distinct)
    ultimately have "heForward (ideal_env peers) u r w = map_prod Inr id (Handler ideal_api unreachable (ideal_node peers (pID p)) r w)"
      by (simp add: ideal_env_def case_prod_beta map_prod_def)
    with that(3) show ?thesis
      by (intro exI [of _ w] exI [of _ unreachable]) (simp add: ideal_env_def map_prod_def case_prod_beta prod_eq_iff)
  qed
qed (use assms in \<open>auto simp: ideal_node_def ideal_peers_def ideal_api_def ideal_apply_def ideal_env_def unreachable_def
    list_all_iff split: sum.splits\<close>)

text \<open>The three servers of the compose file.\<close>

interpretation compose: working_cluster ideal_api "ideal_env compose_peers" "ideal_node compose_peers" compose_peers
    "\<lambda>w i. idLeader w = i" idFsm
  by (rule ideal_working) code_simp

text \<open>C14: any node serves. In any cluster with a working Raft and network (\<open>working_cluster\<close>), a request that holds a
  command is answered with the result of the command on the store, and leaves the store with the command's
  effect, whichever node it is sent to: the node that leads executes it, another passes it on, once, with its
  body as it was read.\<close>

theorem any_node_serves:
  assumes "working_cluster api env node peers leads store"
    and "p \<in> set peers" and "leads w (pID p)" and "fData (store w) \<noteq> NilMap"
    and "request_command (heJsonErrText env) r = Some (raw, c)"
    and "rqNoProxy r = ''''" and "rqForwarded r = ''''"
  shows "\<exists>w'. Handler api env (node i) r w =
      (writeJSON 200 (result_json (spec_result (san_command c) (fsm_get (store w)))), w') \<and>
    fsm_get (store w') = spec_update (san_command c) (fsm_get (store w)) \<and> fData (store w') \<noteq> NilMap"
  by (rule working_cluster.node_serves [OF assms])

text \<open>C3: the error contract: when a node answers with one of the codes that mean ``not applied'',
  Raft accepted nothing, neither through this node nor through one the request was passed to.
  What is asked of the surroundings: Raft accepts nothing it refuses for want of leadership,
  and what comes back over the network for a forwarded request is what a node answered to it.\<close>

theorem definite_errors_not_applied:
  fixes env :: "('w, 'u) http_env"
  assumes "raft_contract api accepted"
    and "\<And>u r w rsp w'. rqForwarded r \<noteq> '''' \<Longrightarrow> heForward env u r w = (Inr rsp, w') \<Longrightarrow>
      \<exists>n' (env' :: ('w, 'u) http_env). Handler api env' n' r w = (rsp, w')"
    and "Handler api env n r w = (rsp, w')" and "definite rsp"
  shows "accepted w' = accepted w"
  using raft_contract.definite_no_effect [OF assms(1) _ assms(3,4)] assms(2) by blast


section \<open>What the API can answer\<close>

text \<open>The answers of the key-value API other than a result: the status and the error code.\<close>

definition error_answers :: "(nat \<times> string) list" where
  "error_answers = [(400, errBadReq), (405, errBadReq), (421, errNotLeader), (503, errNoLeader),
     (500, ''internal''), (500, ''apply_failed''), (502, ''proxy_error'')]"

definition kv_answer :: "response \<Rightarrow> bool" where
  "kv_answer rsp \<longleftrightarrow> rsContentType rsp = ''application/json'' \<and> rsLocation rsp = '''' \<and>
     ((\<exists>res. rsp = writeJSON 200 (result_json res)) \<or> (rsCode rsp, response_error (rsBody rsp)) \<in> set error_answers)"

lemma kv_answer_result: "kv_answer (writeJSON 200 (result_json res))"
  by (auto simp: kv_answer_def writeJSON_def)

lemma kv_answer_error: "(code, to_valid e) \<in> set error_answers \<Longrightarrow> kv_answer (writeErr code e msg)"
  using response_error_writeErr [of code e msg] by (simp add: kv_answer_def writeErr_def writeJSON_def)

lemmas error_answer_defs = error_answers_def errBadReq_def errNotLeader_def errNoLeader_def

lemma proxy_answers:
  assumes "proxyOrReject api env n r w = (rsp, w')"
    and "\<And>u rsp w'. heForward env u (r\<lparr>rqForwarded := ''1''\<rparr>) w = (Inr rsp, w') \<Longrightarrow> rqForwarded r = '''' \<Longrightarrow> kv_answer rsp"
  shows "kv_answer rsp"
  using assms
  by (auto simp: proxyOrReject_def Let_def error_answer_defs intro!: kv_answer_error
      split: if_splits option.splits prod.splits sum.splits)

lemma apply_answers:
  assumes "apply_http api env n r c w = (rsp, w')"
    and "\<And>u w rsp w'. heForward env u (r\<lparr>rqForwarded := ''1''\<rparr>) w = (Inr rsp, w') \<Longrightarrow> rqForwarded r = '''' \<Longrightarrow> kv_answer rsp"
  shows "kv_answer rsp"
  using assms
  by (auto simp: apply_http_def error_answer_defs intro!: kv_answer_error kv_answer_result intro: proxy_answers
      split: prod.splits apply_future.splits option.splits raft_error.splits)

lemma kv_command_rejects: "kv_command txt meth rest raw = Inl (code, msg) \<Longrightarrow> code \<in> {400, 405}"
  by (auto simp: kv_command_def Let_def split: prod.splits if_splits option.splits)

lemma handle_kv_answers:
  assumes "handle_kv api env n r w = (rsp, w')"
    and "\<And>u r' w rsp w'. heForward env u r' w = (Inr rsp, w') \<Longrightarrow> rqForwarded r = '''' \<Longrightarrow> rqForwarded r' = ''1'' \<Longrightarrow>
      mux_route r' = mux_route r \<Longrightarrow> kv_answer rsp"
  shows "kv_answer rsp"
proof -
  have "kv_answer rsp" if "apply_http api env n (r\<lparr>rqBody := raw, rqBodyErr := None\<rparr>) c w = (rsp, w')" for raw c
    by (rule apply_answers [OF that], erule assms(2)) (simp_all add: mux_route_def Let_def)
  moreover have "kv_answer (writeErr code errBadReq msg)" if "code \<in> {400, 405}" for code msg
    using that by (auto simp: error_answer_defs intro!: kv_answer_error)
  ultimately show ?thesis
    using assms(1) by (auto simp: handle_kv_def Let_def dest: kv_command_rejects split: if_splits sum.splits prod.splits)
qed

text \<open>C16: the key-value API keeps its type: whatever the method, the path under \<open>/kv/\<close> and the body, and
  whether the node answers or passes the request on, the answer is JSON: a result with status 200,
  or an error object whose code and status are one of seven pairs. What is asked of the network is
  that the answer to a forwarded request is one that a node gave to it.\<close>

theorem kv_answers_typed:
  fixes env :: "('w, 'u) http_env"
  assumes "\<And>u r w rsp w'. rqForwarded r \<noteq> '''' \<Longrightarrow> heForward env u r w = (Inr rsp, w') \<Longrightarrow>
      \<exists>n' (env' :: ('w, 'u) http_env). Handler api env' n' r w = (rsp, w')"
    and "mux_route r = RouteKV" and "Handler api env n r w = (rsp, w')"
  shows "kv_answer rsp"
proof (rule handle_kv_answers)
  show "handle_kv api env n r w = (rsp, w')" using assms(2,3) by (simp add: Handler_def)
  fix u r' w rsp w'
  assume fwd: "heForward env u r' w = (Inr rsp, w')" "rqForwarded r' = ''1''" "mux_route r' = mux_route r"
  with assms(1) obtain n' and env' :: "('w, 'u) http_env" where "Handler api env' n' r' w = (rsp, w')"
    by (metis list.distinct(1))
  with fwd(3) assms(2) have "handle_kv api env' n' r' w = (rsp, w')" by (simp add: Handler_def)
  then show "kv_answer rsp" by (rule handle_kv_answers) (simp add: fwd(2))
qed


section \<open>Witnesses\<close>

definition get_k :: request where
  "get_k = \<lparr>rqMethod = ''GET'', rqEscapedPath = ''/kv/k'', rqNoProxy = '''', rqForwarded = '''', rqBody = '''',
     rqBodyErr = None\<rparr>"

definition led_by :: "string \<Rightarrow> ideal" where
  "led_by i = \<lparr>idLeader = i, idLog = [], idFsm = NewFSM\<rparr>"

lemma get_k_command: "request_command txt get_k = Some ('''', zero_command\<lparr>cOp := OpGet, cKey := ''k''\<rparr>)"
proof -
  have "mux_route get_k = RouteKV" by code_simp
  moreover have "trim_prefix (URL_Path get_k) ''/kv/'' = ''k''" by code_simp
  moreover have "read_body (rqBody get_k) (rqBodyErr get_k) = Inr ''''"
    by (simp add: read_body_def get_k_def max_body_def)
  moreover have "cut_suffix ''k'' ''/cas'' = (''k'', False)" by code_simp
  ultimately show ?thesis
    by (simp add: request_command_def kv_command_def get_k_def)
qed

theorem proposed_commands_execute_witness:
  "\<exists>f'. Apply NewFSM (Encode (zero_command\<lparr>cOp := OpGet, cKey := ''k''\<rparr>)) =
    Inr (spec_result (san_command (zero_command\<lparr>cOp := OpGet, cKey := ''k''\<rparr>)) (fsm_get NewFSM), f')"
proof -
  have "cut_suffix ''k'' ''/cas'' = (''k'', False)" by code_simp
  then have "kv_command (\<lambda>_ _. '''') ''GET'' ''k'' '''' = Inr (zero_command\<lparr>cOp := OpGet, cKey := ''k''\<rparr>)"
    by (simp add: kv_command_def)
  from proposed_commands_execute [OF this, of NewFSM] show ?thesis
    by (auto simp: NewFSM_def)
qed

lemma cas_body_decodes:
  "unmarshal (dec_struct cas_field) (jprint (JObj [(''expect'', JNull), (''value'', JStr ''v'')]))
     \<lparr>cbExpect = None, cbValue = ''''\<rparr> = (\<lparr>cbExpect = None, cbValue = ''v''\<rparr>, None)"
  by (subst unmarshal_jprint) (simp_all add: max_depth_def cas_field_def key_is_def)

theorem cas_key_unchecked_witness:
  "Handler ideal_api (ideal_env compose_peers) (ideal_node compose_peers ''node1'')
     (cas_request ''a/b'' '''' '''' (jprint (JObj [(''expect'', JNull), (''value'', JStr ''v'')]))) (led_by ''node1'') =
   apply_http ideal_api (ideal_env compose_peers) (ideal_node compose_peers ''node1'')
     (cas_request ''a/b'' '''' '''' (jprint (JObj [(''expect'', JNull), (''value'', JStr ''v'')])))
     \<lparr>cOp = OpCAS, cKey = ''a/b'', cValue = ''v'', cExpect = None\<rparr> (led_by ''node1'')"
proof -
  have "length (jprint (JObj [(''expect'', JNull), (''value'', JStr ''v'')])) = 27" by code_simp
  then have "length (jprint (JObj [(''expect'', JNull), (''value'', JStr ''v'')])) \<le> max_body"
    by (simp add: max_body_def)
  from conjunct1 [OF cas_key_unchecked [OF cas_body_decodes this, where key = "''a/b''" and np = "''''" and fwd = "''''"]]
  show ?thesis by (simp del: jprint.simps)
qed

theorem forwarded_is_final_witness:
  "Handler ideal_api (ideal_env compose_peers) (ideal_node compose_peers ''node1'') (get_k\<lparr>rqForwarded := ''1''\<rparr>) (led_by ''node2'') =
   Handler ideal_api unreachable (ideal_node compose_peers ''node1'') (get_k\<lparr>rqForwarded := ''1''\<rparr>) (led_by ''node2'')"
  by (rule forwarded_is_final) (simp_all add: ideal_env_def get_k_def)

lemma no_leader_503:
  "Handler ideal_api (ideal_env compose_peers) (ideal_node compose_peers ''node1'') get_k (led_by '''') =
     (writeErr 503 errNoLeader ''no leader available from this node'', led_by '''')"
  unfolding request_command_handled [OF get_k_command]
  by (simp add: apply_http_def ideal_api_def ideal_node_def ideal_apply_def led_by_def proxyOrReject_def
      LeaderHTTPURL_def get_k_def)

theorem definite_errors_not_applied_witness: "idLog (led_by '''') = idLog (led_by '''')"
proof (rule definite_errors_not_applied [OF _ _ no_leader_503])
  show "raft_contract ideal_api idLog" by (rule ideal.raft_contract_axioms)
  show "\<exists>n' (env' :: (ideal, string) http_env). Handler ideal_api env' n' r w = (rsp, w')"
    if "heForward (ideal_env compose_peers) u r w = (Inr rsp, w')" for u r w rsp w'
    using that by (rule ideal_delivers)
  show "definite (writeErr 503 errNoLeader ''no leader available from this node'')"
    by (simp add: definite_def response_error_writeErr definite_codes_def errNoLeader_def) (simp add: writeErr_def writeJSON_def)
qed

theorem any_node_serves_witness:
  "fst (Handler ideal_api (ideal_env compose_peers) (ideal_node compose_peers ''node1'') get_k (led_by ''node2'')) =
     writeJSON 200 (result_json \<lparr>rOk = True, rPresent = False, rValue = ''''\<rparr>)"
proof -
  have "compose_peers ! 1 \<in> set compose_peers" by (simp add: compose_peers_def)
  moreover have "idLeader (led_by ''node2'') = pID (compose_peers ! 1)" by (simp add: led_by_def compose_peers_def)
  ultimately show ?thesis
    using any_node_serves [OF compose.working_cluster_axioms _ _ _ get_k_command, of "compose_peers ! 1" "led_by ''node2''" "''node1''"]
    by (auto simp: led_by_def NewFSM_def get_k_def spec_result_def san_command_def zero_command_def
        op_defs fsm_get_def gomap_get_def)
qed

theorem kv_answers_typed_witness:
  "kv_answer (fst (Handler ideal_api (ideal_env compose_peers) (ideal_node compose_peers ''node1'') get_k (led_by ''node2'')))"
proof (rule kv_answers_typed [OF _ _ prod.collapse [symmetric]])
  show "\<exists>n' (env' :: (ideal, string) http_env). Handler ideal_api env' n' r w = (rsp, w')"
    if "heForward (ideal_env compose_peers) u r w = (Inr rsp, w')" for u r w rsp w'
    using that by (rule ideal_delivers)
  show "mux_route get_k = RouteKV" by code_simp
qed

end
