(* ===== verification/History.thy ===== *)
theory History
  imports Command
begin

text \<open>
  \<open>internal/history/history.go\<close>: the client-side operation record and its JSONL file.
  Go's \<open>bufio.Writer\<close> and \<open>bufio.Scanner\<close> are modelled with their buffer sizes, and a
  file system as one file with a limited amount of free space.
\<close>

section \<open>Records\<close>

definition OutcomeOK :: string where "OutcomeOK = ''ok''"
definition OutcomeFailed :: string where "OutcomeFailed = ''failed''"
definition OutcomeUnknown :: string where "OutcomeUnknown = ''unknown''"

lemmas outcome_defs [eval_simps] = OutcomeOK_def OutcomeFailed_def OutcomeUnknown_def

lemma outcome_distinct [simp]:
  "OutcomeOK \<noteq> OutcomeFailed" "OutcomeOK \<noteq> OutcomeUnknown" "OutcomeFailed \<noteq> OutcomeOK"
  "OutcomeFailed \<noteq> OutcomeUnknown" "OutcomeUnknown \<noteq> OutcomeOK" "OutcomeUnknown \<noteq> OutcomeFailed"
  by (simp_all add: outcome_defs)

record hop =
  hClient :: int64
  hOp :: string
  hKey :: string
  hValue :: string
  hExpect :: "string option"
  hStartNs :: int64
  hEndNs :: int64
  hOutcome :: string
  hOk :: bool
  hPresent :: bool
  hRetVal :: string
  hNode :: string

definition zero_hop :: hop where
  "zero_hop = \<lparr>hClient = 0, hOp = '''', hKey = '''', hValue = '''', hExpect = None, hStartNs = 0,
     hEndNs = 0, hOutcome = '''', hOk = False, hPresent = False, hRetVal = '''', hNode = ''''\<rparr>"

text \<open>\<open>omitempty\<close>: the member is left out when the string is empty (the pointer nil).\<close>

definition omit_empty :: "string \<Rightarrow> string \<Rightarrow> (string \<times> json) list" where
  "omit_empty k s = (if s = '''' then [] else [(k, JStr s)])"

definition omit_nil :: "string \<Rightarrow> string option \<Rightarrow> (string \<times> json) list" where
  "omit_nil k p = (case p of None \<Rightarrow> [] | Some s \<Rightarrow> [(k, JStr s)])"

definition hop_json :: "hop \<Rightarrow> json" where
  "hop_json op = JObj
     ([(''client'', JNum (int_dec (sint (hClient op)))), (''op'', JStr (hOp op)), (''key'', JStr (hKey op))]
      @ omit_empty ''value'' (hValue op) @ omit_nil ''expect'' (hExpect op)
      @ [(''start_ns'', JNum (int_dec (sint (hStartNs op)))), (''end_ns'', JNum (int_dec (sint (hEndNs op)))),
         (''outcome'', JStr (hOutcome op)), (''ok'', JBool (hOk op)), (''present'', JBool (hPresent op))]
      @ omit_empty ''ret_val'' (hRetVal op) @ omit_empty ''node'' (hNode op))"

definition hop_field :: "string \<Rightarrow> json \<Rightarrow> hop \<Rightarrow> hop \<times> bool" where
  "hop_field k v op =
     (if key_is k ''client'' then (let (x, e) = dec_int64 v (hClient op) in (op\<lparr>hClient := x\<rparr>, e))
      else if key_is k ''op'' then (let (x, e) = dec_string v (hOp op) in (op\<lparr>hOp := x\<rparr>, e))
      else if key_is k ''key'' then (let (x, e) = dec_string v (hKey op) in (op\<lparr>hKey := x\<rparr>, e))
      else if key_is k ''value'' then (let (x, e) = dec_string v (hValue op) in (op\<lparr>hValue := x\<rparr>, e))
      else if key_is k ''expect'' then (let (x, e) = dec_strptr v (hExpect op) in (op\<lparr>hExpect := x\<rparr>, e))
      else if key_is k ''start_ns'' then (let (x, e) = dec_int64 v (hStartNs op) in (op\<lparr>hStartNs := x\<rparr>, e))
      else if key_is k ''end_ns'' then (let (x, e) = dec_int64 v (hEndNs op) in (op\<lparr>hEndNs := x\<rparr>, e))
      else if key_is k ''outcome'' then (let (x, e) = dec_string v (hOutcome op) in (op\<lparr>hOutcome := x\<rparr>, e))
      else if key_is k ''ok'' then (let (x, e) = dec_bool v (hOk op) in (op\<lparr>hOk := x\<rparr>, e))
      else if key_is k ''present'' then (let (x, e) = dec_bool v (hPresent op) in (op\<lparr>hPresent := x\<rparr>, e))
      else if key_is k ''ret_val'' then (let (x, e) = dec_string v (hRetVal op) in (op\<lparr>hRetVal := x\<rparr>, e))
      else if key_is k ''node'' then (let (x, e) = dec_string v (hNode op) in (op\<lparr>hNode := x\<rparr>, e))
      else (op, False))"

definition hop_of_line :: "bytes \<Rightarrow> hop \<times> json_err option" where
  "hop_of_line b = unmarshal (dec_struct hop_field) b zero_hop"

section \<open>Files and buffered writing\<close>

record disk =
  dkFile :: "bytes option"
  dkFree :: nat
  dkWritable :: bool

datatype os_err = NotExist | PermissionDenied | NoSpace

definition os_Create :: "disk \<Rightarrow> os_err option \<times> disk" where
  "os_Create d = (if dkWritable d
     then (None, d\<lparr>dkFile := Some [], dkFree := dkFree d + (case dkFile d of None \<Rightarrow> 0 | Some b \<Rightarrow> length b)\<rparr>)
     else (Some PermissionDenied, d))"

text \<open>\<open>File.Write\<close> writes all its bytes or fails, keeping the part that fitted.\<close>

definition os_Write :: "disk \<Rightarrow> bytes \<Rightarrow> os_err option \<times> disk" where
  "os_Write d b = (let fit = take (dkFree d) b;
       d' = d\<lparr>dkFile := map_option (\<lambda>x. x @ fit) (dkFile d), dkFree := dkFree d - length fit\<rparr> in
     (if length b \<le> dkFree d then None else Some NoSpace, d'))"

text \<open>\<open>bufio.Writer\<close> with its default buffer; an error is sticky.\<close>

record bufw =
  bwBuf :: bytes
  bwErr :: "os_err option"
  bwDisk :: disk

definition bufio_size :: nat where
  "bufio_size = 4096"

definition bw_direct :: "bufw \<Rightarrow> bytes \<Rightarrow> bufw" where
  "bw_direct w p = (let (e, d) = os_Write (bwDisk w) p in w\<lparr>bwErr := e, bwDisk := d\<rparr>)"

definition bw_Flush :: "bufw \<Rightarrow> bufw" where
  "bw_Flush w =
     (if bwErr w \<noteq> None \<or> bwBuf w = [] then w
      else let w' = bw_direct w (bwBuf w) in if bwErr w' = None then w'\<lparr>bwBuf := []\<rparr> else w')"

text \<open>\<open>Write\<close>: what fits goes to the buffer; otherwise a full buffer is flushed first, and a
  text longer than an empty buffer goes to the file directly.\<close>

definition bw_Write :: "bufw \<Rightarrow> bytes \<Rightarrow> bufw" where
  "bw_Write w p =
     (if bwErr w \<noteq> None then w
      else let avail = bufio_size - length (bwBuf w) in
        if length p \<le> avail then w\<lparr>bwBuf := bwBuf w @ p\<rparr>
        else if bwBuf w = [] then bw_direct w p
        else let w1 = bw_Flush (w\<lparr>bwBuf := bwBuf w @ take avail p\<rparr>); p' = drop avail p in
          if bwErr w1 \<noteq> None then w1
          else if length p' \<le> bufio_size then w1\<lparr>bwBuf := p'\<rparr>
          else bw_direct w1 p')"

section \<open>Writing and reading histories\<close>

definition history_line :: "hop \<Rightarrow> bytes" where
  "history_line op = jprint (hop_json op) @ [CHR 0x0A]"

fun write_ops :: "bufw \<Rightarrow> hop list \<Rightarrow> bufw" where
  "write_ops w [] = bw_Flush w"
| "write_ops w (op # ops) =
     (let w' = bw_Write w (history_line op) in
      if bwErr w' \<noteq> None then w' else write_ops w' ops)"

definition WriteFile :: "disk \<Rightarrow> hop list \<Rightarrow> os_err option \<times> disk" where
  "WriteFile d ops = (case os_Create d of
     (Some err, d') \<Rightarrow> (Some err, d')
   | (None, d') \<Rightarrow> (let w = write_ops \<lparr>bwBuf = [], bwErr = None, bwDisk = d'\<rparr> ops in (bwErr w, bwDisk w)))"

text \<open>The scanner's lines: cut at newlines, a trailing carriage return dropped, a last line
  without newline included; a line that fills the buffer of 16 MiB ends the scan.\<close>

definition max_token :: nat where
  "max_token = 16 * 1024 * 1024"

definition drop_cr :: "string \<Rightarrow> string" where
  "drop_cr s = (if s \<noteq> [] \<and> last s = CHR 0x0D then butlast s else s)"

function scan_lines :: "nat \<Rightarrow> string \<Rightarrow> string list \<times> bool" where
  "scan_lines lim s =
     (if s = [] then ([], False)
      else let line = takeWhile (\<lambda>c. c \<noteq> CHR 0x0A) s in
        if lim \<le> length line then ([], True)
        else let (ls, long) = scan_lines lim (drop (Suc (length line)) s) in (drop_cr line # ls, long))"
  by pat_completeness auto
termination
  by (relation "measure (\<lambda>(lim, s). length s)") auto

declare scan_lines.simps [simp del]

datatype read_err = LineError nat json_err | TokenTooLong | OpenError os_err

text \<open>The loop over the scanned lines, counting them from 1; empty lines are skipped.\<close>

fun read_loop :: "nat \<Rightarrow> string list \<Rightarrow> hop list \<Rightarrow> read_err + hop list" where
  "read_loop line [] ops = Inr ops"
| "read_loop line (b # bs) ops =
     (if b = [] then read_loop (Suc line) bs ops
      else case hop_of_line b of
        (op, Some err) \<Rightarrow> Inl (LineError (Suc line) err)
      | (op, None) \<Rightarrow> read_loop (Suc line) bs (ops @ [op]))"

definition Read :: "bytes \<Rightarrow> hop list \<times> read_err option" where
  "Read r = (let (ls, long) = scan_lines max_token r in
     case read_loop 0 ls [] of
       Inl err \<Rightarrow> ([], Some err)
     | Inr ops \<Rightarrow> (ops, if long then Some TokenTooLong else None))"

definition ReadFile :: "disk \<Rightarrow> hop list \<times> read_err option" where
  "ReadFile d = (case dkFile d of
     None \<Rightarrow> ([], Some (OpenError NotExist))
   | Some b \<Rightarrow> Read b)"

section \<open>Round trips\<close>

definition san_hop :: "hop \<Rightarrow> hop" where
  "san_hop op = op\<lparr>hOp := to_valid (hOp op), hKey := to_valid (hKey op), hValue := to_valid (hValue op),
     hExpect := map_option to_valid (hExpect op), hOutcome := to_valid (hOutcome op),
     hRetVal := to_valid (hRetVal op), hNode := to_valid (hNode op)\<rparr>"

lemma hop_text: "jints (hop_json op)" "jdepth (hop_json op) \<le> max_depth"
  by (auto simp: hop_json_def omit_empty_def omit_nil_def max_depth_def split: option.splits)

lemma hop_roundtrip: "hop_of_line (jprint (hop_json op)) = (san_hop op, None)"
  unfolding hop_of_line_def unmarshal_jprint [OF hop_text]
  by (cases "hExpect op") (simp_all add: hop_json_def omit_empty_def omit_nil_def hop_field_def key_is_def
      zero_hop_def san_hop_def parse_int_dec)

lemma no_newline: "no_ctl s \<Longrightarrow> \<forall>c \<in> set s. c \<noteq> CHR 0x0A"
  by (auto simp: no_ctl_def)

lemma hop_line_end: "jprint (hop_json op) \<noteq> [] \<and> last (jprint (hop_json op)) = CHR ''}''"
  by (simp add: hop_json_def)

lemma hop_line_no_newline: "\<forall>c \<in> set (jprint (hop_json op)). c \<noteq> CHR 0x0A"
  by (intro no_newline no_ctl_jprint hop_text)

lemma drop_cr_hop: "drop_cr (jprint (hop_json op)) = jprint (hop_json op)"
  using hop_line_end [of op] by (simp add: drop_cr_def)

lemma scan_lines_step:
  assumes "\<forall>c \<in> set l. c \<noteq> CHR 0x0A" and "length l < lim"
  shows "scan_lines lim (l @ CHR 0x0A # s) = (let (ls, long) = scan_lines lim s in (drop_cr l # ls, long))"
proof -
  have "takeWhile (\<lambda>c. c \<noteq> CHR 0x0A) (l @ CHR 0x0A # s) = l"
    using assms(1) by (simp add: takeWhile_append2)
  with assms(2) show ?thesis
    by (simp add: scan_lines.simps [of lim "l @ CHR 0x0A # s"])
qed

lemma scan_history:
  assumes "list_all (\<lambda>op. length (history_line op) \<le> lim) ops"
  shows "scan_lines lim (concat (map history_line ops)) = (map (\<lambda>op. jprint (hop_json op)) ops, False)"
  using assms
proof (induction ops)
  case Nil
  then show ?case by (simp add: scan_lines.simps)
next
  case (Cons op ops)
  then show ?case
    using scan_lines_step [OF hop_line_no_newline [of op]]
    by (simp add: history_line_def drop_cr_hop)
qed

lemma read_loop_history:
  "read_loop n (map (\<lambda>op. jprint (hop_json op)) ops) acc = Inr (acc @ map san_hop ops)"
  using hop_line_end by (induction ops arbitrary: n acc) (auto simp: hop_roundtrip simp del: jprint.simps)

lemma Read_history:
  "list_all (\<lambda>op. length (history_line op) \<le> max_token) ops \<Longrightarrow>
   Read (concat (map history_line ops)) = (map san_hop ops, None)"
  by (simp add: Read_def scan_history read_loop_history)

text \<open>A writer without error has handed everything it was given to the file or still buffers it.\<close>

definition bw_content :: "bufw \<Rightarrow> bytes option" where
  "bw_content w = map_option (\<lambda>b. b @ bwBuf w) (dkFile (bwDisk w))"

lemma bw_direct_content:
  "bwErr (bw_direct w p) = None \<Longrightarrow> dkFile (bwDisk (bw_direct w p)) = map_option (\<lambda>b. b @ p) (dkFile (bwDisk w))
   \<and> bwBuf (bw_direct w p) = bwBuf w"
  by (auto simp: bw_direct_def os_Write_def Let_def split: if_splits)

lemma bw_Flush_content:
  "bwErr (bw_Flush w) = None \<Longrightarrow> dkFile (bwDisk (bw_Flush w)) = bw_content w \<and> bwBuf (bw_Flush w) = []"
  using bw_direct_content [of w "bwBuf w"]
  by (cases "dkFile (bwDisk w)") (auto simp: bw_Flush_def bw_content_def Let_def split: if_splits)

lemma bw_Write_content:
  assumes "bwErr (bw_Write w p) = None"
  shows "bw_content (bw_Write w p) = map_option (\<lambda>b. b @ p) (bw_content w)"
proof -
  let ?a = "bufio_size - length (bwBuf w)"
  let ?w1 = "bw_Flush (w\<lparr>bwBuf := bwBuf w @ take ?a p\<rparr>)"
  consider (fits) "bwErr w = None" "length p \<le> ?a"
    | (direct) "bwErr w = None" "\<not> length p \<le> ?a" "bwBuf w = []"
    | (flush) "bwErr w = None" "\<not> length p \<le> ?a" "bwBuf w \<noteq> []"
    using assms by (force simp: bw_Write_def)
  then show ?thesis
  proof cases
    case fits
    then show ?thesis
      by (cases "dkFile (bwDisk w)") (auto simp: bw_Write_def bw_content_def Let_def)
  next
    case direct
    with assms bw_direct_content [of w p] show ?thesis
      by (cases "dkFile (bwDisk w)") (auto simp: bw_Write_def bw_content_def Let_def)
  next
    case flush
    with assms have "bwErr ?w1 = None"
      by (auto simp: bw_Write_def Let_def split: if_splits)
    with bw_Flush_content have w1: "dkFile (bwDisk ?w1) = map_option (\<lambda>b. b @ take ?a p) (bw_content w)" "bwBuf ?w1 = []"
      by (cases "dkFile (bwDisk w)", auto simp: bw_content_def)+
    show ?thesis
      using assms flush w1 \<open>bwErr ?w1 = None\<close> bw_direct_content [of ?w1 "drop ?a p"]
      by (cases "dkFile (bwDisk w)") (auto simp: bw_Write_def bw_content_def Let_def split: if_splits)
  qed
qed

lemma write_ops_content:
  "bwErr (write_ops w ops) = None \<Longrightarrow>
   dkFile (bwDisk (write_ops w ops)) = map_option (\<lambda>b. b @ concat (map history_line ops)) (bw_content w)"
proof (induction ops arbitrary: w)
  case Nil
  then show ?case
    using bw_Flush_content [of w] by (simp add: option.map_ident)
next
  case (Cons op ops)
  let ?w = "bw_Write w (history_line op)"
  have e: "bwErr ?w = None" and "bwErr (write_ops ?w ops) = None"
    using Cons.prems by (auto simp: Let_def split: if_splits)
  with Cons.IH [of ?w] bw_Write_content [OF e] show ?case
    by (simp add: Let_def option.map_comp comp_def)
qed

lemma WriteFile_content:
  assumes "WriteFile d ops = (None, d')"
  shows "dkFile d' = Some (concat (map history_line ops))"
proof -
  obtain d1 where c: "os_Create d = (None, d1)" and f: "dkFile d1 = Some []"
    using assms by (auto simp: WriteFile_def os_Create_def split: if_splits)
  let ?w = "\<lparr>bwBuf = [], bwErr = None, bwDisk = d1\<rparr>"
  have "bwErr (write_ops ?w ops) = None" "d' = bwDisk (write_ops ?w ops)"
    using assms c by (auto simp: WriteFile_def Let_def)
  with write_ops_content [of ?w ops] f show ?thesis
    by (simp add: bw_content_def)
qed

text \<open>C20: a history written without an error reads back as the same operations (their strings
  made valid UTF-8), as long as no record's line reaches the scanner's 16 MiB.\<close>

theorem WriteFile_ReadFile:
  assumes "WriteFile d ops = (None, d')"
    and "list_all (\<lambda>op. length (history_line op) \<le> max_token) ops"
  shows "ReadFile d' = (map san_hop ops, None)"
  using assms by (simp add: ReadFile_def WriteFile_content Read_history)


section \<open>Witness\<close>

definition small_op :: hop where
  "small_op = zero_hop\<lparr>hClient := 1, hOp := ''put'', hKey := ''k'', hValue := ''v''\<rparr>"

definition small_disk :: disk where
  "small_disk = \<lparr>dkFile = None, dkFree = 1000, dkWritable = True\<rparr>"

theorem WriteFile_ReadFile_witness:
  "\<exists>d'. WriteFile small_disk [small_op] = (None, d') \<and> ReadFile d' = ([small_op], None)"
proof -
  have len: "length (history_line small_op) \<le> 200" and ne: "history_line small_op \<noteq> []" and valid: "san_hop small_op = small_op"
    subgoal by (simp add: history_line_def hop_json_def small_op_def zero_hop_def omit_empty_def omit_nil_def quote_def int_dec_def nat_dec.simps digit_char_def esc_ascii_def)
    subgoal by (simp add: history_line_def)
    subgoal by (simp add: san_hop_def small_op_def zero_hop_def)
    done
  then obtain d' where w: "WriteFile small_disk [small_op] = (None, d')"
    by (simp add: WriteFile_def small_disk_def os_Create_def bw_Write_def bufio_size_def bw_Flush_def bw_direct_def
        os_Write_def Let_def)
  from len have "list_all (\<lambda>op. length (history_line op) \<le> max_token) [small_op]"
    by (simp add: max_token_def)
  from WriteFile_ReadFile [OF w this] w valid show ?thesis by simp
qed

end
