(* ===== verification/Client.thy ===== *)
theory Client
  imports Http History
begin

text \<open>
  \<open>internal/harness/client.go\<close>: the recording client. An operation is sent to one node after
  another until it is answered, fails ambiguously, or its deadline passes; each attempt is
  classified by what the client can know of it. The clock, the random numbers, sleeping and
  the HTTP transport are parameters, on a world they may change. Times are nanoseconds of the
  recorder's monotonic clock, which \<open>time.Now\<close> reads as well.
\<close>

section \<open>Attempts\<close>

text \<open>A transport error is read with \<open>errors.Is\<close> (the system errors in its chain) and
  \<open>errors.As\<close> (the operation of the first \<open>net.OpError\<close> in it).\<close>

datatype errno = ECONNREFUSED | EHOSTUNREACH | ENETUNREACH | OtherErrno nat

record net_error =
  neErrnos :: "errno list"
  neOpError :: "string option"

definition isDefinitelyNotSent :: "net_error \<Rightarrow> bool" where
  "isDefinitelyNotSent err =
     (if ECONNREFUSED \<in> set (neErrnos err) \<or> EHOSTUNREACH \<in> set (neErrnos err) \<or> ENETUNREACH \<in> set (neErrnos err)
      then True
      else (case neOpError err of Some opErr \<Rightarrow> opErr = ''dial'' | None \<Rightarrow> False))"

record http_request =
  hrMethod :: string
  hrURL :: string
  hrNoProxy :: string
  hrBody :: bytes

text \<open>A reply: its status, the bytes of its body, and whether reading the body failed.\<close>

record reply =
  rpCode :: nat
  rpBody :: bytes
  rpErr :: bool

record 'w client_env =
  ceNow :: "'w \<Rightarrow> int64 \<times> 'w"
  ceSleep :: "int64 \<Rightarrow> 'w \<Rightarrow> 'w"
  ceIntn :: "nat \<Rightarrow> 'w \<Rightarrow> nat \<times> 'w"
  ceFloat64 :: "'w \<Rightarrow> rat \<times> 'w"
  ceURLOk :: "string \<Rightarrow> bool"
  ceDo :: "int64 \<Rightarrow> http_request \<Rightarrow> 'w \<Rightarrow> (net_error + reply) \<times> 'w"

datatype client_panic = BadOp string | BadURL string | EmptyIntn

record attemptResult =
  arClass :: string
  arOk :: bool
  arPresent :: bool
  arVal :: string

definition attempt_class :: "string \<Rightarrow> attemptResult" where
  "attempt_class c = \<lparr>arClass = c, arOk = False, arPresent = False, arVal = ''''\<rparr>"

text \<open>The request of an operation (\<open>json.Marshal\<close> sorts the members of a map).\<close>

definition build_request :: "node \<Rightarrow> hop \<Rightarrow> bool \<Rightarrow> client_panic + http_request" where
  "build_request n op noProxy =
     (let base = nURL n @ ''/kv/'' @ hKey op;
          hdr = (if noProxy then ''1'' else '''') in
      if hOp op = ''put'' then
        Inr \<lparr>hrMethod = ''PUT'', hrURL = base, hrNoProxy = hdr, hrBody = jprint (JObj [(''value'', JStr (hValue op))])\<rparr>
      else if hOp op = ''get'' then Inr \<lparr>hrMethod = ''GET'', hrURL = base, hrNoProxy = hdr, hrBody = ''''\<rparr>
      else if hOp op = ''delete'' then Inr \<lparr>hrMethod = ''DELETE'', hrURL = base, hrNoProxy = hdr, hrBody = ''''\<rparr>
      else if hOp op = ''cas'' then
        Inr \<lparr>hrMethod = ''POST'', hrURL = base @ ''/cas'', hrNoProxy = hdr,
          hrBody = jprint (JObj [(''expect'', json_opt (hExpect op)), (''value'', JStr (hValue op))])\<rparr>
      else Inl (BadOp (hOp op)))"

text \<open>What the client makes of a reply, or of its absence.\<close>

definition classify :: "net_error + reply \<Rightarrow> attemptResult" where
  "classify out = (case out of
     Inl err \<Rightarrow> if isDefinitelyNotSent err then attempt_class ''fail'' else attempt_class ''unknown''
   | Inr resp \<Rightarrow>
     (case read_body (rpBody resp) (if rpErr resp then Some '''' else None) of
        Inl rerr \<Rightarrow> attempt_class ''unknown''
      | Inr body \<Rightarrow>
        if rpCode resp = 200 then
          (case unmarshal (dec_struct result_field) body zero_result of
             (res, Some e) \<Rightarrow> attempt_class ''unknown''
           | (res, None) \<Rightarrow> \<lparr>arClass = ''ok'', arOk = rOk res, arPresent = rPresent res, arVal = rValue res\<rparr>)
        else let e = response_error body in
          if e \<in> set [''no_leader'', ''not_leader'', ''bad_request''] then attempt_class ''fail''
          else attempt_class ''unknown''))"

definition doAttempt :: "'w client_env \<Rightarrow> int64 \<Rightarrow> node \<Rightarrow> hop \<Rightarrow> bool \<Rightarrow> 'w \<Rightarrow>
    client_panic + (attemptResult \<times> 'w)" where
  "doAttempt env ctx n op noProxy w =
     (case build_request n op noProxy of
        Inl p \<Rightarrow> Inl p
      | Inr req \<Rightarrow>
          if \<not> ceURLOk env (hrURL req) then Inl (BadURL (hrURL req))
          else let (out, w') = ceDo env ctx req w in Inr (classify out, w'))"

section \<open>The client\<close>

record recorder =
  recOps :: "hop list"

record client =
  clID :: int64
  clNodes :: "node list"
  clSeq :: int64
  clLastSeen :: "(string, string option) fmap"

text \<open>The generator seeded for the client and its HTTP client, with the 4 s it allows a request, are \<open>ceIntn\<close>,
  \<open>ceFloat64\<close> and \<open>ceDo\<close> of the environment; a request is also held to its context.\<close>

definition NewClient :: "int64 \<Rightarrow> node list \<Rightarrow> client" where
  "NewClient cid nodes = \<lparr>clID = cid, clNodes = nodes, clSeq = 0, clLastSeen = fmempty\<rparr>"

definition add_op :: "hop \<Rightarrow> recorder \<Rightarrow> recorder" where
  "add_op op rec = rec\<lparr>recOps := recOps rec @ [op]\<rparr>"

definition noteSeen :: "hop \<Rightarrow> (string, string option) fmap \<Rightarrow> (string, string option) fmap" where
  "noteSeen op seen =
     (if hOp op = ''put'' then fmupd (hKey op) (Some (hValue op)) seen
      else if hOp op = ''cas'' then
        (if hOk op then fmupd (hKey op) (Some (hValue op)) seen
         else if hPresent op then fmupd (hKey op) (Some (hRetVal op)) seen
         else fmupd (hKey op) None seen)
      else if hOp op = ''delete'' then fmupd (hKey op) None seen
      else if hOp op = ''get'' then
        (if hPresent op then fmupd (hKey op) (Some (hRetVal op)) seen else fmupd (hKey op) None seen)
      else seen)"

text \<open>Reading a key the map does not hold gives nil.\<close>

definition last_seen :: "(string, string option) fmap \<Rightarrow> string \<Rightarrow> string option" where
  "last_seen seen k = (case fmlookup seen k of None \<Rightarrow> None | Some p \<Rightarrow> p)"

record invocation =
  ivOp :: hop
  ivSeen :: "(string, string option) fmap"
  ivRec :: recorder

text \<open>One round of the loop of \<open>Invoke\<close>: it returns, goes on with the operation as it is now, or
  panics.\<close>

datatype 'w round = Panic client_panic | Done invocation 'w | Again hop 'w

definition round_end :: "'w client_env \<Rightarrow> client \<Rightarrow> int64 \<Rightarrow> node option \<Rightarrow> attemptResult \<Rightarrow> hop \<Rightarrow> recorder \<Rightarrow> 'w \<Rightarrow>
    'w round" where
  "round_end env c overall pin res op rec w =
     (if arClass res = ''ok'' then
        (let op' = op\<lparr>hOutcome := OutcomeOK, hOk := arOk res, hPresent := arPresent res, hRetVal := arVal res\<rparr> in
         Done \<lparr>ivOp = op', ivSeen = noteSeen op' (clLastSeen c), ivRec = add_op op' rec\<rparr> w)
      else if arClass res = ''unknown'' then
        (let op' = op\<lparr>hOutcome := OutcomeUnknown\<rparr> in
         Done \<lparr>ivOp = op', ivSeen = clLastSeen c, ivRec = add_op op' rec\<rparr> w)
      else if arClass res = ''fail'' then
        (let (t, w') = ceNow env w in
         if sint overall < sint t \<or> pin \<noteq> None then
           (let op' = op\<lparr>hOutcome := OutcomeFailed\<rparr> in
            Done \<lparr>ivOp = op', ivSeen = clLastSeen c, ivRec = add_op op' rec\<rparr> w')
         else Again op (ceSleep env (150 * Millisecond) w'))
      else Again op w)"

definition invoke_round :: "'w client_env \<Rightarrow> client \<Rightarrow> int64 \<Rightarrow> bool \<Rightarrow> node option \<Rightarrow> nat \<Rightarrow> nat \<Rightarrow> hop \<Rightarrow> recorder \<Rightarrow> 'w \<Rightarrow>
    'w round" where
  "invoke_round env c overall noProxy pin start attempt op rec w =
     (let n = (case pin of Some p \<Rightarrow> p | None \<Rightarrow> clNodes c ! ((start + attempt) mod length (clNodes c)));
          (t1, w1) = ceNow env w;
          op1 = op\<lparr>hNode := nID n, hStartNs := t1\<rparr>
      in case doAttempt env (overall + 4 * Second) n op1 noProxy w1 of
        Inl p \<Rightarrow> Panic p
      | Inr (res, w2) \<Rightarrow>
          (let (t2, w3) = ceNow env w2 in round_end env c overall pin res (op1\<lparr>hEndNs := t2\<rparr>) rec w3))"

text \<open>The loop, with fuel for its rounds: \<open>None\<close> when the fuel ran out.\<close>

fun invoke_loop :: "nat \<Rightarrow> 'w client_env \<Rightarrow> client \<Rightarrow> int64 \<Rightarrow> bool \<Rightarrow> node option \<Rightarrow> nat \<Rightarrow> nat \<Rightarrow> hop \<Rightarrow> recorder \<Rightarrow> 'w \<Rightarrow>
    (client_panic + (invocation \<times> 'w)) option" where
  "invoke_loop 0 env c overall noProxy pin start attempt op rec w = None"
| "invoke_loop (Suc fuel) env c overall noProxy pin start attempt op rec w =
     (case invoke_round env c overall noProxy pin start attempt op rec w of
        Panic p \<Rightarrow> Some (Inl p)
      | Done iv w' \<Rightarrow> Some (Inr (iv, w'))
      | Again op' w' \<Rightarrow> invoke_loop fuel env c overall noProxy pin start (attempt + 1) op' rec w')"

definition Invoke :: "nat \<Rightarrow> 'w client_env \<Rightarrow> client \<Rightarrow> hop \<Rightarrow> int64 \<Rightarrow> bool \<Rightarrow> node option \<Rightarrow> recorder \<Rightarrow> 'w \<Rightarrow>
    (client_panic + (invocation \<times> 'w)) option" where
  "Invoke fuel env c op deadline noProxy pin rec w =
     (let (t, w1) = ceNow env w; overall = t + deadline in
      if clNodes c = [] then Some (Inl EmptyIntn)
      else let (start, w2) = ceIntn env (length (clNodes c)) w1 in
        invoke_loop fuel env c overall noProxy pin start 0 op rec w2)"

section \<open>The workload\<close>

text \<open>A \<open>float64\<close> is the rational it stands for; the constants are the program's decimals as
  \<open>float64\<close> rounds them.\<close>

definition f0_35 :: rat where "f0_35 = 3152519739159347 / 9007199254740992"
definition f0_70 :: rat where "f0_70 = 3152519739159347 / 4503599627370496"
definition f0_90 :: rat where "f0_90 = 8106479329266893 / 9007199254740992"
definition f0_20 :: rat where "f0_20 = 3602879701896397 / 18014398509481984"

definition unique_value :: "int64 \<Rightarrow> int64 \<Rightarrow> nat \<Rightarrow> string" where
  "unique_value cid seq r =
     ''c'' @ int_dec (sint cid) @ ''-'' @ int_dec (sint seq) @ ''-'' @ hex06 r"

definition RandomOp :: "'w client_env \<Rightarrow> client \<Rightarrow> string list \<Rightarrow> 'w \<Rightarrow> client_panic + (hop \<times> client \<times> 'w)" where
  "RandomOp env c keys w0 =
     (let c' = c\<lparr>clSeq := clSeq c + 1\<rparr> in
      if keys = [] then Inl EmptyIntn
      else
      let (i, w1) = ceIntn env (length keys) w0; key = keys ! i;
          (n, w2) = ceIntn env (2 ^ 24) w1; val = unique_value (clID c') (clSeq c') n;
          (r, w3) = ceFloat64 env w2;
          op = zero_hop\<lparr>hClient := clID c', hKey := key\<rparr>
      in
      if r < f0_35 then Inr (op\<lparr>hOp := ''put'', hValue := val\<rparr>, c', w3)
      else if r < f0_70 then Inr (op\<lparr>hOp := ''get''\<rparr>, c', w3)
      else if r < f0_90 then
        (let expect = last_seen (clLastSeen c') key; (r2, w4) = ceFloat64 env w3;
             expect = (if r2 < f0_20 then None else expect)
         in Inr (op\<lparr>hOp := ''cas'', hValue := val, hExpect := expect\<rparr>, c', w4))
      else Inr (op\<lparr>hOp := ''delete''\<rparr>, c', w3))"


section \<open>The request a node receives\<close>

definition plain_char :: "char \<Rightarrow> bool" where
  "plain_char c \<longleftrightarrow> (48 \<le> byte c \<and> byte c \<le> 57) \<or> (65 \<le> byte c \<and> byte c \<le> 90) \<or> (97 \<le> byte c \<and> byte c \<le> 122) \<or>
     c = CHR ''-'' \<or> c = CHR ''_''"

definition plain_key :: "string \<Rightarrow> bool" where
  "plain_key k \<longleftrightarrow> k \<noteq> '''' \<and> list_all plain_char k"

text \<open>For a key of letters, digits, \<open>-\<close> and \<open>_\<close> the path of the URL is sent as it is.\<close>

definition wire_request :: "node \<Rightarrow> http_request \<Rightarrow> request" where
  "wire_request n q = \<lparr>rqMethod = hrMethod q, rqEscapedPath = drop (length (nURL n)) (hrURL q),
     rqNoProxy = hrNoProxy q, rqForwarded = '''', rqBody = hrBody q, rqBodyErr = None\<rparr>"

definition wire_command :: "hop \<Rightarrow> command" where
  "wire_command op = \<lparr>cOp = hOp op, cKey = hKey op,
     cValue = (if hOp op \<in> {OpPut, OpCAS} then to_valid (hValue op) else ''''),
     cExpect = (if hOp op = OpCAS then map_option to_valid (hExpect op) else None)\<rparr>"

lemma plain_key_chars:
  assumes "plain_key k"
  shows "CHR ''/'' \<notin> set k" "CHR ''%'' \<notin> set k" "k \<noteq> ''''" "k \<noteq> ''.''" "k \<noteq> ''..''"
  using assms by (auto simp: plain_key_def plain_char_def list_all_iff)

lemma route_plain:
  assumes "ps \<noteq> []" and "\<forall>p \<in> set ps. p \<noteq> '''' \<and> p \<noteq> ''.'' \<and> p \<noteq> ''..'' \<and> CHR ''/'' \<notin> set p \<and> CHR ''%'' \<notin> set p"
    and "rqEscapedPath r = CHR ''/'' # join_with ''/'' (''kv'' # ps)" and "rqMethod r \<noteq> ''CONNECT''"
  shows "mux_route r = RouteKV" and "trim_prefix (URL_Path r) ''/kv/'' = join_with ''/'' ps"
proof -
  have plain: "\<forall>p \<in> set (''kv'' # ps). p \<noteq> '''' \<and> p \<noteq> ''.'' \<and> p \<noteq> ''..'' \<and> CHR ''/'' \<notin> set p"
    using assms(2) by simp
  note clean = clean_url_plain [OF _ plain]
  have "map unescape_or_raw (''kv'' # ps) = ''kv'' # ps" 
    using assms(2) by (auto simp: unescape_plain map_idI)
  then have "match_path (rqEscapedPath r) = RouteKV"
    using assms(1) unfolding match_path_def assms(3) clean(2) [OF list.discI [OF refl]]
    by (simp add: unescape_plain)
  then show "mux_route r = RouteKV"
    using clean(1) assms(3,4) by (simp add: mux_route_def Let_def)
  obtain q qs where qs: "ps = q # qs" using assms(1) by (cases ps) auto
  have "CHR ''%'' \<notin> set (join_with ''/'' (''kv'' # ps))"
    using assms(2) by (intro join_with_notin) auto
  then show "trim_prefix (URL_Path r) ''/kv/'' = join_with ''/'' ps"
    using qs trim_prefix_append [of "''/kv/''" "join_with ''/'' ps"]
    by (simp add: URL_Path_def assms(3) unescape_plain)
qed


lemma no_cas_suffix: "CHR ''/'' \<notin> set k \<Longrightarrow> cut_suffix k ''/cas'' = (k, False)"
  by (auto simp: cut_suffix_False)

lemma put_body_decodes:
  "unmarshal (dec_struct put_field) (jprint (JObj [(''value'', JStr v)])) \<lparr>pbValue = ''''\<rparr> =
     (\<lparr>pbValue = to_valid v\<rparr>, None)"
  by (subst unmarshal_jprint) (simp_all add: max_depth_def put_field_def key_is_def)

lemma cas_body_decodes_all:
  "unmarshal (dec_struct cas_field) (jprint (JObj [(''expect'', json_opt x), (''value'', JStr v)]))
     \<lparr>cbExpect = None, cbValue = ''''\<rparr> = (\<lparr>cbExpect = map_option to_valid x, cbValue = to_valid v\<rparr>, None)"
  by (subst unmarshal_jprint) (simp_all add: max_depth_def cas_field_def key_is_def)

lemma wire_path:
  assumes "build_request n op np = Inr q"
  shows "rqEscapedPath (wire_request n q) =
    CHR ''/'' # join_with ''/'' (''kv'' # hKey op # (if hOp op = OpCAS then [''cas''] else []))"
  using assms by (auto simp: build_request_def wire_request_def op_defs Let_def split: if_splits)

lemma request_understood:
  assumes "plain_key (hKey op)" and "build_request n op np = Inr q" and "length (hrBody q) \<le> max_body"
  shows "request_command jt (wire_request n q) = Some (hrBody q, wire_command op)"
proof -
  let ?r = "wire_request n q" and ?rest = "hKey op # (if hOp op = OpCAS then [''cas''] else [])"
  note key = plain_key_chars [OF assms(1)]
  have meth: "rqMethod ?r \<noteq> ''CONNECT''"
    using assms(2) by (auto simp: build_request_def wire_request_def Let_def split: if_splits)
  have plain: "\<forall>p \<in> set ?rest. p \<noteq> '''' \<and> p \<noteq> ''.'' \<and> p \<noteq> ''..'' \<and> CHR ''/'' \<notin> set p \<and> CHR ''%'' \<notin> set p"
    using key by auto
  have route: "mux_route ?r = RouteKV" and rest: "trim_prefix (URL_Path ?r) ''/kv/'' = join_with ''/'' ?rest"
    using route_plain [OF _ plain wire_path [OF assms(2)] meth] by auto
  have body: "read_body (rqBody ?r) (rqBodyErr ?r) = Inr (hrBody q)"
    using assms(3) by (simp add: wire_request_def read_body_whole)
  have "kv_command jt (rqMethod ?r) (join_with ''/'' ?rest) (hrBody q) = Inr (wire_command op)"
    using assms(2) key(1) cut_suffix_append [of "hKey op" "''/cas''"]
    by (auto simp: build_request_def wire_request_def wire_command_def kv_command_def op_defs Let_def zero_command_def
        no_cas_suffix put_body_decodes cas_body_decodes_all simp del: jprint.simps split: if_splits)
  then show ?thesis
    using key(3) by (auto simp: request_command_def route rest body)
qed

text \<open>C17: the node executes what the client meant: for a key of letters, digits, \<open>-\<close> and \<open>_\<close>, the
  request the client builds for an operation is routed to the key-value handler and proposes
  exactly the command of the operation (its strings made valid UTF-8), as long as its body
  fits the server's limit.\<close>

theorem client_request_understood:
  assumes "plain_key (hKey op)" and "build_request n op np = Inr q" and "length (hrBody q) \<le> max_body"
  shows "request_command jt (wire_request n q) = Some (hrBody q, wire_command op)"
  using assms by (rule request_understood)

section \<open>What the client concludes\<close>

definition reply_of :: "response \<Rightarrow> reply" where
  "reply_of rsp = \<lparr>rpCode = rsCode rsp, rpBody = rsBody rsp, rpErr = False\<rparr>"

lemma unmarshal_result:
  "unmarshal (dec_struct result_field) (jprint (result_json res) @ [CHR 0x0A]) zero_result =
     (res\<lparr>rValue := to_valid (rValue res)\<rparr>, None)"
  by (subst unmarshal_jprint_newline)
    (simp_all add: result_json_def max_depth_def result_field_def key_is_def zero_result_def)

text \<open>the client records the state machine's answer: a complete reply that carries a result is
  classified as answered, with that result (its value made valid UTF-8).\<close>

theorem classify_result:
  assumes "length (jprint (result_json res)) < max_body"
  shows "classify (Inr (reply_of (writeJSON 200 (result_json res)))) =
    \<lparr>arClass = ''ok'', arOk = rOk res, arPresent = rPresent res, arVal = to_valid (rValue res)\<rparr>"
  using assms
  by (simp add: classify_def reply_of_def writeJSON_def read_body_whole unmarshal_result)

lemma classify_cases: "arClass (classify out) \<in> {''ok'', ''unknown'', ''fail''}"
  by (auto simp: classify_def attempt_class_def Let_def split: sum.splits prod.splits option.splits)

lemma classify_fail:
  assumes "arClass (classify out) = ''fail''"
  shows "(\<exists>e. out = Inl e \<and> isDefinitelyNotSent e) \<or>
    (\<exists>rp b. out = Inr rp \<and> read_body (rpBody rp) (if rpErr rp then Some '''' else None) = Inr b \<and>
       rpCode rp \<noteq> 200 \<and> response_error b \<in> set definite_codes)"
  using assms
  by (auto simp: classify_def attempt_class_def definite_codes_def Let_def
      split: sum.splits prod.splits option.splits if_splits)


section \<open>Retrying\<close>

text \<open>The attempt of a round that did not panic: where it started, what came of it.\<close>

definition attempted :: "'w client_env \<Rightarrow> bool \<Rightarrow> hop \<Rightarrow> 'w \<Rightarrow> attemptResult \<Rightarrow> hop \<Rightarrow> 'w \<Rightarrow> bool" where
  "attempted env np op w res op2 w2 \<longleftrightarrow> (\<exists>ctx n.
     doAttempt env ctx n (op\<lparr>hNode := nID n, hStartNs := fst (ceNow env w)\<rparr>) np (snd (ceNow env w)) = Inr (res, w2) \<and>
     op2 = op\<lparr>hNode := nID n, hStartNs := fst (ceNow env w), hEndNs := fst (ceNow env w2)\<rparr>)"

lemma doAttempt_class: "doAttempt env ctx n op np w = Inr (res, w') \<Longrightarrow> arClass res \<in> {''ok'', ''unknown'', ''fail''}"
  using classify_cases by (auto simp: doAttempt_def Let_def case_prod_beta split: sum.splits if_splits)

lemma doAttempt_sent:
  "doAttempt env ctx n op np w = Inr (res, w') \<Longrightarrow> \<exists>q out. ceDo env ctx q w = (out, w') \<and> res = classify out"
  by (auto simp: doAttempt_def Let_def split: sum.splits if_splits prod.splits)

lemma invoke_round_attempted:
  assumes "invoke_round env c overall np pin start attempt op rec w = r" and "\<forall>p. r \<noteq> Panic p"
  shows "\<exists>res op2 w2. attempted env np op w res op2 w2 \<and> arClass res \<in> {''ok'', ''unknown'', ''fail''} \<and>
    r = round_end env c overall pin res op2 rec (snd (ceNow env w2))"
proof -
  define n where "n = (case pin of Some p \<Rightarrow> p | None \<Rightarrow> clNodes c ! ((start + attempt) mod length (clNodes c)))"
  let ?op1 = "op\<lparr>hNode := nID n, hStartNs := fst (ceNow env w)\<rparr>"
  show ?thesis
  proof (cases "doAttempt env (overall + 4 * Second) n ?op1 np (snd (ceNow env w))")
    case (Inl p)
    with assms(1) have "r = Panic p" by (simp add: invoke_round_def n_def case_prod_beta)
    with assms(2) show ?thesis by blast
  next
    case (Inr rw)
    obtain res w2 where rw: "rw = (res, w2)" by (cases rw)
    have "r = round_end env c overall pin res (?op1\<lparr>hEndNs := fst (ceNow env w2)\<rparr>) rec (snd (ceNow env w2))"
      using assms(1) Inr rw by (simp add: invoke_round_def n_def case_prod_beta)
    moreover have "attempted env np op w res (?op1\<lparr>hEndNs := fst (ceNow env w2)\<rparr>) w2"
      using Inr rw unfolding attempted_def by blast
    moreover have "arClass res \<in> {''ok'', ''unknown'', ''fail''}"
      using Inr unfolding rw by (rule doAttempt_class)
    ultimately show ?thesis by blast
  qed
qed

text \<open>The outcome that is recorded for an attempt's class.\<close>

definition outcome_of :: "attemptResult \<Rightarrow> string" where
  "outcome_of res = (if arClass res = ''ok'' then OutcomeOK
     else if arClass res = ''unknown'' then OutcomeUnknown else OutcomeFailed)"

lemma round_end_Done:
  assumes "round_end env c overall pin res op rec w = Done iv w'"
  shows "ivRec iv = add_op (ivOp iv) rec \<and> hOutcome (ivOp iv) = outcome_of res \<and>
    hStartNs (ivOp iv) = hStartNs op \<and> hEndNs (ivOp iv) = hEndNs op \<and>
    (w' = w \<or> w' = snd (ceNow env w))"
  using assms by (auto simp: round_end_def outcome_of_def Let_def case_prod_beta split: if_splits)

lemma round_end_Again:
  assumes "round_end env c overall pin res op rec w = Again op' w'" and "arClass res \<in> {''ok'', ''unknown'', ''fail''}"
  shows "op' = op \<and> arClass res = ''fail'' \<and> sint (fst (ceNow env w)) \<le> sint overall \<and>
    w' = ceSleep env (150 * Millisecond) (snd (ceNow env w))"
  using assms by (auto simp: round_end_def Let_def case_prod_beta split: if_splits)

text \<open>
  What a client may assume of a failed attempt: nothing was accepted. \<open>accepted\<close> reads off a
  world what the store accepted, or may still.
\<close>

locale quiet_failures =
  fixes env :: "'w client_env" and accepted :: "'w \<Rightarrow> 'a"
  assumes now_quiet: "accepted (snd (ceNow env w)) = accepted w"
    and sleep_quiet: "accepted (ceSleep env d w) = accepted w"
    and intn_quiet: "accepted (snd (ceIntn env n w)) = accepted w"
    and failed_quiet: "ceDo env ctx q w = (out, w') \<Longrightarrow> arClass (classify out) = ''fail'' \<Longrightarrow> accepted w' = accepted w"
begin

lemma attempt_quiet:
  assumes "attempted env np op w res op2 w2" and "arClass res = ''fail''"
  shows "accepted w2 = accepted w"
  using assms now_quiet [of w] failed_quiet unfolding attempted_def by (metis doAttempt_sent)

text \<open>Only the last attempt can have had an effect; none had when it failed.\<close>

lemma invoke_loop_effects:
  "invoke_loop fuel env c overall np pin start attempt op rec w = Some (Inr (iv, w')) \<Longrightarrow>
   \<exists>w1 op1 op2 res w2. accepted w1 = accepted w \<and> attempted env np op1 w1 res op2 w2 \<and> accepted w' = accepted w2 \<and>
     hOutcome (ivOp iv) = outcome_of res \<and> (arClass res = ''fail'' \<longrightarrow> accepted w2 = accepted w) \<and>
     ivRec iv = add_op (ivOp iv) rec"
proof (induction fuel arbitrary: attempt op w)
  case (Suc fuel)
  let ?r = "invoke_round env c overall np pin start attempt op rec w"
  show ?case
  proof (cases ?r)
    case (Done iv' w'')
    with Suc.prems have eq: "iv' = iv" "w'' = w'" by auto
    from invoke_round_attempted [OF refl, of env c overall np pin start attempt op rec w] Done eq
    obtain res op2 w2 where at: "attempted env np op w res op2 w2"
      and e: "round_end env c overall pin res op2 rec (snd (ceNow env w2)) = Done iv w'" by auto
    from round_end_Done [OF e] have "ivRec iv = add_op (ivOp iv) rec" "hOutcome (ivOp iv) = outcome_of res"
      "accepted w' = accepted w2" by (auto simp: now_quiet)
    with at attempt_quiet [OF at] show ?thesis by blast
  next
    case (Again op' w'')
    from invoke_round_attempted [OF refl, of env c overall np pin start attempt op rec w] Again
    obtain res op2 w2 where at: "attempted env np op w res op2 w2" and cl: "arClass res \<in> {''ok'', ''unknown'', ''fail''}"
      and e: "round_end env c overall pin res op2 rec (snd (ceNow env w2)) = Again op' w''" by auto
    from round_end_Again [OF e cl] attempt_quiet [OF at] have quiet: "accepted w'' = accepted w"
      by (simp add: now_quiet sleep_quiet)
    from Again Suc.prems have "invoke_loop fuel env c overall np pin start (attempt + 1) op' rec w'' = Some (Inr (iv, w'))"
      by simp
    from Suc.IH [OF this] show ?thesis unfolding quiet .
  qed (use Suc.prems in simp)
qed simp

lemma invoke_effects:
  assumes "Invoke fuel env c op deadline np pin rec w = Some (Inr (iv, w'))"
  shows "\<exists>w1 op1 op2 res w2. accepted w1 = accepted w \<and> attempted env np op1 w1 res op2 w2 \<and> accepted w' = accepted w2 \<and>
     hOutcome (ivOp iv) = outcome_of res \<and> (arClass res = ''fail'' \<longrightarrow> accepted w2 = accepted w) \<and>
     ivRec iv = add_op (ivOp iv) rec"
proof -
  let ?w1 = "snd (ceNow env w)" and ?w2 = "snd (ceIntn env (length (clNodes c)) (snd (ceNow env w)))"
  have q: "accepted ?w2 = accepted w" by (simp add: now_quiet intn_quiet)
  from assms have "invoke_loop fuel env c (fst (ceNow env w) + deadline) np pin
      (fst (ceIntn env (length (clNodes c)) ?w1)) 0 op rec ?w2 = Some (Inr (iv, w'))"
    by (simp add: Invoke_def Let_def case_prod_beta split: if_splits)
  from invoke_loop_effects [OF this] show ?thesis unfolding q .
qed

end


text \<open>What the network says for itself, apart from what the client concludes: a connection that was refused, that
  has no route, or that was not made has carried nothing. The client counts no other error as unsent.\<close>

definition never_sent :: "net_error \<Rightarrow> bool" where
  "never_sent e \<longleftrightarrow> neOpError e = Some ''dial'' \<or> {ECONNREFUSED, EHOSTUNREACH, ENETUNREACH} \<inter> set (neErrnos e) \<noteq> {}"

lemma not_sent_iff: "isDefinitelyNotSent e \<longleftrightarrow> never_sent e"
  by (auto simp: isDefinitelyNotSent_def never_sent_def split: option.splits)

text \<open>
  A client of the servers: what reaches it is what some node answered to a request it sent,
  complete and of a length it reads, or it sees a failure; a connection that was refused or
  never dialled had no effect. \<open>net\<close> is the cluster's part of the world.
\<close>

locale wired_client = raft_contract api accepted
  for api :: "('v, 'r, 'f) raft_api" and accepted :: "'v \<Rightarrow> bytes list" +
  fixes env :: "'w client_env" and net :: "'w \<Rightarrow> 'v" and henv :: "('v, 'u) http_env"
  assumes forward_answers: "rqForwarded r \<noteq> '''' \<Longrightarrow> heForward henv u r v = (Inr rsp, v') \<Longrightarrow>
      \<exists>n' (env' :: ('v, 'u) http_env). Handler api env' n' r v = (rsp, v')"
    and answered: "ceDo env ctx q w = (Inr rp, w') \<Longrightarrow> \<exists>n r rsp. Handler api henv n r (net w) = (rsp, net w') \<and>
      (rpErr rp \<and> length (rpBody rp) < max_body \<or>
       rp = reply_of rsp \<and> length (rsBody rsp) \<le> max_body)"
    and not_sent: "ceDo env ctx q w = (Inl e, w') \<Longrightarrow> never_sent e \<Longrightarrow> accepted (net w') = accepted (net w)"
    and local_now: "net (snd (ceNow env w)) = net w"
    and local_sleep: "net (ceSleep env d w) = net w"
    and local_intn: "net (snd (ceIntn env k w)) = net w"
begin

lemma failed_reply_quiet:
  assumes "ceDo env ctx q w = (out, w')" and "arClass (classify out) = ''fail''"
  shows "accepted (net w') = accepted (net w)"
proof (cases out)
  case (Inl e)
  with assms not_sent show ?thesis
    by (auto simp: classify_def attempt_class_def not_sent_iff split: if_splits)
next
  case (Inr rp)
  from answered [OF assms(1) [unfolded Inr]] obtain n r rsp where
    h: "Handler api henv n r (net w) = (rsp, net w')" and
    full: "rpErr rp \<and> length (rpBody rp) < max_body \<or> rp = reply_of rsp \<and> length (rsBody rsp) \<le> max_body" by blast
  from classify_fail [OF assms(2)] Inr obtain b where
    b: "read_body (rpBody rp) (if rpErr rp then Some '''' else None) = Inr b" "rpCode rp \<noteq> 200"
      "response_error b \<in> set definite_codes" by auto
  with full have "rp = reply_of rsp" and "length (rsBody rsp) \<le> max_body"
    by (auto simp: read_body_def)
  with b have "definite rsp"
    by (simp add: definite_def reply_of_def read_body_whole)
  with definite_no_effect [OF forward_answers h] show ?thesis by simp
qed

end

sublocale wired_client \<subseteq> quiet_failures env "\<lambda>w. accepted (net w)"
  by unfold_locales (auto simp: local_now local_sleep local_intn dest: failed_reply_quiet)

section \<open>The clock\<close>

text \<open>A monotonic clock: \<open>time\<close> is the world's time in nanoseconds, reading it gives it (up to the
  last value of an \<open>int64\<close>), nothing sets it back, and sleeping advances it.\<close>

locale monotonic_clock =
  fixes env :: "'w client_env" and time :: "'w \<Rightarrow> int"
  assumes now_reads: "sint (fst (ceNow env w)) = min (time w) max_int64"
    and now_monotonic: "time w \<le> time (snd (ceNow env w))"
    and do_monotonic: "ceDo env ctx q w = (out, w') \<Longrightarrow> time w \<le> time w'"
    and intn_monotonic: "time w \<le> time (snd (ceIntn env k w))"
    and sleep_advances: "time w + sint d \<le> time (ceSleep env d w)"
begin

lemma attempted_time:
  assumes "attempted env np op w res op2 w2"
  shows "time w \<le> time w2 \<and> sint (hStartNs op2) \<le> sint (hEndNs op2) \<and> sint (hStartNs op2) = min (time w) max_int64"
proof -
  from assms obtain ctx n where at: "doAttempt env ctx n (op\<lparr>hNode := nID n, hStartNs := fst (ceNow env w)\<rparr>) np (snd (ceNow env w)) = Inr (res, w2)"
    and op2: "op2 = op\<lparr>hNode := nID n, hStartNs := fst (ceNow env w), hEndNs := fst (ceNow env w2)\<rparr>"
    unfolding attempted_def by blast
  have "time w \<le> time w2"
    using doAttempt_sent [OF at] now_monotonic [of w] do_monotonic by fastforce
  then show ?thesis by (simp add: op2 now_reads)
qed

lemma invoke_loop_window:
  "invoke_loop fuel env c overall np pin start attempt op rec w = Some (Inr (iv, w')) \<Longrightarrow>
   sint (hStartNs (ivOp iv)) \<le> sint (hEndNs (ivOp iv)) \<and> min (time w) max_int64 \<le> sint (hStartNs (ivOp iv))"
proof (induction fuel arbitrary: attempt op w)
  case (Suc fuel)
  show ?case
  proof (cases "invoke_round env c overall np pin start attempt op rec w")
    case (Done iv' w'')
    with Suc.prems have eq: "iv' = iv" "w'' = w'" by auto
    from invoke_round_attempted [OF refl, of env c overall np pin start attempt op rec w] Done eq
    obtain res op2 w2 where at: "attempted env np op w res op2 w2"
      and e: "round_end env c overall pin res op2 rec (snd (ceNow env w2)) = Done iv w'" by auto
    from round_end_Done [OF e] attempted_time [OF at] show ?thesis by simp
  next
    case (Again op' w'')
    from invoke_round_attempted [OF refl, of env c overall np pin start attempt op rec w] Again
    obtain res op2 w2 where at: "attempted env np op w res op2 w2" and cl: "arClass res \<in> {''ok'', ''unknown'', ''fail''}"
      and e: "round_end env c overall pin res op2 rec (snd (ceNow env w2)) = Again op' w''" by auto
    have "time w \<le> time w''"
      using round_end_Again [OF e cl] attempted_time [OF at] now_monotonic [of w2] now_monotonic [of "snd (ceNow env w2)"]
        sleep_advances [of "snd (ceNow env (snd (ceNow env w2)))" "150 * Millisecond"]
      by (simp add: Millisecond_def)
    moreover from Again Suc.prems have "invoke_loop fuel env c overall np pin start (attempt + 1) op' rec w'' = Some (Inr (iv, w'))"
      by simp
    ultimately show ?thesis using Suc.IH [of "attempt + 1" op' w''] by force
  qed (use Suc.prems in simp)
qed simp

lemma invoke_loop_returns:
  "sint overall < time w + 150000000 * int fuel \<Longrightarrow> sint overall < max_int64 \<Longrightarrow>
   invoke_loop (Suc fuel) env c overall np pin start attempt op rec w \<noteq> None"
proof (induction fuel arbitrary: attempt op w)
  case fuel: 0
  show ?case
  proof (cases "invoke_round env c overall np pin start attempt op rec w")
    case (Again op' w'')
    from invoke_round_attempted [OF refl, of env c overall np pin start attempt op rec w] Again
    obtain res op2 w2 where at: "attempted env np op w res op2 w2" and cl: "arClass res \<in> {''ok'', ''unknown'', ''fail''}"
      and e: "round_end env c overall pin res op2 rec (snd (ceNow env w2)) = Again op' w''" by auto
    have False
      using round_end_Again [OF e cl] attempted_time [OF at] now_monotonic [of w2] fuel
      by (auto simp: now_reads min_def split: if_splits)
    then show ?thesis ..
  qed auto
next
  case (Suc fuel)
  show ?case
  proof (cases "invoke_round env c overall np pin start attempt op rec w")
    case (Again op' w'')
    from invoke_round_attempted [OF refl, of env c overall np pin start attempt op rec w] Again
    obtain res op2 w2 where at: "attempted env np op w res op2 w2" and cl: "arClass res \<in> {''ok'', ''unknown'', ''fail''}"
      and e: "round_end env c overall pin res op2 rec (snd (ceNow env w2)) = Again op' w''" by auto
    have "time w + 150000000 \<le> time w''"
      using round_end_Again [OF e cl] attempted_time [OF at] now_monotonic [of w2] now_monotonic [of "snd (ceNow env w2)"]
        sleep_advances [of "snd (ceNow env (snd (ceNow env w2)))" "150 * Millisecond"]
      by (simp add: Millisecond_def)
    with Suc.prems have "sint overall < time w'' + 150000000 * int fuel" by simp
    from Suc.IH [OF this Suc.prems(2), of "attempt + 1" op'] Again show ?thesis
      unfolding invoke_loop.simps(2) [of "Suc fuel"] by simp
  qed auto
qed

lemma invoke_returns:
  assumes "0 \<le> time w" and "0 \<le> sint deadline"
    and "time (snd (ceNow env w)) + sint deadline < max_int64"
    and "nat (sint deadline div 150000000) + 2 \<le> fuel"
  shows "\<exists>r. Invoke fuel env c op deadline np pin rec w = Some r"
proof -
  note clk = now_reads now_monotonic intn_monotonic
  let ?w1 = "snd (ceNow env w)" and ?t = "fst (ceNow env w)"
  let ?w2 = "snd (ceIntn env (length (clNodes c)) ?w1)"
  have t: "sint ?t = time w" using clk(1,2) [of w] assms(2,3) by simp
  have over: "sint (?t + deadline) = time w + sint deadline"
    using t assms(1-3) clk(2) [of w] by (subst sint64_add) auto
  obtain k where k: "fuel = Suc k" and kb: "sint deadline div 150000000 < int k"
    using assms(2,4) by (cases fuel) auto
  have "sint deadline < 150000000 * int k"
    using kb mult_div_mod_eq [of 150000000 "sint deadline"] pos_mod_bound [of 150000000 "sint deadline"] by linarith
  then have "sint (?t + deadline) < time ?w2 + 150000000 * int k"
    using over clk(2) [of w] clk(3) [of ?w1 "length (clNodes c)"] by simp
  moreover have "sint (?t + deadline) < max_int64"
    using over assms(3) clk(2) [of w] by simp
  ultimately have "invoke_loop (Suc k) env c (?t + deadline) np pin (fst (ceIntn env (length (clNodes c)) ?w1)) 0 op rec ?w2 \<noteq> None"
    by (rule invoke_loop_returns)
  then show ?thesis
    unfolding Invoke_def Let_def case_prod_beta k by (cases "clNodes c = []") auto
qed

end


text \<open>The client's world when the cluster works: the ideal cluster and a clock that ticks with
  each request.\<close>

definition ideal_host :: "string \<Rightarrow> string" where
  "ideal_host u = (case find (\<lambda>n. has_prefix u (nURL n)) default_nodes of None \<Rightarrow> ''node1'' | Some n \<Rightarrow> nID n)"

definition ideal_client :: "(ideal \<times> nat) client_env" where
  "ideal_client = \<lparr>ceNow = (\<lambda>w. (word_of_int (min (int (snd w)) max_int64), w)),
     ceSleep = (\<lambda>d w. (fst w, snd w + nat (sint d))), ceIntn = (\<lambda>n w. (0, w)), ceFloat64 = (\<lambda>w. (0, w)),
     ceURLOk = (\<lambda>_. True),
     ceDo = (\<lambda>ctx q w.
       let (rsp, v) = Handler ideal_api (ideal_env compose_peers) (ideal_node compose_peers (ideal_host (hrURL q)))
         (wire_request (hd default_nodes) q) (fst w)
       in (if length (rsBody rsp) \<le> max_body then Inr (reply_of rsp) else Inl \<lparr>neErrnos = [], neOpError = None\<rparr>,
           (v, snd w + 1)))\<rparr>"

lemma ideal_wired: "wired_client ideal_api idLog ideal_client fst (ideal_env compose_peers)"
proof
  show "\<exists>n r rsp. Handler ideal_api (ideal_env compose_peers) n r (fst w) = (rsp, fst w') \<and>
      (rpErr rp \<and> length (rpBody rp) < max_body \<or> rp = reply_of rsp \<and> length (rsBody rsp) \<le> max_body)"
    if "ceDo ideal_client ctx q w = (Inr rp, w')" for ctx q w rp w'
    using that by (auto simp: ideal_client_def Let_def case_prod_beta split: if_splits) (metis prod.collapse)
  show "idLog (fst w') = idLog (fst w)" if "ceDo ideal_client ctx q w = (Inl e, w')" "never_sent e" for ctx q w e w'
    using that by (auto simp: ideal_client_def Let_def case_prod_beta never_sent_def split: if_splits)
qed (auto simp: ideal_client_def dest: ideal_delivers)

interpretation wired: wired_client ideal_api idLog ideal_client fst "ideal_env compose_peers"
  by (rule ideal_wired)

lemma ideal_clock: "monotonic_clock ideal_client (\<lambda>w. int (snd w))"
proof
  show "sint (fst (ceNow ideal_client w)) = min (int (snd w)) max_int64" for w
    by (simp add: ideal_client_def sint64_of_int)
qed (auto simp: ideal_client_def Let_def case_prod_beta)

interpretation clock: monotonic_clock ideal_client "\<lambda>w. int (snd w)"
  by (rule ideal_clock)

lemma wired_client_is_quiet:
  fixes henv :: "('v, 'u) http_env"
  assumes "wired_client api accepted env net henv"
  shows "quiet_failures env (\<lambda>w. accepted (net w))"
  by (rule quiet_failures.intro)
    (simp_all add: wired_client.local_now [OF assms] wired_client.local_sleep [OF assms]
      wired_client.local_intn [OF assms] wired_client.failed_reply_quiet [OF assms])

section \<open>Properties of an operation\<close>

text \<open>C4: an operation that is recorded as failed had no effect, and retrying never applies an
  operation twice: between its start and its last attempt the store accepted nothing, and
  when the record says failed, nothing at all. One record is added.\<close>

theorem Invoke_applies_once:
  fixes henv :: "('v, 'u) http_env"
  assumes "wired_client api accepted env net henv"
    and "Invoke fuel env c op deadline np pin rec w = Some (Inr (iv, w'))"
  shows "(hOutcome (ivOp iv) = OutcomeFailed \<longrightarrow> accepted (net w') = accepted (net w)) \<and>
    (\<exists>w1 op1 op2 res w2. accepted (net w1) = accepted (net w) \<and> attempted env np op1 w1 res op2 w2 \<and>
       accepted (net w') = accepted (net w2) \<and> hOutcome (ivOp iv) = outcome_of res) \<and>
    recOps (ivRec iv) = recOps rec @ [ivOp iv]"
proof -
  have "quiet_failures env (\<lambda>w. accepted (net w))"
    using assms(1) by (rule wired_client_is_quiet)
  from quiet_failures.invoke_effects [OF this assms(2)] obtain w1 op1 op2 res w2 where
    at: "accepted (net w1) = accepted (net w)" "attempted env np op1 w1 res op2 w2" "accepted (net w') = accepted (net w2)"
    "hOutcome (ivOp iv) = outcome_of res" "arClass res = ''fail'' \<longrightarrow> accepted (net w2) = accepted (net w)"
    "ivRec iv = add_op (ivOp iv) rec" by blast
  moreover have "arClass res = ''fail''" if "outcome_of res = OutcomeFailed"
    using that at(2) doAttempt_class by (fastforce simp: outcome_of_def attempted_def split: if_splits)
  ultimately show ?thesis by (metis add_op_def recorder.select_convs(1) recorder.update_convs(1) recorder.surjective)
qed


text \<open>C18: every operation ends: with a monotonic clock, after at most one round per 150 milliseconds
  of its deadline and two more, whatever the servers do.\<close>

theorem Invoke_returns:
  assumes "monotonic_clock env time" and "0 \<le> time w" and "0 \<le> sint deadline"
    and "time (snd (ceNow env w)) + sint deadline < max_int64"
    and "nat (sint deadline div 150000000) + 2 \<le> fuel"
  shows "\<exists>r. Invoke fuel env c op deadline np pin rec w = Some r"
  using monotonic_clock.invoke_returns [OF assms] by blast

text \<open>the recorded window is an interval within the invocation: it does not begin before the
  operation was invoked, nor end before it begins.\<close>

theorem Invoke_window:
  assumes "monotonic_clock env time" and "Invoke fuel env c op deadline np pin rec w = Some (Inr (iv, w'))"
  shows "sint (hStartNs (ivOp iv)) \<le> sint (hEndNs (ivOp iv)) \<and> min (time w) max_int64 \<le> sint (hStartNs (ivOp iv))"
proof -
  let ?w1 = "snd (ceNow env w)"
  let ?w2 = "snd (ceIntn env (length (clNodes c)) ?w1)"
  have "invoke_loop fuel env c (fst (ceNow env w) + deadline) np pin
      (fst (ceIntn env (length (clNodes c)) ?w1)) 0 op rec ?w2 = Some (Inr (iv, w'))"
    using assms(2) by (simp add: Invoke_def Let_def case_prod_beta split: if_splits)
  from monotonic_clock.invoke_loop_window [OF assms(1) this]
    monotonic_clock.now_monotonic [OF assms(1), of w] monotonic_clock.intn_monotonic [OF assms(1), of ?w1 "length (clNodes c)"]
  show ?thesis by auto
qed

text \<open>what a client remembers of a key after an answered operation is what the store holds there:
  when the answer is the state machine's result, the remembered value is the value after the
  command.\<close>

theorem noteSeen_tracks:
  assumes "hOp op \<in> {OpPut, OpGet, OpDelete, OpCAS}"
    and "spec_result \<lparr>cOp = hOp op, cKey = hKey op, cValue = hValue op, cExpect = hExpect op\<rparr> m =
      \<lparr>rOk = hOk op, rPresent = hPresent op, rValue = hRetVal op\<rparr>"
  shows "last_seen (noteSeen op seen) (hKey op) =
      spec_update \<lparr>cOp = hOp op, cKey = hKey op, cValue = hValue op, cExpect = hExpect op\<rparr> m (hKey op) \<and>
    (\<forall>k. k \<noteq> hKey op \<longrightarrow> last_seen (noteSeen op seen) k = last_seen seen k)"
  using assms
  by (auto simp: noteSeen_def last_seen_def spec_result_def spec_update_def op_defs Let_def cas_matches_def
      split: if_splits option.splits)

lemma int_dec_digits: "0 \<le> i \<Longrightarrow> list_all is_digit (int_dec i)"
  by (simp add: int_dec_def nat_dec_digits)

lemma split_digits:
  assumes "list_all is_digit a" and "list_all is_digit b" and "a @ CHR ''-'' # r = b @ CHR ''-'' # s"
  shows "a = b \<and> r = s"
proof -
  have tw: "takeWhile (\<lambda>c. c \<noteq> CHR ''-'') (x @ CHR ''-'' # t) = x" if "list_all is_digit x" for x t
  proof -
    have "\<forall>c \<in> set x. c \<noteq> CHR ''-''" using that not_digit_minus by (auto simp: list_all_iff)
    then show ?thesis by (simp add: takeWhile_append2)
  qed
  have "a = b" using tw [OF assms(1), of r] tw [OF assms(2), of s] assms(3) by simp
  with assms(3) show ?thesis by simp
qed

text \<open>the values of the workload identify their writes: two values the clients write are equal
  only if they come from the same client and the same operation of it.\<close>

theorem unique_values:
  assumes "unique_value cid seq r = unique_value cid' seq' r'"
    and "0 \<le> sint cid" and "0 \<le> sint cid'" and "0 \<le> sint seq" and "0 \<le> sint seq'"
  shows "cid = cid' \<and> seq = seq'"
proof -
  have inj: "i = j" if "int_dec (sint i) = int_dec (sint j)" for i j :: int64
    using that by (metis parse_int_dec option.inject)
  have "int_dec (sint cid) @ CHR ''-'' # int_dec (sint seq) @ CHR ''-'' # hex06 r =
      int_dec (sint cid') @ CHR ''-'' # int_dec (sint seq') @ CHR ''-'' # hex06 r'"
    using assms(1) by (simp add: unique_value_def)
  from split_digits [OF int_dec_digits int_dec_digits this] assms(2,3)
  have 1: "int_dec (sint cid) = int_dec (sint cid')"
    and rest: "int_dec (sint seq) @ CHR ''-'' # hex06 r = int_dec (sint seq') @ CHR ''-'' # hex06 r'" by auto
  from split_digits [OF int_dec_digits int_dec_digits rest] assms(4,5)
  have "int_dec (sint seq) = int_dec (sint seq')" by auto
  with 1 show ?thesis by (simp add: inj)
qed


section \<open>Witnesses\<close>

definition get_of_k :: hop where
  "get_of_k = zero_hop\<lparr>hClient := 1, hOp := ''get'', hKey := ''k''\<rparr>"

definition some_client :: client where
  "some_client = \<lparr>clID = 1, clNodes = default_nodes, clSeq = 0, clLastSeen = fmempty\<rparr>"

theorem client_request_understood_witness:
  "request_command (\<lambda>_ _. '''') (wire_request (hd default_nodes)
     \<lparr>hrMethod = ''GET'', hrURL = ''http://localhost:8081/kv/k'', hrNoProxy = '''', hrBody = ''''\<rparr>) =
   Some ('''', \<lparr>cOp = ''get'', cKey = ''k'', cValue = '''', cExpect = None\<rparr>)"
proof -
  have "plain_key (hKey get_of_k)" by code_simp
  moreover have "build_request (hd default_nodes) get_of_k False = Inr
      \<lparr>hrMethod = ''GET'', hrURL = ''http://localhost:8081/kv/k'', hrNoProxy = '''', hrBody = ''''\<rparr>"
    by code_simp
  ultimately show ?thesis
    using client_request_understood [of get_of_k "hd default_nodes" False _ "\<lambda>_ _. ''''"]
    by (simp add: wire_command_def get_of_k_def zero_hop_def op_defs)
qed

theorem classify_result_witness:
  "arClass (classify (Inr (reply_of (writeJSON 200 (result_json zero_result))))) = ''ok''"
proof -
  have "length (jprint (result_json zero_result)) \<le> 100" by code_simp
  then have "length (jprint (result_json zero_result)) < max_body" by (simp add: max_body_def)
  from classify_result [OF this] show ?thesis by simp
qed

text \<open>A client that no node lets connect.\<close>

definition refused_client :: "(ideal \<times> nat) client_env" where
  "refused_client = ideal_client\<lparr>ceDo := (\<lambda>_ _ w. (Inl \<lparr>neErrnos = [ECONNREFUSED], neOpError = Some ''dial''\<rparr>, w))\<rparr>"

lemma refused_wired: "wired_client ideal_api idLog refused_client fst (ideal_env compose_peers)"
  by unfold_locales (auto simp: refused_client_def ideal_client_def dest: ideal_delivers)

lemma refused_clock: "monotonic_clock refused_client (\<lambda>w. int (snd w))"
  by unfold_locales (auto simp: refused_client_def ideal_client_def sint64_of_int)

lemma refused_invoke:
  "Invoke 2 refused_client some_client get_of_k 0 True (Some (hd default_nodes)) \<lparr>recOps = []\<rparr> (led_by '''', 0) =
     (let op = get_of_k\<lparr>hNode := ''node1'', hOutcome := ''failed''\<rparr> in
      Some (Inr (\<lparr>ivOp = op, ivSeen = fmempty, ivRec = \<lparr>recOps = [op]\<rparr>\<rparr>, (led_by '''', 0))))"
proof -
  have at: "doAttempt refused_client ctx n op np w = Inr (attempt_class ''fail'', w)" if "hOp op = ''get''" for ctx n op np w
    using that by (simp add: doAttempt_def build_request_def Let_def refused_client_def ideal_client_def classify_def
        isDefinitelyNotSent_def)
  have now: "ceNow refused_client (v, 0) = (0, (v, 0))" "ceIntn refused_client k w = (0, w)" for v k w
    by (simp_all add: refused_client_def ideal_client_def)
  have op: "hOp (get_of_k\<lparr>hNode := x, hStartNs := 0\<rparr>) = ''get''" for x
    by (simp add: get_of_k_def)
  have id1: "nID (hd default_nodes) = ''node1''"
    by (simp add: default_nodes_def)
  have upd: "get_of_k\<lparr>hNode := ''node1'', hStartNs := 0, hEndNs := 0\<rparr> = get_of_k\<lparr>hNode := ''node1''\<rparr>"
    by (simp add: get_of_k_def zero_hop_def)
  have round: "invoke_round refused_client some_client 0 True (Some (hd default_nodes)) 0 0 get_of_k \<lparr>recOps = []\<rparr> (led_by '''', 0) =
      (let op = get_of_k\<lparr>hNode := ''node1'', hOutcome := ''failed''\<rparr> in
       Done \<lparr>ivOp = op, ivSeen = fmempty, ivRec = \<lparr>recOps = [op]\<rparr>\<rparr> (led_by '''', 0))"
    unfolding invoke_round_def Let_def case_prod_beta option.case now prod.sel id1 at [OF op] sum.case upd
    by (simp add: round_end_def attempt_class_def now add_op_def outcome_defs Let_def some_client_def)
  have "clNodes some_client \<noteq> []"
    by (simp add: some_client_def default_nodes_def)
  then show ?thesis
    using round by (simp add: Invoke_def now numeral_2_eq_2 Let_def)
qed

theorem Invoke_applies_once_witness:
  "\<exists>iv w'. Invoke 2 refused_client some_client get_of_k 0 True (Some (hd default_nodes)) \<lparr>recOps = []\<rparr> (led_by '''', 0) =
     Some (Inr (iv, w')) \<and> hOutcome (ivOp iv) = OutcomeFailed \<and> idLog (fst w') = idLog (led_by '''')"
  using Invoke_applies_once [OF refused_wired refused_invoke [unfolded Let_def]] refused_invoke
  by (simp add: Let_def outcome_defs)

theorem Invoke_returns_witness:
  "\<exists>r. Invoke 102 ideal_client some_client get_of_k 15000000000 False None \<lparr>recOps = []\<rparr> (led_by ''node2'', 7) = Some r"
  by (rule Invoke_returns [OF ideal_clock]) (simp_all add: ideal_client_def)

theorem Invoke_window_witness:
  "\<exists>iv w'. Invoke 2 refused_client some_client get_of_k 0 True (Some (hd default_nodes)) \<lparr>recOps = []\<rparr> (led_by '''', 0) =
     Some (Inr (iv, w')) \<and> sint (hStartNs (ivOp iv)) \<le> sint (hEndNs (ivOp iv))"
  using Invoke_window [OF refused_clock refused_invoke [unfolded Let_def]] refused_invoke
  by (simp add: Let_def)

theorem noteSeen_tracks_witness:
  "last_seen (noteSeen (get_of_k\<lparr>hOk := True, hPresent := True, hRetVal := ''v''\<rparr>) fmempty) ''k'' = Some ''v''"
  using noteSeen_tracks [of "get_of_k\<lparr>hOk := True, hPresent := True, hRetVal := ''v''\<rparr>" "[''k'' \<mapsto> ''v'']" fmempty]
  by (simp add: get_of_k_def zero_hop_def spec_result_def spec_update_def op_defs)

theorem unique_values_witness:
  "(1 :: int64) = 1 \<and> (2 :: int64) = 2 \<and> unique_value 1 2 255 = ''c1-2-0000ff''"
  using unique_values [of 1 2 255 1 2 255] by code_simp

end
