(* ===== verification/Faults.thy ===== *)
theory Faults
  imports Client
begin

text \<open>
  \<open>internal/harness/faults.go\<close>: the fault injector. It runs docker and iptables commands and
  keeps a log of what it did. Running a command, the wall clock and the HTTP client are
  parameters. What the commands do to the containers is docker's: the locale
  \<open>docker_contract\<close> states what is documented of the commands the injector uses, and what
  isolating and healing achieve is proved from it; \<open>host\<close> is a host that keeps the contract.
\<close>

section \<open>The injector\<close>

record 't fault_event =
  feAt :: 't
  feAction :: string
  feTarget :: string
  feDetail :: string

record 't faults =
  fNodes :: "node list"
  fEvents :: "'t fault_event list"

text \<open>A command is its name and arguments; running it gives its combined output and an error.\<close>

record ('w, 't, 'e) fault_env =
  fvExec :: "string list \<Rightarrow> 'w \<Rightarrow> (string \<times> 'e option) \<times> 'w"
  fvNow :: "'w \<Rightarrow> 't"
  fvGet :: "string \<Rightarrow> 'w \<Rightarrow> bytes option \<times> 'w"

definition record_event :: "('w, 't, 'e) fault_env \<Rightarrow> string \<Rightarrow> string \<Rightarrow> string \<Rightarrow> 't faults \<Rightarrow> 'w \<Rightarrow> 't faults" where
  "record_event env action target detail f w =
     f\<lparr>fEvents := fEvents f @ [\<lparr>feAt = fvNow env w, feAction = action, feTarget = target, feDetail = detail\<rparr>]\<rparr>"

definition run_cmd :: "('w, 't, 'e) fault_env \<Rightarrow> string list \<Rightarrow> 'w \<Rightarrow> (string \<times> 'e option) \<times> 'w" where
  "run_cmd env cmd w = (let ((out, err), w') = fvExec env cmd w in ((trim_space out, err), w'))"

definition kill_cmd :: "node \<Rightarrow> string list" where
  "kill_cmd n = [''docker'', ''kill'', ''-s'', ''KILL'', nContainer n]"

definition start_cmd :: "node \<Rightarrow> string list" where
  "start_cmd n = [''docker'', ''start'', nContainer n]"

definition Kill :: "('w, 't, 'e) fault_env \<Rightarrow> node \<Rightarrow> 't faults \<Rightarrow> 'w \<Rightarrow> 'e option \<times> 't faults \<times> 'w" where
  "Kill env n f w = (let ((out, err), w') = run_cmd env (kill_cmd n) w in
     (err, record_event env ''kill'' (nID n) out f w', w'))"

definition Start :: "('w, 't, 'e) fault_env \<Rightarrow> node \<Rightarrow> 't faults \<Rightarrow> 'w \<Rightarrow> 'e option \<times> 't faults \<times> 'w" where
  "Start env n f w = (let ((out, err), w') = run_cmd env (start_cmd n) w in
     (err, record_event env ''start'' (nID n) out f w', w'))"

definition drop_cmd :: "node \<Rightarrow> string \<Rightarrow> string \<Rightarrow> string \<Rightarrow> string list" where
  "drop_cmd n chain flag ip =
     [''docker'', ''exec'', nContainer n, ''iptables'', ''-I'', chain, flag, ip, ''-j'', ''DROP'']"

definition flush_cmd :: "node \<Rightarrow> string \<Rightarrow> string list" where
  "flush_cmd n chain = [''docker'', ''exec'', nContainer n, ''iptables'', ''-F'', chain]"

definition isolate_cmds :: "node \<Rightarrow> node \<Rightarrow> string list list" where
  "isolate_cmds n peer =
     [drop_cmd n ''INPUT'' ''-s'' (nIP peer), drop_cmd n ''OUTPUT'' ''-d'' (nIP peer),
      drop_cmd peer ''INPUT'' ''-s'' (nIP n), drop_cmd peer ''OUTPUT'' ''-d'' (nIP n)]"

text \<open>An error of \<open>Isolate\<close>: the command, its output, and what was wrong.\<close>

datatype 'e isolate_err = IsolateErr "string list" string 'e

primrec isolate_run :: "('w, 't, 'e) fault_env \<Rightarrow> string list list \<Rightarrow> 'e isolate_err option \<Rightarrow> 'w \<Rightarrow>
    'e isolate_err option \<times> 'w" where
  "isolate_run env [] firstErr w = (firstErr, w)"
| "isolate_run env (c # cs) firstErr w =
     (let ((out, err), w') = run_cmd env c w in
      isolate_run env cs
        (case err of Some e \<Rightarrow> if firstErr = None then Some (IsolateErr c out e) else firstErr | None \<Rightarrow> firstErr) w')"

primrec isolate_peers :: "('w, 't, 'e) fault_env \<Rightarrow> node \<Rightarrow> node list \<Rightarrow> 'e isolate_err option \<Rightarrow> 'w \<Rightarrow>
    'e isolate_err option \<times> 'w" where
  "isolate_peers env n [] firstErr w = (firstErr, w)"
| "isolate_peers env n (peer # ps) firstErr w =
     (if nID peer = nID n then isolate_peers env n ps firstErr w
      else let (firstErr', w') = isolate_run env (isolate_cmds n peer) firstErr w in
        isolate_peers env n ps firstErr' w')"

definition Isolate :: "('w, 't, 'e) fault_env \<Rightarrow> node \<Rightarrow> 't faults \<Rightarrow> 'w \<Rightarrow> 'e isolate_err option \<times> 't faults \<times> 'w" where
  "Isolate env n f w = (let (firstErr, w') = isolate_peers env n (fNodes f) None w in
     (firstErr, record_event env ''partition'' (nID n) ''isolated from peers (iptables DROP both directions)'' f w', w'))"

primrec run_all :: "('w, 't, 'e) fault_env \<Rightarrow> string list list \<Rightarrow> 'w \<Rightarrow> 'w" where
  "run_all env [] w = w"
| "run_all env (c # cs) w = run_all env cs (snd (run_cmd env c w))"

definition heal_cmds :: "node \<Rightarrow> string list list" where
  "heal_cmds n = start_cmd n # map (flush_cmd n) [''INPUT'', ''OUTPUT'']"

definition HealAll :: "('w, 't, 'e) fault_env \<Rightarrow> 't faults \<Rightarrow> 'w \<Rightarrow> 't faults \<times> 'w" where
  "HealAll env f w = (let w' = run_all env (concat (map heal_cmds (fNodes f))) w in
     (record_event env ''heal'' ''all'' ''iptables flushed, all containers started'' f w', w'))"

definition health_field :: "string \<Rightarrow> json \<Rightarrow> string \<Rightarrow> string \<times> bool" where
  "health_field k v s = (if key_is k ''leader_id'' then dec_string v s else (s, False))"

primrec leader_id :: "('w, 't, 'e) fault_env \<Rightarrow> node list \<Rightarrow> 'w \<Rightarrow> string \<times> 'w" where
  "leader_id env [] w = ('''', w)"
| "leader_id env (n # ns) w = (case fvGet env (nURL n @ ''/healthz'') w of
     (None, w') \<Rightarrow> leader_id env ns w'
   | (Some body, w') \<Rightarrow> (case decode_stream (dec_struct health_field) body '''' of
        (h, None) \<Rightarrow> if h \<noteq> '''' then (h, w') else leader_id env ns w'
      | (h, Some e) \<Rightarrow> leader_id env ns w'))"

definition LeaderID :: "('w, 't, 'e) fault_env \<Rightarrow> 't faults \<Rightarrow> 'w \<Rightarrow> string \<times> 'w" where
  "LeaderID env f w = leader_id env (fNodes f) w"

definition NodeByID :: "'t faults \<Rightarrow> string \<Rightarrow> node option" where
  "NodeByID f i = find (\<lambda>n. nID n = i) (fNodes f)"

section \<open>What docker and iptables promise\<close>

text \<open>
  \<open>running\<close> and \<open>drops\<close> read a world: which containers run, and from (\<open>INPUT\<close>) or to
  (\<open>OUTPUT\<close>) which addresses a container drops packets. A command touches only its own
  container, and what it is for happens when it reports no error; starting a container leaves no rule it did not
  have. The injector drops the errors of \<open>docker start\<close> and of the flushes, so healing relies on two things
  stated apart: \<open>start_succeeds\<close>, and \<open>flush_succeeds\<close> in a container that runs.
\<close>

locale docker_contract =
  fixes env :: "('w, 't, 'e) fault_env"
    and running :: "'w \<Rightarrow> string \<Rightarrow> bool" and drops :: "'w \<Rightarrow> string \<Rightarrow> string \<Rightarrow> string set"
  assumes starts: "snd (fst (fvExec env (start_cmd n) w)) = None \<Longrightarrow>
      running (snd (fvExec env (start_cmd n) w)) x \<longleftrightarrow> x = nContainer n \<or> running w x"
    and start_drops: "drops (snd (fvExec env (start_cmd n) w)) x ch \<subseteq> drops w x ch"
    and kills: "snd (fst (fvExec env (kill_cmd n) w)) = None \<Longrightarrow>
      running (snd (fvExec env (kill_cmd n) w)) x \<longleftrightarrow> x \<noteq> nContainer n \<and> running w x"
    and kill_fails: "snd (fst (fvExec env (kill_cmd n) w)) \<noteq> None \<Longrightarrow>
      running (snd (fvExec env (kill_cmd n) w)) = running w"
    and kill_drops: "drops (snd (fvExec env (kill_cmd n) w)) x ch \<subseteq> drops w x ch"
    and drop_running: "running (snd (fvExec env (drop_cmd n ch fl ip) w)) = running w"
    and drop_adds: "(ch, fl) \<in> {(''INPUT'', ''-s''), (''OUTPUT'', ''-d'')} \<Longrightarrow>
      snd (fst (fvExec env (drop_cmd n ch fl ip) w)) = None \<Longrightarrow>
      drops (snd (fvExec env (drop_cmd n ch fl ip) w)) =
        (drops w)(nContainer n := (drops w (nContainer n))(ch := insert ip (drops w (nContainer n) ch)))"
    and drop_fails: "snd (fst (fvExec env (drop_cmd n ch fl ip) w)) \<noteq> None \<Longrightarrow>
      drops (snd (fvExec env (drop_cmd n ch fl ip) w)) = drops w"
    and flush_running: "running (snd (fvExec env (flush_cmd n ch) w)) = running w"
    and flushes: "snd (fst (fvExec env (flush_cmd n ch) w)) = None \<Longrightarrow>
      drops (snd (fvExec env (flush_cmd n ch) w)) = (drops w)(nContainer n := (drops w (nContainer n))(ch := {}))"
    and start_succeeds: "snd (fst (fvExec env (start_cmd n) w)) = None"
    and flush_succeeds: "running w (nContainer n) \<Longrightarrow> snd (fst (fvExec env (flush_cmd n ch) w)) = None"
begin

lemma start_runs: "running (snd (fvExec env (start_cmd n) w)) x \<longleftrightarrow> x = nContainer n \<or> running w x"
  using starts [OF start_succeeds] .

lemma flush_empties: "running w (nContainer n) \<Longrightarrow>
    drops (snd (fvExec env (flush_cmd n ch) w)) = (drops w)(nContainer n := (drops w (nContainer n))(ch := {}))"
  using flushes [OF flush_succeeds] .

lemma kill_others: "running w x \<Longrightarrow> x \<noteq> nContainer n \<Longrightarrow> running (snd (fvExec env (kill_cmd n) w)) x"
  using kills [of n w x] kill_fails [of n w] by metis

lemma run_cmd_world: "snd (run_cmd env c w) = snd (fvExec env c w)"
  by (simp add: run_cmd_def case_prod_beta)

text \<open>Healing one node: it runs, has no rules, and the others are as they were, or with fewer rules.\<close>

lemma heal_one:
  fixes w :: 'w and n :: node
  defines "w' \<equiv> run_all env (heal_cmds n) w"
  shows "running w' x \<longleftrightarrow> x = nContainer n \<or> running w x" and "drops w' x ch \<subseteq> drops w x ch"
    and "ch \<in> {''INPUT'', ''OUTPUT''} \<Longrightarrow> drops w' (nContainer n) ch = {}"
proof -
  let ?w1 = "snd (fvExec env (start_cmd n) w)"
  let ?w2 = "snd (fvExec env (flush_cmd n ''INPUT'') ?w1)"
  have w': "w' = snd (fvExec env (flush_cmd n ''OUTPUT'') ?w2)"
    by (simp add: w'_def heal_cmds_def run_cmd_world)
  have r1: "running ?w1 (nContainer n)" by (simp add: start_runs)
  have d1: "drops ?w1 x ch \<subseteq> drops w x ch" for x ch by (rule start_drops)
  have r2: "running ?w2 = running ?w1" by (rule flush_running)
  have d2: "drops ?w2 = (drops ?w1)(nContainer n := (drops ?w1 (nContainer n))(''INPUT'' := {}))"
    by (rule flush_empties [OF r1])
  have d3: "drops w' = (drops ?w2)(nContainer n := (drops ?w2 (nContainer n))(''OUTPUT'' := {}))"
    unfolding w' using r1 by (intro flush_empties) (simp add: r2)
  show "running w' x \<longleftrightarrow> x = nContainer n \<or> running w x"
    by (simp add: w' flush_running start_runs)
  show "drops w' x ch \<subseteq> drops w x ch"
    using d1 by (auto simp: d3 d2)
  show "ch \<in> {''INPUT'', ''OUTPUT''} \<Longrightarrow> drops w' (nContainer n) ch = {}"
    by (auto simp: d3 d2)
qed

lemma run_all_append: "run_all env (xs @ ys) w = run_all env ys (run_all env xs w)"
  by (induction xs arbitrary: w) auto

lemma heal_nodes_running:
  "running (run_all env (concat (map heal_cmds ns)) w) x \<longleftrightarrow> x \<in> nContainer ` set ns \<or> running w x"
proof (induction ns arbitrary: w)
  case (Cons n ns)
  have "running (run_all env (concat (map heal_cmds ns)) (run_all env (heal_cmds n) w)) x \<longleftrightarrow>
      x \<in> nContainer ` set ns \<or> running (run_all env (heal_cmds n) w) x"
    by (rule Cons.IH)
  also have "\<dots> \<longleftrightarrow> x \<in> nContainer ` set (n # ns) \<or> running w x"
    using heal_one(1) [of n w x] by auto
  finally show ?case by (simp add: run_all_append)
qed simp

lemma heal_nodes_drops: "drops (run_all env (concat (map heal_cmds ns)) w) x ch \<subseteq> drops w x ch"
proof (induction ns arbitrary: w)
  case (Cons n ns)
  have "drops (run_all env (concat (map heal_cmds ns)) (run_all env (heal_cmds n) w)) x ch
      \<subseteq> drops (run_all env (heal_cmds n) w) x ch"
    by (rule Cons.IH)
  also have "\<dots> \<subseteq> drops w x ch" by (rule heal_one(2))
  finally show ?case by (simp add: run_all_append)
qed simp

lemma heal_nodes_clean:
  assumes "n \<in> set ns" and "ch \<in> {''INPUT'', ''OUTPUT''}"
  shows "drops (run_all env (concat (map heal_cmds ns)) w) (nContainer n) ch = {}"
proof -
  from assms(1) obtain xs ys where ns: "ns = xs @ n # ys" by (metis split_list)
  let ?w1 = "run_all env (concat (map heal_cmds xs)) w"
  have "drops (run_all env (concat (map heal_cmds ys)) (run_all env (heal_cmds n) ?w1)) (nContainer n) ch
      \<subseteq> drops (run_all env (heal_cmds n) ?w1) (nContainer n) ch"
    by (rule heal_nodes_drops)
  also have "\<dots> = {}" by (rule heal_one(3) [OF assms(2)])
  finally show ?thesis by (simp add: ns run_all_append)
qed

definition healed :: "node list \<Rightarrow> 'w \<Rightarrow> bool" where
  "healed ns w \<longleftrightarrow> (\<forall>n \<in> set ns. running w (nContainer n) \<and>
     drops w (nContainer n) ''INPUT'' = {} \<and> drops w (nContainer n) ''OUTPUT'' = {})"

lemma HealAll_heals: "healed (fNodes f) (snd (HealAll env f w))"
  by (simp add: healed_def HealAll_def Let_def heal_nodes_running heal_nodes_clean)

text \<open>A list of rules to add, and what is there when every command succeeded.\<close>

definition rule_cmds :: "(node \<times> string \<times> string) list \<Rightarrow> string list list" where
  "rule_cmds ts = map (\<lambda>(m, ch, ip). drop_cmd m ch (if ch = ''INPUT'' then ''-s'' else ''-d'') ip) ts"

lemma isolate_run_rules:
  assumes "isolate_run env (rule_cmds ts) fe w = (None, w')" and "\<forall>(m, ch, ip) \<in> set ts. ch \<in> {''INPUT'', ''OUTPUT''}"
  shows "fe = None \<and> running w' = running w \<and>
    (\<forall>x c. drops w' x c = drops w x c \<union> {ip. \<exists>m. (m, c, ip) \<in> set ts \<and> nContainer m = x})"
  using assms
proof (induction ts arbitrary: fe w)
  case Nil
  then show ?case by (simp add: rule_cmds_def)
next
  case (Cons t ts)
  obtain m ch ip where t: "t = (m, ch, ip)" by (cases t)
  let ?fl = "if ch = ''INPUT'' then ''-s'' else ''-d''"
  obtain out err w1 where ex: "fvExec env (drop_cmd m ch ?fl ip) w = ((out, err), w1)"
    by (metis surj_pair)
  define fe' where "fe' = (case err of None \<Rightarrow> fe
    | Some e \<Rightarrow> if fe = None then Some (IsolateErr (drop_cmd m ch ?fl ip) (trim_space out) e) else fe)"
  have "isolate_run env (rule_cmds ts) fe' w1 = (None, w')"
    using Cons.prems(1) ex by (simp add: rule_cmds_def t run_cmd_def fe'_def Let_def split: option.splits)
  with Cons.IH [of fe' w1] Cons.prems(2) have IH: "fe' = None" "running w' = running w1"
    "\<And>x c. drops w' x c = drops w1 x c \<union> {ip. \<exists>m. (m, c, ip) \<in> set ts \<and> nContainer m = x}"
    by auto
  then have err: "err = None" and fe: "fe = None" by (auto simp: fe'_def split: option.splits if_splits)
  have "(ch, ?fl) \<in> {(''INPUT'', ''-s''), (''OUTPUT'', ''-d'')}"
    using Cons.prems(2) t by auto
  from drop_adds [OF this, of m ip w] err ex
  have "drops w1 = (drops w)(nContainer m := (drops w (nContainer m))(ch := insert ip (drops w (nContainer m) ch)))"
    by simp
  moreover have "running w1 = running w" using drop_running [of m ch ?fl ip w] ex by simp
  ultimately show ?case using IH fe t by auto
qed

lemma isolate_cmds_rules:
  "isolate_cmds n p = rule_cmds [(n, ''INPUT'', nIP p), (n, ''OUTPUT'', nIP p), (p, ''INPUT'', nIP n), (p, ''OUTPUT'', nIP n)]"
  by (simp add: isolate_cmds_def rule_cmds_def)

lemma isolate_run_append:
  "isolate_run env (xs @ ys) fe w = (let (fe', w') = isolate_run env xs fe w in isolate_run env ys fe' w')"
  by (induction xs arbitrary: fe w) (auto simp: Let_def case_prod_beta)

lemma isolate_peers_run:
  "isolate_peers env n ps fe w =
     isolate_run env (concat (map (isolate_cmds n) (filter (\<lambda>p. nID p \<noteq> nID n) ps))) fe w"
  by (induction ps arbitrary: fe w) (simp_all add: isolate_run_append)

definition peer_rules :: "node \<Rightarrow> node list \<Rightarrow> (node \<times> string \<times> string) list" where
  "peer_rules n ps = concat (map (\<lambda>p. [(n, ''INPUT'', nIP p), (n, ''OUTPUT'', nIP p),
     (p, ''INPUT'', nIP n), (p, ''OUTPUT'', nIP n)]) (filter (\<lambda>p. nID p \<noteq> nID n) ps))"

lemma peer_rules_cmds:
  "concat (map (isolate_cmds n) (filter (\<lambda>p. nID p \<noteq> nID n) ps)) = rule_cmds (peer_rules n ps)"
  unfolding peer_rules_def by (induction ps) (simp_all add: isolate_cmds_rules rule_cmds_def)

lemma Isolate_rules:
  assumes "Isolate env n f w = (None, f', w')"
  shows "running w' = running w \<and>
    (\<forall>x c. drops w' x c = drops w x c \<union> {ip. \<exists>m. (m, c, ip) \<in> set (peer_rules n (fNodes f)) \<and> nContainer m = x})"
proof -
  have "isolate_run env (rule_cmds (peer_rules n (fNodes f))) None w = (None, w')"
    using assms by (simp add: Isolate_def isolate_peers_run peer_rules_cmds split: prod.splits)
  then show ?thesis
    by (rule isolate_run_rules [THEN conjunct2]) (auto simp: peer_rules_def)
qed

end

text \<open>Nothing passes between two nodes in either direction, as seen by either.\<close>

definition cut_off :: "('w \<Rightarrow> string \<Rightarrow> string \<Rightarrow> string set) \<Rightarrow> 'w \<Rightarrow> node \<Rightarrow> node \<Rightarrow> bool" where
  "cut_off drops w a b \<longleftrightarrow>
     nIP b \<in> drops w (nContainer a) ''INPUT'' \<and> nIP b \<in> drops w (nContainer a) ''OUTPUT'' \<and>
     nIP a \<in> drops w (nContainer b) ''INPUT'' \<and> nIP a \<in> drops w (nContainer b) ''OUTPUT''"

text \<open>C38: \<open>Isolate\<close> cuts a node off and nothing else: when it reports no error, the node and every
  other node drop each other's packets in both directions, no container was stopped, and no
  rule was added between two other nodes.\<close>

theorem Isolate_cuts:
  assumes "docker_contract env running drops" and "Isolate env n f w = (None, f', w')"
  shows "running w' = running w \<and>
    (\<forall>p \<in> set (fNodes f). nID p \<noteq> nID n \<longrightarrow> cut_off drops w' n p) \<and>
    (\<forall>x ch ip. ip \<in> drops w' x ch \<longrightarrow> ip \<in> drops w x ch \<or>
      (\<exists>p \<in> set (fNodes f). nID p \<noteq> nID n \<and> (x = nContainer n \<and> ip = nIP p \<or> x = nContainer p \<and> ip = nIP n)))"
  using docker_contract.Isolate_rules [OF assms]
  by (auto simp: cut_off_def docker_contract.peer_rules_def [OF assms(1)])

text \<open>\<open>HealAll\<close> ends every fault: whatever was killed or cut before, all nodes run and none drops
  packets.\<close>

theorem HealAll_restores:
  assumes "docker_contract env running drops" and "HealAll env f w = (f', w')" and "n \<in> set (fNodes f)"
  shows "running w' (nContainer n) \<and> drops w' (nContainer n) ''INPUT'' = {} \<and>
    drops w' (nContainer n) ''OUTPUT'' = {}"
  using docker_contract.HealAll_heals [OF assms(1), of f w] assms(2,3)
  by (simp add: docker_contract.healed_def [OF assms(1)])


section \<open>Finding the leader\<close>

lemma health_decodes:
  "decode_stream (dec_struct health_field) (rsBody (handle_healthz api sn v)) '''' =
     (to_valid (snd (raLeaderWithID api (snRaft sn) v)), None)"
proof -
  obtain a l where al: "raLeaderWithID api (snRaft sn) v = (a, l)" by (cases "raLeaderWithID api (snRaft sn) v")
  show ?thesis
    unfolding handle_healthz_def al Let_def prod.case writeJSON_def response.simps
    by (subst decode_stream_jprint) (simp_all add: al max_depth_def health_field_def key_is_def)
qed

text \<open>What a node says of the leader when it is reachable: the body of its health report.\<close>

definition reports_leader :: "('w, 't, 'e) fault_env \<Rightarrow> 'w \<Rightarrow> node \<Rightarrow> string option \<Rightarrow> bool" where
  "reports_leader env w n up \<longleftrightarrow> (case up of None \<Rightarrow> fvGet env (nURL n @ ''/healthz'') w = (None, w)
     | Some l \<Rightarrow> (\<exists>body. fvGet env (nURL n @ ''/healthz'') w = (Some body, w) \<and>
         decode_stream (dec_struct health_field) body '''' = (l, None)))"

text \<open>\<open>LeaderID\<close> is what the first reachable node that knows of a leader says, and empty when none
  does; nodes that are down or see no leader are passed over.\<close>

theorem LeaderID_first:
  assumes "\<forall>n \<in> set (fNodes f). reports_leader env w n (up n)"
  shows "LeaderID env f w =
    (case find (\<lambda>n. up n \<notin> {None, Some ''''}) (fNodes f) of None \<Rightarrow> '''' | Some n \<Rightarrow> the (up n), w)"
proof -
  have "leader_id env ns w = (case find (\<lambda>n. up n \<notin> {None, Some ''''}) ns of None \<Rightarrow> '''' | Some n \<Rightarrow> the (up n), w)"
    if "set ns \<subseteq> set (fNodes f)" for ns
    using that
  proof (induction ns)
    case (Cons n ns)
    then have "reports_leader env w n (up n)" using assms by simp
    with Cons show ?case by (auto simp: reports_leader_def split: option.splits)
  qed simp
  then show ?thesis by (simp add: LeaderID_def)
qed

section \<open>A host that keeps the contract\<close>

record host =
  hostRuns :: "string \<Rightarrow> bool"
  hostDrops :: "string \<Rightarrow> string \<Rightarrow> string set"

definition host_exec :: "string list \<Rightarrow> host \<Rightarrow> (string \<times> unit option) \<times> host" where
  "host_exec cmd h =
     (if take 2 cmd = [''docker'', ''kill''] then
        (('''', None), h\<lparr>hostRuns := (hostRuns h)(cmd ! 4 := False)\<rparr>)
      else if take 2 cmd = [''docker'', ''start''] then
        (('''', None), h\<lparr>hostRuns := (hostRuns h)(cmd ! 2 := True),
           hostDrops := (if hostRuns h (cmd ! 2) then hostDrops h else (hostDrops h)(cmd ! 2 := (\<lambda>_. {})))\<rparr>)
      else if \<not> hostRuns h (cmd ! 2) then ((''container is not running'', Some ()), h)
      else if cmd ! 4 = ''-I'' then
        (('''', None), h\<lparr>hostDrops := (hostDrops h)(cmd ! 2 := (hostDrops h (cmd ! 2))
           (cmd ! 5 := insert (cmd ! 7) (hostDrops h (cmd ! 2) (cmd ! 5))))\<rparr>)
      else (('''', None), h\<lparr>hostDrops := (hostDrops h)(cmd ! 2 := (hostDrops h (cmd ! 2))(cmd ! 5 := {}))\<rparr>))"

definition host_env :: "(host, nat, unit) fault_env" where
  "host_env = \<lparr>fvExec = host_exec, fvNow = (\<lambda>_. 0),
     fvGet = (\<lambda>u w. (if u = ''http://localhost:8081/healthz'' then None else Some (jprint (JObj [(''leader_id'', JStr ''node3'')])), w))\<rparr>"

lemma host_contract: "docker_contract host_env hostRuns hostDrops"
  by unfold_locales
    (auto simp: host_env_def host_exec_def start_cmd_def kill_cmd_def drop_cmd_def flush_cmd_def)

interpretation host: docker_contract host_env hostRuns hostDrops
  by (rule host_contract)

section \<open>Witnesses\<close>

definition calm_host :: host where
  "calm_host = \<lparr>hostRuns = (\<lambda>_. True), hostDrops = (\<lambda>_ _. {})\<rparr>"

definition default_faults :: "nat faults" where
  "default_faults = \<lparr>fNodes = default_nodes, fEvents = []\<rparr>"

theorem Isolate_cuts_witness:
  "cut_off hostDrops (snd (snd (Isolate host_env (default_nodes ! 0) default_faults calm_host)))
     (default_nodes ! 0) (default_nodes ! 2)"
proof -
  have ok: "fst (Isolate host_env (default_nodes ! 0) default_faults calm_host) = None"
    by (simp add: Isolate_def default_faults_def default_nodes_def isolate_cmds_def drop_cmd_def run_cmd_def
        host_env_def host_exec_def calm_host_def)
  have "default_nodes ! 2 \<in> set (fNodes default_faults)" "nID (default_nodes ! 2) \<noteq> nID (default_nodes ! 0)"
    by (simp_all add: default_faults_def default_nodes_def)
  moreover have "Isolate host_env (default_nodes ! 0) default_faults calm_host =
      (None, fst (snd (Isolate host_env (default_nodes ! 0) default_faults calm_host)),
       snd (snd (Isolate host_env (default_nodes ! 0) default_faults calm_host)))"
    using ok by (metis prod.collapse)
  ultimately show ?thesis
    using Isolate_cuts [OF host_contract] by blast
qed

theorem HealAll_restores_witness:
  "hostRuns (snd (HealAll host_env default_faults (calm_host\<lparr>hostRuns := (\<lambda>_. False)\<rparr>))) ''quorum-node1''"
proof -
  have "default_nodes ! 0 \<in> set (fNodes default_faults)" by (simp add: default_faults_def default_nodes_def)
  from HealAll_restores [OF host_contract prod.collapse [symmetric] this]
  show ?thesis by (simp add: default_nodes_def)
qed


theorem LeaderID_first_witness: "LeaderID host_env default_faults calm_host = (''node3'', calm_host)"
proof -
  let ?up = "\<lambda>n. if nURL n = ''http://localhost:8081'' then None else Some ''node3''"
  have body: "decode_stream (dec_struct health_field) (jprint (JObj [(''leader_id'', JStr ''node3'')])) '''' = (''node3'', None)"
    using decode_stream_jprint [of "JObj [(''leader_id'', JStr ''node3'')]" "[]" "dec_struct health_field" "''''"]
    by (simp add: max_depth_def health_field_def key_is_def num_end_def del: jprint.simps)
  have get: "fvGet host_env (nURL n @ ''/healthz'') calm_host =
      (if nURL n = ''http://localhost:8081'' then None else Some (jprint (JObj [(''leader_id'', JStr ''node3'')])), calm_host)"
    if "n \<in> set default_nodes" for n
    using that by (auto simp: host_env_def default_nodes_def simp del: jprint.simps)
  have "\<forall>n \<in> set (fNodes default_faults). reports_leader host_env calm_host n (?up n)"
  proof
    fix n assume "n \<in> set (fNodes default_faults)"
    then have "n \<in> set default_nodes" by (simp add: default_faults_def)
    from get [OF this] body show "reports_leader host_env calm_host n (?up n)"
      by (simp add: reports_leader_def del: jprint.simps split: if_splits)
  qed
  from LeaderID_first [OF this] show ?thesis
    by (simp add: default_faults_def default_nodes_def)
qed

end
