(* ===== verification/Indent.thy ===== *)
theory Indent
  imports Json
begin

text \<open>
  \<open>json.MarshalIndent\<close>: the text of a value with white space between its tokens. The parser sees tokens
  only, so it reads the indented text as it reads the compact one.
\<close>

section \<open>Writing\<close>

text \<open>\<open>nl\<close> is the line break with the indentation of the value, \<open>step\<close> what a level adds to it, \<open>col\<close> what follows
  a colon.\<close>

fun jspace :: "string \<Rightarrow> string \<Rightarrow> string \<Rightarrow> json \<Rightarrow> string" where
  "jspace step col nl (JArr vs) =
     (if vs = [] then ''[]''
      else ''['' @ (nl @ step) @ join_with ('','' @ nl @ step) (map (jspace step col (nl @ step)) vs) @ nl @ '']'')"
| "jspace step col nl (JObj ms) =
     (if ms = [] then ''{}''
      else ''{'' @ (nl @ step) @
        join_with ('','' @ nl @ step) (map (\<lambda>(k, v). quote k @ '':'' @ col @ jspace step col (nl @ step) v) ms) @ nl @ ''}'')"
| "jspace step col nl v = jprint v"

definition MarshalIndent :: "json \<Rightarrow> string" where
  "MarshalIndent v = jspace ''  '' '' '' [CHR 0x0A] v"

lemma jspace_compact: "jspace [] [] [] v = jprint v"
proof (induction v)
  case (JArr vs)
  then have "map (jspace [] [] []) vs = map jprint vs" by simp
  from arg_cong [OF this, of "join_with '',''"] show ?case by simp
next
  case (JObj ms)
  then have "map (\<lambda>(k, v). quote k @ '':'' @ jspace [] [] [] v) ms = map (\<lambda>(k, v). quote k @ '':'' @ jprint v) ms" by auto
  from arg_cong [OF this, of "join_with '',''"] show ?case by simp
qed simp_all

section \<open>Tokens\<close>

fun lexes :: "string \<Rightarrow> tok list \<Rightarrow> string \<Rightarrow> bool" where
  "lexes s [] u \<longleftrightarrow> s = u"
| "lexes s (t # ts) u \<longleftrightarrow> (case lex1 s of Some (t', r) \<Rightarrow> t' = t \<and> lexes r ts u | None \<Rightarrow> False)"

fun join_toks :: "tok list list \<Rightarrow> tok list" where
  "join_toks [] = []"
| "join_toks [x] = x"
| "join_toks (x # xs) = x @ TComma # join_toks xs"

fun toks :: "json \<Rightarrow> tok list" where
  "toks (JStr s) = [TStr (to_valid s)]"
| "toks (JArr vs) = TLBrack # join_toks (map toks vs) @ [TRBrack]"
| "toks (JObj ms) = TLBrace # join_toks (map (\<lambda>(k, v). TStr (to_valid k) # TColon # toks v) ms) @ [TRBrace]"
| "toks v = [TAtom v]"

lemma lexes_append: "lexes s ts r \<Longrightarrow> lexes r ts' u \<Longrightarrow> lexes s (ts @ ts') u"
  by (induction ts arbitrary: s) (auto split: option.splits)

lemma lexes_length: "lexes s ts u \<Longrightarrow> length u + length ts \<le> length s"
  by (induction ts arbitrary: s) (fastforce dest: lex1_length split: option.splits)+

lemma lex1_space: "list_all json_space ws \<Longrightarrow> lex1 (ws @ s) = lex1 s"
  by (simp add: lex1_def list_all_iff dropWhile_append2)

lemma lexes_space: "list_all json_space ws \<Longrightarrow> ts \<noteq> [] \<Longrightarrow> lexes (ws @ s) ts u \<longleftrightarrow> lexes s ts u"
  by (cases ts) (simp_all add: lex1_space)

lemma toks_not_Nil [simp]: "toks v \<noteq> []"
  by (cases v) simp_all

lemma num_end_space: "list_all json_space ws \<Longrightarrow> num_end s \<Longrightarrow> num_end (ws @ s)"
  by (cases ws) (auto simp: num_end_def json_space_def is_digit_def)

text \<open>The tokens of a list of texts that a comma and white space separate.\<close>

lemma lexes_join:
  assumes "\<And>x t. x \<in> set xs \<Longrightarrow> num_end t \<Longrightarrow> lexes (f x @ t) (g x) t" and "\<And>x. x \<in> set xs \<Longrightarrow> g x \<noteq> []"
    and "list_all json_space ws" and "xs \<noteq> []" and "num_end t"
  shows "lexes (join_with ('','' @ ws) (map f xs) @ t) (join_toks (map g xs)) t"
  using assms(4,1,2)
proof (induction xs rule: list_nonempty_induct)
  case (single x)
  then show ?case using assms(5) by simp
next
  case (cons x xs)
  obtain y ys where xs: "xs = y # ys" using cons(1) by (cases xs) auto
  have ne: "join_toks (map g xs) \<noteq> []" using cons(4) by (cases ys) (auto simp: xs)
  have "lexes (join_with ('','' @ ws) (map f xs) @ t) (join_toks (map g xs)) t"
    using cons by simp
  then have "lexes ('','' @ ws @ join_with ('','' @ ws) (map f xs) @ t) (TComma # join_toks (map g xs)) t"
    using ne assms(3) by (simp add: lexes_space)
  moreover have "lexes (f x @ '','' @ ws @ join_with ('','' @ ws) (map f xs) @ t) (g x) ('','' @ ws @ join_with ('','' @ ws) (map f xs) @ t)"
    using cons(3) by simp
  ultimately show ?case using lexes_append by (fastforce simp: xs)
qed

lemma lexes_jspace:
  assumes "list_all json_space step" and "list_all json_space col"
  shows "jints v \<Longrightarrow> list_all json_space nl \<Longrightarrow> num_end t \<Longrightarrow> lexes (jspace step col nl v @ t) (toks v) t"
  using assms
proof (induction step col nl v arbitrary: t rule: jspace.induct)
  case (1 step col nl vs)
  show ?case
  proof (cases "vs = []")
    case False
    let ?nl = "nl @ step" and ?r = "nl @ CHR '']'' # t"
    have ws: "list_all json_space ?nl" using 1 by simp
    have "num_end ?r" using 1 by (intro num_end_space) simp_all
    then have "lexes (join_with ('','' @ ?nl) (map (jspace step col ?nl) vs) @ ?r) (join_toks (map toks vs)) ?r"
      using 1 False ws by (intro lexes_join) auto
    moreover have "lexes ?r [TRBrack] t" by (subst lexes_space) (use 1 in simp_all)
    ultimately have "lexes (join_with ('','' @ ?nl) (map (jspace step col ?nl) vs) @ ?r) (join_toks (map toks vs) @ [TRBrack]) t"
      by (rule lexes_append)
    then show ?thesis using False ws lexes_space [OF ws] by simp
  qed simp
next
  case (2 step col nl ms)
  show ?case
  proof (cases "ms = []")
    case False
    let ?nl = "nl @ step" and ?r = "nl @ CHR ''}'' # t"
    let ?f = "\<lambda>(k, v). quote k @ '':'' @ col @ jspace step col ?nl v" and ?g = "\<lambda>(k, v). TStr (to_valid k) # TColon # toks v"
    have ws: "list_all json_space ?nl" using 2 by simp
    have "lexes (?f x @ u) (?g x) u" if "x \<in> set ms" "num_end u" for x u
    proof -
      obtain k v where x: "x = (k, v)" by (cases x)
      with 2(2) that(1) have "jints v" by auto
      with 2(1) [OF False that(1) x [symmetric]] 2(3-6) ws that(2) have "lexes (jspace step col ?nl v @ u) (toks v) u" by simp
      with 2(6) show ?thesis by (simp add: x lexes_space)
    qed
    moreover have "num_end ?r" using 2 by (intro num_end_space) simp_all
    ultimately have "lexes (join_with ('','' @ ?nl) (map ?f ms) @ ?r) (join_toks (map ?g ms)) ?r"
      using False ws by (intro lexes_join) auto
    moreover have "lexes ?r [TRBrace] t" by (subst lexes_space) (use 2 in simp_all)
    ultimately have "lexes (join_with ('','' @ ?nl) (map ?f ms) @ ?r) (join_toks (map ?g ms) @ [TRBrace]) t"
      by (rule lexes_append)
    then show ?thesis using False ws lexes_space [OF ws] by simp
  qed simp
qed (auto simp: lex1_int_dec)

section \<open>Reading\<close>

lemma prun_length: "prun m st s = Some (v, r) \<Longrightarrow> length r < length s"
proof (induction m st s rule: prun.induct)
  case (1 m st s)
  from 1(2) obtain t s1 where t: "lex1 s = Some (t, s1)" by (subst (asm) prun.simps) (auto split: option.splits)
  show ?case
  proof (cases "pstep m st t")
    case (PCont m' st')
    with 1(1) [OF t refl PCont] 1(2) lex1_length [OF t] show ?thesis by (simp add: prun_step [OF t])
  qed (use 1(2) lex1_length [OF t] in \<open>simp_all add: prun_step [OF t]\<close>)
qed

text \<open>Two texts with the same tokens are read alike.\<close>

lemma same_tokens:
  "lexes s ts u \<Longrightarrow> lexes s' ts u' \<Longrightarrow> prun m st s = Some (v, u) \<Longrightarrow> prun m st s' = Some (v, u')"
proof (induction ts arbitrary: s s' m st)
  case Nil
  then show ?case using prun_length by fastforce
next
  case (Cons t ts)
  from Cons.prems(1,2) obtain r r' where 1: "lex1 s = Some (t, r)" "lexes r ts u" and 2: "lex1 s' = Some (t, r')" "lexes r' ts u'"
    by (auto split: option.splits)
  note run = Cons.prems(3) [unfolded prun_step [OF 1(1)]]
  show ?case
  proof (cases "pstep m st t")
    case (PDone w)
    with run have "r = u" "w = v" by simp_all
    with 1(2) lexes_length have "ts = []" by fastforce
    with 2 PDone \<open>w = v\<close> show ?thesis by (simp add: prun_step)
  next
    case (PCont m' st')
    with run Cons.IH [OF 1(2) 2(2)] show ?thesis by (simp add: prun_step [OF 2(1)])
  qed (use run in simp)
qed

theorem json_text_MarshalIndent:
  assumes "jints v" and "jdepth v \<le> max_depth"
  shows "json_text (MarshalIndent v) = Some (jsan v)"
proof -
  have "lexes (jprint v) (toks v) []"
    using lexes_jspace [OF _ _ assms(1), of "[]" "[]" "[]" "[]"] by (simp add: jspace_compact)
  moreover have "lexes (MarshalIndent v) (toks v) []"
    using lexes_jspace [OF _ _ assms(1), of "''  ''" "'' ''" "[CHR 0x0A]" "[]"] by (simp add: MarshalIndent_def json_space_def)
  moreover have "prun MValue [] (jprint v) = Some (jsan v, [])"
    using json_first_jprint [OF assms, of "[]"] by (simp add: json_first_def)
  ultimately have "prun MValue [] (MarshalIndent v) = Some (jsan v, [])" by (rule same_tokens)
  then show ?thesis by (simp add: json_text_def json_first_def)
qed

end
