(* ===== verification/Report.thy ===== *)
theory Report
  imports Faults Indent
begin

text \<open>
  The report of a run (\<open>internal/harness/run.go\<close>, and the events of \<open>faults.go\<close>) and its file: an
  indented JSON object. The text of a time (RFC 3339) is a parameter; a slice nothing was appended to is nil
  and written as \<open>null\<close>. The text reads back as the report.
\<close>

section \<open>The report\<close>

record run_check =
  rcName :: string
  rcPass :: bool
  rcDetail :: string

record 't report =
  rpStartedAt :: 't
  rpFinishedAt :: "'t option"
  rpSeed :: int64
  rpChecks :: "run_check list"
  rpFaults :: "'t fault_event list"
  rpOpsTotal :: nat
  rpOpsOK :: nat
  rpOpsFailed :: nat
  rpOpsUnknown :: nat
  rpHistoryFile :: string
  rpAllPassed :: bool

section \<open>Its text\<close>

definition check_json :: "run_check \<Rightarrow> json" where
  "check_json c = JObj [(''name'', JStr (rcName c)), (''pass'', JBool (rcPass c)), (''detail'', JStr (rcDetail c))]"

definition event_json :: "('t \<Rightarrow> string) \<Rightarrow> 't fault_event \<Rightarrow> json" where
  "event_json tt e = JObj ([(''at'', JStr (tt (feAt e))), (''action'', JStr (feAction e)), (''target'', JStr (feTarget e))] @
     (if feDetail e = '''' then [] else [(''detail'', JStr (feDetail e))]))"

definition slice_json :: "('a \<Rightarrow> json) \<Rightarrow> 'a list \<Rightarrow> json" where
  "slice_json f xs = (if xs = [] then JNull else JArr (map f xs))"

definition count_json :: "nat \<Rightarrow> json" where
  "count_json n = JNum (int_dec (int n))"

text \<open>The zero time is the first instant of the year 1.\<close>

definition report_json :: "('t \<Rightarrow> string) \<Rightarrow> 't report \<Rightarrow> json" where
  "report_json tt rep = JObj
     [(''started_at'', JStr (tt (rpStartedAt rep))),
      (''finished_at'', JStr (case rpFinishedAt rep of None \<Rightarrow> ''0001-01-01T00:00:00Z'' | Some t \<Rightarrow> tt t)),
      (''seed'', JNum (int_dec (sint (rpSeed rep)))),
      (''checks'', slice_json check_json (rpChecks rep)),
      (''faults'', slice_json (event_json tt) (rpFaults rep)),
      (''ops_total'', count_json (rpOpsTotal rep)),
      (''ops_ok'', count_json (rpOpsOK rep)),
      (''ops_failed'', count_json (rpOpsFailed rep)),
      (''ops_unknown'', count_json (rpOpsUnknown rep)),
      (''history_file'', JStr (rpHistoryFile rep)),
      (''all_passed'', JBool (rpAllPassed rep))]"

definition report_text :: "('t \<Rightarrow> string) \<Rightarrow> 't report \<Rightarrow> bytes" where
  "report_text tt rep = MarshalIndent (report_json tt rep)"

section \<open>Reading it\<close>

definition json_member :: "string \<Rightarrow> json \<Rightarrow> json option" where
  "json_member k v = (case v of JObj ms \<Rightarrow> map_of ms k | _ \<Rightarrow> None)"

lemma slice_json_ok:
  assumes "\<And>x. x \<in> set xs \<Longrightarrow> jints (f x) \<and> jdepth (f x) \<le> 1"
  shows "jints (slice_json f xs) \<and> jdepth (slice_json f xs) \<le> 2"
proof -
  have "foldr max (map jdepth (map f xs)) 0 \<le> 1" if "\<And>x. x \<in> set xs \<Longrightarrow> jdepth (f x) \<le> 1"
    using that by (induction xs) auto
  with assms show ?thesis by (auto simp: slice_json_def)
qed

lemma report_json_ok: "jints (report_json tt rep) \<and> jdepth (report_json tt rep) \<le> max_depth"
proof -
  have "jints (check_json c) \<and> jdepth (check_json c) \<le> 1" for c by (simp add: check_json_def)
  then have "jints (slice_json check_json (rpChecks rep)) \<and> jdepth (slice_json check_json (rpChecks rep)) \<le> 2"
    by (rule slice_json_ok)
  moreover have "jints (event_json tt e) \<and> jdepth (event_json tt e) \<le> 1" for e :: "'a fault_event" by (auto simp: event_json_def)
  then have "jints (slice_json (event_json tt) (rpFaults rep)) \<and> jdepth (slice_json (event_json tt) (rpFaults rep)) \<le> 2"
    by (rule slice_json_ok)
  ultimately have "jints (report_json tt rep)" "jdepth (report_json tt rep) \<le> 3"
    by (auto simp: report_json_def count_json_def)
  then show ?thesis by (simp add: max_depth_def)
qed

lemma report_text_reads: "json_text (report_text tt rep) = Some (jsan (report_json tt rep))"
  by (simp add: report_text_def json_text_MarshalIndent report_json_ok)

text \<open>What a reader finds: the verdict and, check by check, what it rests on.\<close>

lemma report_members:
  "json_member ''all_passed'' (jsan (report_json tt rep)) = Some (JBool (rpAllPassed rep))"
  "json_member ''checks'' (jsan (report_json tt rep)) = Some (slice_json (jsan \<circ> check_json) (rpChecks rep))"
  "json_member ''ops_total'' (jsan (report_json tt rep)) = Some (count_json (rpOpsTotal rep))"
  "json_member ''name'' (jsan (check_json c)) = Some (JStr (to_valid (rcName c)))"
  "json_member ''pass'' (jsan (check_json c)) = Some (JBool (rcPass c))"
  by (simp_all add: json_member_def report_json_def check_json_def slice_json_def count_json_def)

end
