(* ===== verification/Linearizability.thy ===== *)
theory Linearizability
  imports Prelude
begin

text \<open>
  What a linearizability checker decides. The checker itself, Porcupine, is a third-party
  package: its interface is modelled (operations with a call and a return time, a model
  with a partition function), the verdict it documents is defined here as the existence of
  a sequential order of each part, and the checker is a parameter that the locale
  \<open>porcupine_contract\<close> ties to that definition. A small exhaustive search, proved correct,
  shows that the contract can be met.
\<close>

section \<open>Operations and models\<close>

record ('i, 'o) operation =
  opClientId :: int64
  opInput :: 'i
  opCall :: int64
  opOutput :: 'o
  opReturn :: int64

record ('s, 'i, 'o) pmodel =
  pmPartition :: "('i, 'o) operation list \<Rightarrow> ('i, 'o) operation list list"
  pmInit :: 's
  pmStep :: "'s \<Rightarrow> 'i \<Rightarrow> 'o \<Rightarrow> bool \<times> 's"
  pmEqual :: "'s \<Rightarrow> 's \<Rightarrow> bool"

datatype check_result = CheckOk | CheckIllegal | CheckUnknown

text \<open>\<open>b\<close> may stand after \<open>a\<close>: it did not return before \<open>a\<close> was called. Both ends of an
  operation's interval belong to it.\<close>

definition may_follow :: "('i, 'o) operation \<Rightarrow> ('i, 'o) operation \<Rightarrow> bool" where
  "may_follow a b \<longleftrightarrow> \<not> sint (opReturn b) < sint (opCall a)"

definition real_time :: "('i, 'o) operation list \<Rightarrow> bool" where
  "real_time l \<longleftrightarrow> sorted_wrt may_follow l"

fun accepts :: "('s \<Rightarrow> 'i \<Rightarrow> 'o \<Rightarrow> bool \<times> 's) \<Rightarrow> 's \<Rightarrow> ('i, 'o) operation list \<Rightarrow> bool" where
  "accepts step s [] = True"
| "accepts step s (a # l) =
     (let (ok, s') = step s (opInput a) (opOutput a) in ok \<and> accepts step s' l)"

definition linearization :: "('s \<Rightarrow> 'i \<Rightarrow> 'o \<Rightarrow> bool \<times> 's) \<Rightarrow> 's \<Rightarrow> ('i, 'o) operation list \<Rightarrow>
    ('i, 'o) operation list \<Rightarrow> bool" where
  "linearization step s ops l \<longleftrightarrow> mset l = mset ops \<and> real_time l \<and> accepts step s l"

definition linearizable :: "('s, 'i, 'o) pmodel \<Rightarrow> ('i, 'o) operation list \<Rightarrow> bool" where
  "linearizable m ops \<longleftrightarrow>
     (\<forall>part \<in> set (pmPartition m ops). \<exists>l. linearization (pmStep m) (pmInit m) part l)"

definition well_formed :: "('i, 'o) operation list \<Rightarrow> bool" where
  "well_formed ops \<longleftrightarrow> list_all (\<lambda>a. sint (opCall a) \<le> sint (opReturn a)) ops"

lemma linearization_mset: "mset xs = mset ys \<Longrightarrow> linearization step s xs l = linearization step s ys l"
  by (simp add: linearization_def)

lemma real_time_filter: "real_time l \<Longrightarrow> real_time (filter P l)"
  unfolding real_time_def by (rule sorted_wrt_filter)

definition run_state :: "('s \<Rightarrow> 'i \<Rightarrow> 'o \<Rightarrow> bool \<times> 's) \<Rightarrow> 's \<Rightarrow> ('i, 'o) operation list \<Rightarrow> 's" where
  "run_state step s l = fold (\<lambda>a s. snd (step s (opInput a) (opOutput a))) l s"

lemma accepts_append:
  "accepts step s (xs @ ys) \<longleftrightarrow> accepts step s xs \<and> accepts step (run_state step s xs) ys"
  by (induction xs arbitrary: s) (auto simp: Let_def case_prod_beta run_state_def)

lemma run_state_inv:
  assumes "P s" and "\<And>s a. P s \<Longrightarrow> a \<in> set l \<Longrightarrow> P (snd (step s (opInput a) (opOutput a)))"
  shows "P (run_state step s l)"
  using assms by (induction l arbitrary: s) (simp_all add: run_state_def)

lemma linearization_order:
  assumes "real_time (xs @ a # ys)" and "b \<in> set ys"
  shows "\<not> sint (opReturn b) < sint (opCall a)"
  using assms by (auto simp: real_time_def sorted_wrt_append may_follow_def)

lemma linearization_split:
  assumes "linearization step s ops l" and "a \<in> set ops" and "b \<in> set ops" and "a \<noteq> b"
    and "sint (opReturn a) < sint (opCall b)"
  shows "\<exists>xs ys zs. l = xs @ a # ys @ b # zs"
proof -
  from assms(1) have m: "mset l = mset ops" and rt: "real_time l" by (auto simp: linearization_def)
  from assms(2) mset_eq_setD [OF m] obtain xs ys where l: "l = xs @ a # ys" by (metis split_list)
  have "b \<notin> set xs"
  proof
    assume "b \<in> set xs"
    then obtain us vs where "xs = us @ b # vs" by (metis split_list)
    with linearization_order [of us b "vs @ a # ys" a] rt l assms(5) show False by simp
  qed
  moreover have "b \<in> set l" using assms(3) mset_eq_setD [OF m] by simp
  ultimately have "b \<in> set ys" using l assms(4) by simp
  with l show ?thesis by (metis split_list)
qed

lemma accepts_snoc:
  "(\<And>s. fst (step s (opInput a) (opOutput a))) \<Longrightarrow> accepts step s (l @ [a]) = accepts step s l"
  by (induction l arbitrary: s) (auto simp: Let_def case_prod_beta)

lemma accepts_map:
  "(\<And>a. opInput (g a) = opInput a \<and> opOutput (g a) = opOutput a) \<Longrightarrow>
   accepts step s (map g l) = accepts step s l"
  by (induction l arbitrary: s) (auto simp: Let_def case_prod_beta)

section \<open>An exhaustive search\<close>

text \<open>The ways to take one element out of a list.\<close>

fun picks :: "'a list \<Rightarrow> ('a \<times> 'a list) list" where
  "picks [] = []"
| "picks (x # xs) = (x, xs) # map (\<lambda>(y, ys). (y, x # ys)) (picks xs)"

lemma picks_mset: "(x, r) \<in> set (picks xs) \<Longrightarrow> mset xs = add_mset x (mset r)"
  by (induction xs arbitrary: r) auto

lemma picks_length: "(x, r) \<in> set (picks xs) \<Longrightarrow> length r < length xs"
  by (drule picks_mset) (metis lessI size_add_mset size_mset)

lemma picks_complete: "x \<in> set xs \<Longrightarrow> \<exists>r. (x, r) \<in> set (picks xs)"
  by (induction xs) (fastforce simp: image_iff)+

text \<open>Wing and Gong's search: some operation that nothing left precedes goes first, if the
  model accepts it there and the rest can be ordered after it.\<close>

function search :: "('s \<Rightarrow> 'i \<Rightarrow> 'o \<Rightarrow> bool \<times> 's) \<Rightarrow> 's \<Rightarrow> ('i, 'o) operation list \<Rightarrow> bool" where
  "search step s ops =
     (if ops = [] then True
      else list_ex (\<lambda>(a, r).
        list_all (may_follow a) r \<and> fst (step s (opInput a) (opOutput a)) \<and>
        search step (snd (step s (opInput a) (opOutput a))) r) (picks ops))"
  by pat_completeness auto
termination
  by (relation "measure (\<lambda>(step, s, ops). length ops)") (auto dest: picks_length)

declare search.simps [simp del]

lemma linearization_pick:
  assumes "(a, r) \<in> set (picks ops)"
  shows "linearization step s ops (a # l) \<longleftrightarrow>
    list_all (may_follow a) r \<and> fst (step s (opInput a) (opOutput a)) \<and>
    linearization step (snd (step s (opInput a) (opOutput a))) r l"
proof -
  have "mset (a # l) = mset ops \<longleftrightarrow> mset l = mset r"
    using picks_mset [OF assms] by simp
  moreover have "mset l = mset r \<Longrightarrow> set l = set r"
    by (rule mset_eq_setD)
  ultimately have "mset (a # l) = mset ops \<and> list_all (may_follow a) l \<longleftrightarrow>
      mset l = mset r \<and> list_all (may_follow a) r"
    unfolding list_all_iff by metis
  moreover have "linearization step s ops (a # l) \<longleftrightarrow>
      (mset (a # l) = mset ops \<and> list_all (may_follow a) l) \<and> real_time l \<and>
      fst (step s (opInput a) (opOutput a)) \<and> accepts step (snd (step s (opInput a) (opOutput a))) l"
    unfolding linearization_def real_time_def sorted_wrt.simps accepts.simps list_all_iff Let_def
      case_prod_beta
    by blast
  moreover have "linearization step (snd (step s (opInput a) (opOutput a))) r l \<longleftrightarrow>
      mset l = mset r \<and> real_time l \<and> accepts step (snd (step s (opInput a) (opOutput a))) l"
    by (rule linearization_def)
  ultimately show ?thesis
    by argo
qed

lemma linearization_starts:
  assumes "ops \<noteq> []" and "linearization step s ops l"
  shows "\<exists>a r l'. l = a # l' \<and> (a, r) \<in> set (picks ops)"
proof -
  have m: "mset l = mset ops" using assms(2) by (simp add: linearization_def)
  then obtain a l' where l: "l = a # l'" using assms(1) by (cases l) auto
  then have "a \<in> set ops" using mset_eq_setD [OF m] by (metis list.set_intros(1))
  then obtain r where "(a, r) \<in> set (picks ops)" using picks_complete [of a ops] by auto
  with l show ?thesis by (intro exI [of _ a] exI [of _ r] exI [of _ l']) simp
qed

lemma search_iff: "search step s ops \<longleftrightarrow> (\<exists>l. linearization step s ops l)"
proof (induction step s ops rule: search.induct)
  case (1 step s ops)
  show ?case
  proof (cases "ops = []")
    case True
    then show ?thesis by (simp add: search.simps linearization_def real_time_def)
  next
    case False
    have IH: "search step (snd (step s (opInput a) (opOutput a))) r \<longleftrightarrow>
        (\<exists>l. linearization step (snd (step s (opInput a) (opOutput a))) r l)"
      if "(a, r) \<in> set (picks ops)" for a r
      using 1 [OF False that] by simp
    have "search step s ops \<longleftrightarrow> (\<exists>a r. (a, r) \<in> set (picks ops) \<and> list_all (may_follow a) r \<and>
        fst (step s (opInput a) (opOutput a)) \<and> search step (snd (step s (opInput a) (opOutput a))) r)"
      using False by (subst search.simps) (auto simp: list_ex_iff)
    also have "\<dots> \<longleftrightarrow> (\<exists>a r. (a, r) \<in> set (picks ops) \<and> (\<exists>l. linearization step s ops (a # l)))"
      using IH linearization_pick [of _ _ ops step s] by meson
    also have "\<dots> \<longleftrightarrow> (\<exists>l. linearization step s ops l)"
      using linearization_starts [OF False] by metis
    finally show ?thesis .
  qed
qed

lemma linearizable_search:
  "linearizable m ops \<longleftrightarrow> list_all (search (pmStep m) (pmInit m)) (pmPartition m ops)"
  by (simp add: linearizable_def list_all_iff search_iff)

section \<open>The checker's contract\<close>

text \<open>
  The verdicts Porcupine documents: \<open>Ok\<close> for a linearizable history, \<open>Illegal\<close> for one
  that is not, \<open>Unknown\<close> when the timeout struck first. It is asked about operations that
  return no earlier than they are called.
\<close>

locale porcupine_contract =
  fixes m :: "('s, 'i, 'o) pmodel"
    and check :: "('s, 'i, 'o) pmodel \<Rightarrow> ('i, 'o) operation list \<Rightarrow> int64 \<Rightarrow> check_result \<times> 'info"
  assumes check_ok: "well_formed ops \<Longrightarrow> fst (check m ops t) = CheckOk \<Longrightarrow> linearizable m ops"
    and check_illegal: "well_formed ops \<Longrightarrow> fst (check m ops t) = CheckIllegal \<Longrightarrow> \<not> linearizable m ops"
begin

lemma check_decides:
  "well_formed ops \<Longrightarrow> fst (check m ops t) \<noteq> CheckUnknown \<Longrightarrow>
   fst (check m ops t) = CheckOk \<longleftrightarrow> linearizable m ops"
  using check_ok check_illegal by (cases "fst (check m ops t)") auto

lemma rejects: "well_formed ops \<Longrightarrow> \<not> linearizable m ops \<Longrightarrow> fst (check m ops t) \<noteq> CheckOk"
  using check_ok by blast

end

text \<open>The search as a checker.\<close>

definition search_check :: "('s, 'i, 'o) pmodel \<Rightarrow> ('i, 'o) operation list \<Rightarrow> int64 \<Rightarrow> check_result \<times> unit" where
  "search_check m ops t =
     (if list_all (search (pmStep m) (pmInit m)) (pmPartition m ops) then CheckOk else CheckIllegal, ())"

lemma search_check_contract: "porcupine_contract m search_check"
  by unfold_locales (auto simp: search_check_def linearizable_search split: if_splits)

section \<open>Orders of all keys from orders of each key\<close>

text \<open>
  Linearizability is local: orders of the operations on each key, each respecting real
  time, can be merged into one order of all operations that respects real time. The
  operation at a position of its key's order is given the latest call up to that position
  as its point in time; it lies in the operation's interval, and sorting by these points
  merges the orders.
\<close>

fun points :: "int \<Rightarrow> ('i, 'o) operation list \<Rightarrow> (int \<times> ('i, 'o) operation) list" where
  "points p [] = []"
| "points p (a # l) = (let q = max p (sint (opCall a)) in (q, a) # points q l)"

lemma map_snd_points [simp]: "map snd (points p l) = l"
  by (induction l arbitrary: p) (auto simp: Let_def)

lemma points_ge: "(q, a) \<in> set (points p l) \<Longrightarrow> p \<le> q \<and> sint (opCall a) \<le> q"
  by (induction l arbitrary: p) (auto simp: Let_def, force+)

lemma points_sorted: "sorted (map fst (points p l))"
  by (induction l arbitrary: p) (auto simp: Let_def dest!: points_ge)

lemma points_le_return:
  assumes "real_time l" and "well_formed l" and "\<forall>a \<in> set l. p \<le> sint (opReturn a)"
    and "(q, a) \<in> set (points p l)"
  shows "q \<le> sint (opReturn a)"
  using assms
proof (induction l arbitrary: p)
  case (Cons b l)
  let ?p = "max p (sint (opCall b))"
  have "\<forall>a \<in> set l. ?p \<le> sint (opReturn a)"
    using Cons.prems(1,3) by (auto simp: real_time_def may_follow_def)
  moreover have "real_time l" "well_formed l" and b: "?p \<le> sint (opReturn b)"
    using Cons.prems(1-3) by (auto simp: real_time_def well_formed_def)
  ultimately have "(q, a) \<in> set (points ?p l) \<Longrightarrow> ?thesis"
    using Cons.IH by blast
  then show ?case
    using Cons.prems(4) b by (auto simp: Let_def)
qed simp

definition merge_points :: "(int \<times> ('i, 'o) operation) list \<Rightarrow> ('i, 'o) operation list" where
  "merge_points ps = map snd (sort_key fst ps)"

lemma merge_points_real_time:
  assumes "\<forall>(q, a) \<in> set ps. sint (opCall a) \<le> q \<and> q \<le> sint (opReturn a)"
  shows "real_time (merge_points ps)"
proof -
  have "sorted_wrt (\<lambda>x y. fst x \<le> fst y) (sort_key fst ps)"
    using sorted_sort_key [of fst ps] by (simp add: sorted_map)
  then have "sorted_wrt (\<lambda>x y. may_follow (snd x) (snd y)) (sort_key fst ps)"
  proof (rule sorted_wrt_mono_rel [rotated])
    fix x y assume "x \<in> set (sort_key fst ps)" "y \<in> set (sort_key fst ps)" "fst x \<le> fst y"
    with assms have "sint (opCall (snd x)) \<le> fst x" "fst y \<le> sint (opReturn (snd y))"
      by (auto simp: case_prod_beta)
    with \<open>fst x \<le> fst y\<close> show "may_follow (snd x) (snd y)"
      by (simp add: may_follow_def)
  qed
  then show ?thesis
    by (simp add: real_time_def merge_points_def sorted_wrt_map)
qed

end
