(* ===== verification/Checker.thy ===== *)
theory Checker
  imports Linearizability History Fsm
begin

text \<open>
  \<open>internal/checker/checker.go\<close>: the model of one key that Porcupine checks a history
  against, the conversion of recorded operations, and the verdict. The model's step is
  proved to be the replicated state machine's, seen at one key; with the locality of
  linearizability this makes the verdict a statement about the state machine itself:
  some order of the operations, respecting real time, is explained by one run of it.
  How Go quotes a string (\<open>%q\<close>) is a parameter of the description of an operation.
\<close>

section \<open>The model of a key\<close>

record kvInput =
  iOp :: string
  iKey :: string
  iVal :: string
  iExpect :: "string option"

record kvOutput =
  oUnknown :: bool
  oOk :: bool
  oPresent :: bool
  oVal :: string

record kvState =
  stPresent :: bool
  stVal :: string

type_synonym kvop = "(kvInput, kvOutput) operation"

definition zero_state :: kvState where
  "zero_state = \<lparr>stPresent = False, stVal = ''''\<rparr>"

definition stateMatches :: "kvState \<Rightarrow> string option \<Rightarrow> bool" where
  "stateMatches st expect =
     (case expect of None \<Rightarrow> \<not> stPresent st | Some e \<Rightarrow> stPresent st \<and> stVal st = e)"

text \<open>\<open>byKey[k] = append(byKey[k], op)\<close>; the map is kept in the order its keys appeared. Go
  visits a map in no fixed order, and nothing below depends on the order of the parts.\<close>

fun add_to :: "string \<Rightarrow> 'a \<Rightarrow> (string \<times> 'a list) list \<Rightarrow> (string \<times> 'a list) list" where
  "add_to k x [] = [(k, [x])]"
| "add_to k x ((k', xs) # m) = (if k' = k then (k', xs @ [x]) # m else (k', xs) # add_to k x m)"

definition Model_Partition :: "kvop list \<Rightarrow> kvop list list" where
  "Model_Partition ops = map snd (fold (\<lambda>op byKey. add_to (iKey (opInput op)) op byKey) ops [])"

definition Model_Step :: "kvState \<Rightarrow> kvInput \<Rightarrow> kvOutput \<Rightarrow> bool \<times> kvState" where
  "Model_Step st inp out =
     (if iOp inp = ''put'' then (True, \<lparr>stPresent = True, stVal = iVal inp\<rparr>)
      else if iOp inp = ''delete'' then (True, zero_state)
      else if iOp inp = ''get'' then
        (oPresent out = stPresent st \<and> (\<not> stPresent st \<or> oVal out = stVal st), st)
      else if iOp inp = ''cas'' then
        (let matches = stateMatches st (iExpect inp) in
         if oUnknown out then
           (if matches then (True, \<lparr>stPresent = True, stVal = iVal inp\<rparr>) else (True, st))
         else if oOk out then (matches, \<lparr>stPresent = True, stVal = iVal inp\<rparr>)
         else (\<not> matches, st))
      else (False, st))"

definition Model :: "(kvState, kvInput, kvOutput) pmodel" where
  "Model = \<lparr>pmPartition = Model_Partition, pmInit = zero_state, pmStep = Model_Step,
     pmEqual = (\<lambda>a b. a = b)\<rparr>"

section \<open>Descriptions\<close>

text \<open>The texts of the visualisation; \<open>q\<close> is \<open>%q\<close>.\<close>

definition describeOut :: "(string \<Rightarrow> string) \<Rightarrow> kvOutput \<Rightarrow> string" where
  "describeOut q out =
     (if oUnknown out then ''unknown''
      else if oVal out \<noteq> '''' \<or> oPresent out then
        ''ok='' @ btoa (oOk out) @ '' present='' @ btoa (oPresent out) @ '' val='' @ q (oVal out)
      else ''ok='' @ btoa (oOk out))"

definition DescribeOperation :: "(string \<Rightarrow> string) \<Rightarrow> kvInput \<Rightarrow> kvOutput \<Rightarrow> string" where
  "DescribeOperation q inp out =
     (let exp = (case iExpect inp of None \<Rightarrow> ''<absent>'' | Some e \<Rightarrow> e) in
      if iOp inp = ''put'' then ''put('' @ iKey inp @ '', '' @ iVal inp @ '') -> '' @ describeOut q out
      else if iOp inp = ''get'' then ''get('' @ iKey inp @ '') -> '' @ describeOut q out
      else if iOp inp = ''delete'' then ''delete('' @ iKey inp @ '') -> '' @ describeOut q out
      else if iOp inp = ''cas'' then
        ''cas('' @ iKey inp @ '', '' @ exp @ '' => '' @ iVal inp @ '') -> '' @ describeOut q out
      else ''?'')"

text \<open>The text of an answer determines it, if quoting is injective; no answer reads as \<open>unknown\<close>. An
  absent key and the expectation of the text \<open><absent>\<close> read alike.\<close>

lemma describeOut_inj:
  assumes "inj q" and "describeOut q a = describeOut q b"
  shows "oUnknown a = oUnknown b" and
    "\<not> oUnknown a \<Longrightarrow> oOk a = oOk b \<and> oPresent a = oPresent b \<and> oVal a = oVal b"
  using assms by (auto simp: describeOut_def btoa_def inj_eq split: if_splits)

lemma DescribeOperation_absent:
  "DescribeOperation q (inp\<lparr>iExpect := None\<rparr>) out = DescribeOperation q (inp\<lparr>iExpect := Some ''<absent>''\<rparr>) out"
  by (simp add: DescribeOperation_def)

section \<open>Recorded operations\<close>

definition max_end :: "hop list \<Rightarrow> int64" where
  "max_end ops = fold (\<lambda>op maxEnd.
     (let m = (if sint maxEnd < sint (hEndNs op) then hEndNs op else maxEnd) in
      if sint m < sint (hStartNs op) then hStartNs op else m)) ops 0"

text \<open>The body of the loop: the operations it appends, given the horizon.\<close>

definition to_operation :: "int64 \<Rightarrow> hop \<Rightarrow> kvop list" where
  "to_operation horizon op =
     (let inp = \<lparr>iOp = hOp op, iKey = hKey op, iVal = hValue op, iExpect = hExpect op\<rparr>;
          unknown = \<lparr>opClientId = hClient op, opInput = inp, opCall = hStartNs op,
            opOutput = \<lparr>oUnknown = True, oOk = False, oPresent = False, oVal = ''''\<rparr>,
            opReturn = horizon\<rparr>
      in
      if hOutcome op = OutcomeFailed then []
      else if hOutcome op = OutcomeUnknown then (if hOp op = ''get'' then [] else [unknown])
      else if hOutcome op = OutcomeOK then
        [\<lparr>opClientId = hClient op, opInput = inp, opCall = hStartNs op,
          opOutput = \<lparr>oUnknown = False, oOk = hOk op, oPresent = hPresent op, oVal = hRetVal op\<rparr>,
          opReturn = hEndNs op\<rparr>]
      else [unknown])"

definition ToOperations :: "hop list \<Rightarrow> kvop list" where
  "ToOperations ops = (let horizon = max_end ops + 1 in concat (map (to_operation horizon) ops))"

record 'info check_report =
  crLinearizable :: bool
  crOps :: nat
  crInfo :: 'info

definition Check :: "((kvState, kvInput, kvOutput) pmodel \<Rightarrow> kvop list \<Rightarrow> int64 \<Rightarrow> check_result \<times> 'info) \<Rightarrow>
    hop list \<Rightarrow> int64 \<Rightarrow> 'info check_report" where
  "Check porcupine ops timeout =
     (let pops = ToOperations ops; (res, info) = porcupine Model pops timeout in
      \<lparr>crLinearizable = (res = CheckOk), crOps = length pops, crInfo = info\<rparr>)"

section \<open>The parts are the operations of each key\<close>

abbreviation op_key :: "kvop \<Rightarrow> string" where
  "op_key a \<equiv> iKey (opInput a)"

definition key_ops :: "string \<Rightarrow> kvop list \<Rightarrow> kvop list" where
  "key_ops k ops = filter (\<lambda>a. op_key a = k) ops"

lemma key_ops_simps [simp]:
  "key_ops k [] = []" "key_ops k (a # l) = (if op_key a = k then a # key_ops k l else key_ops k l)"
  "key_ops k (xs @ ys) = key_ops k xs @ key_ops k ys"
  by (simp_all add: key_ops_def)

lemma map_fst_add_to: "map fst (add_to k x m) = (if k \<in> set (map fst m) then map fst m else map fst m @ [k])"
  by (induction m) (auto simp del: set_map)

lemma add_to_distinct: "distinct (map fst m) \<Longrightarrow> distinct (map fst (add_to k x m))"
  by (simp add: map_fst_add_to) 

lemma map_of_add_to:
  "map_of (add_to k x m) j =
     (if j = k then Some (case map_of m k of None \<Rightarrow> [x] | Some xs \<Rightarrow> xs @ [x]) else map_of m j)"
  by (induction m) auto

definition by_key :: "kvop list \<Rightarrow> (string \<times> kvop list) list" where
  "by_key ops = fold (\<lambda>op m. add_to (op_key op) op m) ops []"

lemma by_key_snoc: "by_key (ops @ [a]) = add_to (op_key a) a (by_key ops)"
  by (simp add: by_key_def)

lemma by_key_distinct: "distinct (map fst (by_key ops))"
  by (induction ops rule: rev_induct) (simp_all add: by_key_snoc add_to_distinct, simp add: by_key_def)

lemma map_of_by_key:
  "map_of (by_key ops) k = (if key_ops k ops = [] then None else Some (key_ops k ops))"
  by (induction ops rule: rev_induct)
    (simp add: by_key_def, auto simp: by_key_snoc map_of_add_to split: option.splits if_splits)

lemma partition_key_ops:
  "p \<in> set (Model_Partition ops) \<longleftrightarrow> (\<exists>k. key_ops k ops \<noteq> [] \<and> p = key_ops k ops)"
proof -
  have "p \<in> set (Model_Partition ops) \<longleftrightarrow> (\<exists>k. (k, p) \<in> set (by_key ops))"
    by (force simp: Model_Partition_def by_key_def)
  also have "\<dots> \<longleftrightarrow> (\<exists>k. map_of (by_key ops) k = Some p)"
    using by_key_distinct [of ops] by (metis map_of_SomeD map_of_is_SomeI)
  also have "\<dots> \<longleftrightarrow> (\<exists>k. key_ops k ops \<noteq> [] \<and> p = key_ops k ops)"
    by (auto simp: map_of_by_key)
  finally show ?thesis .
qed

lemma linearizable_keys:
  "linearizable Model ops \<longleftrightarrow>
     (\<forall>k. \<exists>l. linearization Model_Step zero_state (key_ops k ops) l)"
proof -
  have nil: "linearization Model_Step zero_state [] []"
    by (simp add: linearization_def real_time_def)
  have "(\<forall>part \<in> set (Model_Partition ops). \<exists>l. linearization Model_Step zero_state part l) \<longleftrightarrow>
      (\<forall>k. key_ops k ops \<noteq> [] \<longrightarrow> (\<exists>l. linearization Model_Step zero_state (key_ops k ops) l))"
    unfolding Ball_def partition_key_ops by blast
  also have "\<dots> \<longleftrightarrow> (\<forall>k. \<exists>l. linearization Model_Step zero_state (key_ops k ops) l)"
    using nil by metis
  finally show ?thesis
    by (simp add: linearizable_def Model_def)
qed

section \<open>The step is the state machine's\<close>

definition kv_at :: "fsm \<Rightarrow> string \<Rightarrow> kvState" where
  "kv_at f k = (case fsm_get f k of None \<Rightarrow> zero_state | Some v \<Rightarrow> \<lparr>stPresent = True, stVal = v\<rparr>)"

definition op_command :: "kvInput \<Rightarrow> command" where
  "op_command inp = \<lparr>cOp = iOp inp, cKey = iKey inp, cValue = iVal inp, cExpect = iExpect inp\<rparr>"

text \<open>What a client may have been told when the state machine's result is \<open>r\<close>.\<close>

definition explains :: "kvInput \<Rightarrow> result \<Rightarrow> kvOutput \<Rightarrow> bool" where
  "explains inp r out \<longleftrightarrow>
     (iOp inp = OpGet \<longrightarrow> oPresent out = rPresent r \<and> (rPresent r \<longrightarrow> oVal out = rValue r)) \<and>
     (iOp inp = OpCAS \<longrightarrow> oUnknown out \<or> oOk out = rOk r)"

fun fsm_explains :: "fsm \<Rightarrow> kvop list \<Rightarrow> bool" where
  "fsm_explains f [] = True"
| "fsm_explains f (a # l) = (case apply_command f (op_command (opInput a)) of
     Inl p \<Rightarrow> False
   | Inr (r, f') \<Rightarrow> explains (opInput a) r (opOutput a) \<and> fsm_explains f' l)"

lemma kv_at_inject: "kv_at f k = kv_at g k \<longleftrightarrow> fsm_get f k = fsm_get g k"
  by (auto simp: kv_at_def zero_state_def split: option.splits)

lemma stateMatches_kv_at: "stateMatches (kv_at f k) e \<longleftrightarrow> fsm_get f k = e"
  by (auto simp: stateMatches_def kv_at_def zero_state_def split: option.splits)

lemma step_is_apply:
  assumes "fData f \<noteq> NilMap"
  shows "case apply_command f (op_command inp) of
     Inl p \<Rightarrow> \<not> fst (Model_Step (kv_at f (iKey inp)) inp out)
   | Inr (r, f') \<Rightarrow> fst (Model_Step (kv_at f (iKey inp)) inp out) = explains inp r out \<and>
       (explains inp r out \<longrightarrow> snd (Model_Step (kv_at f (iKey inp)) inp out) = kv_at f' (iKey inp)) \<and>
       (\<forall>k. k \<noteq> iKey inp \<longrightarrow> kv_at f' k = kv_at f k) \<and> fData f' \<noteq> NilMap"
proof (cases "known_op (op_command inp)")
  case True
  obtain f' where ap: "apply_command f (op_command inp) = Inr (spec_result (op_command inp) (fsm_get f), f')"
    and get: "fsm_get f' = spec_update (op_command inp) (fsm_get f)" and nn: "fData f' \<noteq> NilMap"
    using apply_command_spec [OF assms True] by blast
  have other: "kv_at f' k = kv_at f k" if "k \<noteq> iKey inp" for k
    using that by (simp add: kv_at_inject get spec_update_def op_command_def)
  consider "iOp inp = OpPut" | "iOp inp = OpGet" | "iOp inp = OpDelete" | "iOp inp = OpCAS"
    using True by (auto simp: known_op_def op_command_def)
  then have "fst (Model_Step (kv_at f (iKey inp)) inp out) = explains inp (spec_result (op_command inp) (fsm_get f)) out \<and>
       (explains inp (spec_result (op_command inp) (fsm_get f)) out \<longrightarrow>
         snd (Model_Step (kv_at f (iKey inp)) inp out) = kv_at f' (iKey inp))"
    by cases (auto simp: Model_Step_def op_defs explains_def spec_result_def spec_update_def op_command_def get
        kv_at_def stateMatches_def Let_def cas_matches_def zero_state_def split: option.splits)
  with ap other nn show ?thesis by simp
next
  case False
  then show ?thesis
    by (auto simp: apply_command_def known_op_def op_command_def Model_Step_def op_defs)
qed


section \<open>One run of the state machine\<close>

lemma fsm_explains_keys:
  "fData f \<noteq> NilMap \<Longrightarrow>
   fsm_explains f l \<longleftrightarrow> (\<forall>k. accepts Model_Step (kv_at f k) (key_ops k l))"
proof (induction l arbitrary: f)
  case (Cons a l)
  note step = step_is_apply [OF Cons.prems, of "opInput a" "opOutput a"]
  let ?k = "op_key a"
  have split: "(\<forall>k. accepts Model_Step (kv_at f k) (key_ops k (a # l))) \<longleftrightarrow>
      accepts Model_Step (kv_at f ?k) (a # key_ops ?k l) \<and>
      (\<forall>k. k \<noteq> ?k \<longrightarrow> accepts Model_Step (kv_at f k) (key_ops k l))"
    by (metis key_ops_simps(2))
  show ?case
  proof (cases "apply_command f (op_command (opInput a))")
    case (Inl p)
    with step split show ?thesis by (simp add: case_prod_beta)
  next
    case (Inr rf)
    obtain r f' where rf: "rf = (r, f')" by (cases rf)
    have ok: "fst (Model_Step (kv_at f ?k) (opInput a) (opOutput a)) = explains (opInput a) r (opOutput a)"
      and here: "explains (opInput a) r (opOutput a) \<Longrightarrow>
        snd (Model_Step (kv_at f ?k) (opInput a) (opOutput a)) = kv_at f' ?k"
      and other: "\<And>k. k \<noteq> ?k \<Longrightarrow> kv_at f' k = kv_at f k" and nn: "fData f' \<noteq> NilMap"
      using step Inr rf by auto
    have "fsm_explains f (a # l) \<longleftrightarrow> explains (opInput a) r (opOutput a) \<and>
        (\<forall>k. accepts Model_Step (kv_at f' k) (key_ops k l))"
      using Inr rf Cons.IH [OF nn] by simp
    also have "\<dots> \<longleftrightarrow> (\<forall>k. accepts Model_Step (kv_at f k) (key_ops k (a # l)))"
      unfolding split accepts.simps Let_def case_prod_beta ok by (metis here other)
    finally show ?thesis .
  qed
qed simp

lemma real_time_key_ops: "real_time l \<Longrightarrow> real_time (key_ops k l)"
  unfolding key_ops_def by (rule real_time_filter)

lemma well_formed_mset: "mset l = mset ops \<Longrightarrow> well_formed ops \<Longrightarrow> well_formed l"
  unfolding well_formed_def list_all_iff by (metis mset_eq_setD)

lemma key_ops_merge:
  assumes "distinct ks" and "\<And>j b. b \<in> set (ord j) \<Longrightarrow> op_key b = j"
  shows "key_ops k (merge_points (concat (map (\<lambda>j. points p (ord j)) ks))) = (if k \<in> set ks then ord k else [])"
proof -
  let ?P = "\<lambda>x. op_key (snd x) = k"
  have part: "filter ?P (points p (ord j)) = (if j = k then points p (ord j) else [])" for j
  proof -
    have "op_key (snd x) = j" if "x \<in> set (points p (ord j))" for x
      using that assms(2) map_snd_points [of p "ord j"] by (metis image_eqI image_set)
    then show ?thesis
      by (auto simp: filter_id_conv filter_empty_conv)
  qed
  have "filter ?P (concat (map (\<lambda>j. points p (ord j)) ks)) =
      concat (map (\<lambda>j. if j = k then points p (ord j) else []) ks)"
    by (simp add: filter_concat comp_def part)
  also have "\<dots> = (if k \<in> set ks then points p (ord k) else [])"
    using assms(1) by (induction ks) auto
  finally have f: "filter ?P (concat (map (\<lambda>j. points p (ord j)) ks)) = (if k \<in> set ks then points p (ord k) else [])" .
  have "key_ops k (merge_points ps) = map snd (filter ?P (sort_key fst ps))" for ps :: "(int \<times> kvop) list"
    by (simp add: key_ops_def merge_points_def filter_map comp_def)
  then have "key_ops k (merge_points (concat (map (\<lambda>j. points p (ord j)) ks))) =
      map snd (sort_key fst (if k \<in> set ks then points p (ord k) else []))"
    by (simp add: filter_sort f)
  then show ?thesis
    by (simp add: sort_key_id [OF points_sorted])
qed


lemma kv_at_NewFSM: "kv_at NewFSM k = zero_state"
  by (simp add: kv_at_def NewFSM_def fsm_get_def gomap_get_def)

lemma mset_eqI_keys: "(\<And>k. mset (key_ops k l) = mset (key_ops k ops)) \<Longrightarrow> mset l = mset ops"
proof (rule multiset_eqI)
  fix a assume "\<And>k. mset (key_ops k l) = mset (key_ops k ops)"
  then have "count (mset (key_ops (op_key a) l)) a = count (mset (key_ops (op_key a) ops)) a"
    by simp
  then show "count (mset l) a = count (mset ops) a"
    by (simp add: key_ops_def)
qed

definition fsm_order :: "kvop list \<Rightarrow> kvop list \<Rightarrow> bool" where
  "fsm_order ops l \<longleftrightarrow> mset l = mset ops \<and> real_time l \<and> fsm_explains NewFSM l"

lemma fsm_explains_NewFSM:
  "fsm_explains NewFSM l \<longleftrightarrow> (\<forall>k. accepts Model_Step zero_state (key_ops k l))"
  by (subst fsm_explains_keys) (simp_all add: kv_at_NewFSM, simp add: NewFSM_def)

lemma linearizable_if_order: "fsm_order ops l \<Longrightarrow> linearizable Model ops"
  unfolding linearizable_keys fsm_order_def linearization_def fsm_explains_NewFSM
  by (metis key_ops_def mset_filter real_time_key_ops)

lemma order_if_linearizable:
  assumes "well_formed ops" and "linearizable Model ops"
  shows "\<exists>l. fsm_order ops l"
proof -
  from assms(2) obtain ord where ord: "\<And>k. linearization Model_Step zero_state (key_ops k ops) (ord k)"
    unfolding linearizable_keys by metis
  then have m: "mset (ord k) = mset (key_ops k ops)" and rt: "real_time (ord k)" for k
    by (auto simp: linearization_def)
  have keys: "op_key b = j" if "b \<in> set (ord j)" for j b
    using that mset_eq_setD [OF m [of j]] by (auto simp: key_ops_def)
  have sub: "set (ord k) \<subseteq> set ops" for k
    using mset_eq_setD [OF m [of k]] by (auto simp: key_ops_def)
  define ks where "ks = remdups (map op_key ops)"
  define ps where "ps = concat (map (\<lambda>k. points (- 9223372036854775808) (ord k)) ks)"
  let ?l = "merge_points ps"
  have empty: "ord k = []" if "k \<notin> set ks" for k
    using that keys [of "hd (ord k)" k] sub [of k] by (cases "ord k") (auto simp: ks_def)
  have key: "key_ops k ?l = ord k" for k
    unfolding ps_def using key_ops_merge [of ks ord k "- 9223372036854775808"] keys empty [of k]
    by (auto simp: ks_def)
  have "mset ?l = mset ops"
    by (rule mset_eqI_keys) (simp add: key m)
  moreover have "real_time ?l"
  proof (rule merge_points_real_time, clarify)
    fix q a assume "(q, a) \<in> set ps"
    then obtain k where in_k: "(q, a) \<in> set (points (- 9223372036854775808) (ord k))"
      by (auto simp: ps_def)
    have "well_formed (ord k)"
      using assms(1) sub [of k] by (auto simp: well_formed_def list_all_iff)
    then show "sint (opCall a) \<le> q \<and> q \<le> sint (opReturn a)"
      using points_ge [OF in_k] points_le_return [OF rt _ _ in_k] sint64_bounds by auto
  qed
  moreover have "fsm_explains NewFSM ?l"
    using ord by (simp add: fsm_explains_NewFSM key linearization_def)
  ultimately show ?thesis
    unfolding fsm_order_def by blast
qed

interpretation model: porcupine_contract Model search_check
  by (rule search_check_contract)

text \<open>C13: the step of the checker's model is the state machine's transition seen at one key: it
  accepts an output exactly when the state machine, at that state, produces a result that
  explains it; it then goes to what the state machine leaves at the key; and it rejects where
  the state machine panics. Other keys are untouched.\<close>

theorem Model_Step_is_Apply:
  assumes "fData f \<noteq> NilMap"
  shows "case apply_command f (op_command inp) of
     Inl p \<Rightarrow> \<not> fst (Model_Step (kv_at f (iKey inp)) inp out)
   | Inr (r, f') \<Rightarrow> fst (Model_Step (kv_at f (iKey inp)) inp out) = explains inp r out \<and>
       (explains inp r out \<longrightarrow> snd (Model_Step (kv_at f (iKey inp)) inp out) = kv_at f' (iKey inp)) \<and>
       (\<forall>k. k \<noteq> iKey inp \<longrightarrow> kv_at f' k = kv_at f k) \<and> fData f' \<noteq> NilMap"
  using assms by (rule step_is_apply)

text \<open>C1: linearizability key by key is linearizability of the store: Porcupine's question, asked
  for each key by itself, has the answer yes exactly when one order of all operations
  respects real time and is explained by one run of the state machine from its start.\<close>

theorem linearizable_iff_fsm_run:
  assumes "well_formed ops"
  shows "linearizable Model ops \<longleftrightarrow>
    (\<exists>l. mset l = mset ops \<and> real_time l \<and> fsm_explains NewFSM l)"
  using order_if_linearizable [OF assms] linearizable_if_order
  unfolding fsm_order_def by blast


section \<open>The horizon\<close>

lemma max_end_ge:
  "op \<in> set ops \<Longrightarrow> sint (hStartNs op) \<le> sint (max_end ops) \<and> sint (hEndNs op) \<le> sint (max_end ops)"
proof (induction ops rule: rev_induct)
  case (snoc x xs)
  then show ?case by (auto simp: max_end_def Let_def)
qed simp

lemma max_end_nonneg: "0 \<le> sint (max_end ops)"
  by (induction ops rule: rev_induct) (auto simp: max_end_def Let_def)

text \<open>What a recorded history looks like: answered operations end no earlier than they start,
  and the clock is not at its last value.\<close>

definition recordable :: "hop list \<Rightarrow> bool" where
  "recordable ops \<longleftrightarrow>
     list_all (\<lambda>op. hOutcome op = OutcomeOK \<longrightarrow> sint (hStartNs op) \<le> sint (hEndNs op)) ops \<and>
     sint (max_end ops) < max_int64"

lemma horizon_after:
  assumes "recordable ops" and "op \<in> set ops"
  shows "sint (hStartNs op) < sint (max_end ops + 1)"
  using assms max_end_ge [OF assms(2)] sint64_succ [of "max_end ops"] by (auto simp: recordable_def)

lemma to_operation_cases:
  assumes "a \<in> set (to_operation h op)"
  shows "opCall a = hStartNs op" "op_key a = hKey op" "iOp (opInput a) = hOp op"
    "(if oUnknown (opOutput a) then opReturn a = h else opReturn a = hEndNs op \<and> hOutcome op = OutcomeOK)"
  using assms by (auto simp: to_operation_def Let_def split: if_splits)

lemma ToOperations_well_formed:
  assumes "recordable ops"
  shows "well_formed (ToOperations ops)"
  unfolding well_formed_def list_all_iff ToOperations_def Let_def
proof
  fix a assume "a \<in> set (concat (map (to_operation (max_end ops + 1)) ops))"
  then obtain op where op: "op \<in> set ops" "a \<in> set (to_operation (max_end ops + 1) op)" by auto
  then show "sint (opCall a) \<le> sint (opReturn a)"
    using to_operation_cases [OF op(2)] horizon_after [OF assms op(1)] assms
    by (auto simp: recordable_def list_all_iff split: if_splits)
qed

definition set_horizon :: "int64 \<Rightarrow> kvop \<Rightarrow> kvop" where
  "set_horizon h a = (if oUnknown (opOutput a) then a\<lparr>opReturn := h\<rparr> else a)"

lemma set_horizon_simps [simp]:
  "opInput (set_horizon h a) = opInput a" "opOutput (set_horizon h a) = opOutput a"
  "opCall (set_horizon h a) = opCall a"
  by (simp_all add: set_horizon_def)

lemma to_operation_horizon: "map (set_horizon h') (to_operation h op) = to_operation h' op"
  by (simp add: to_operation_def set_horizon_def Let_def)

lemma key_ops_horizon: "key_ops k (map (set_horizon h) ops) = map (set_horizon h) (key_ops k ops)"
  by (simp add: key_ops_def filter_map comp_def)

lemma real_time_horizon:
  assumes "real_time l" and "\<forall>a \<in> set l. sint (opCall a) < sint h"
  shows "real_time (map (set_horizon h) l)"
  unfolding real_time_def sorted_wrt_map
  using assms(1) [unfolded real_time_def]
  by (rule sorted_wrt_mono_rel [rotated]) (use assms(2) in \<open>auto simp: may_follow_def set_horizon_def\<close>)

lemma linearizable_horizon_mono:
  assumes "linearizable Model ops" and "\<forall>a \<in> set ops. sint (opCall a) < sint h"
  shows "linearizable Model (map (set_horizon h) ops)"
  unfolding linearizable_keys
proof
  fix k
  from assms(1) obtain l where l: "linearization Model_Step zero_state (key_ops k ops) l"
    unfolding linearizable_keys by blast
  then have "mset l = mset (key_ops k ops)" by (simp add: linearization_def)
  from mset_eq_setD [OF this] have "set l \<subseteq> set ops" by (auto simp: key_ops_def)
  with l assms(2) have "linearization Model_Step zero_state (key_ops k (map (set_horizon h) ops)) (map (set_horizon h) l)"
    unfolding linearization_def key_ops_horizon
    by (auto simp: accepts_map intro!: real_time_horizon)
  then show "\<exists>l. linearization Model_Step zero_state (key_ops k (map (set_horizon h) ops)) l" ..
qed

lemma linearizable_horizon:
  assumes "\<forall>op \<in> set ops. sint (hStartNs op) < sint h \<and> sint (hStartNs op) < sint h'"
  shows "linearizable Model (concat (map (to_operation h) ops)) \<longleftrightarrow>
    linearizable Model (concat (map (to_operation h') ops))"
proof -
  have "linearizable Model (concat (map (to_operation h2) ops))"
    if "linearizable Model (concat (map (to_operation h1) ops))" "\<forall>op \<in> set ops. sint (hStartNs op) < sint h2" for h1 h2
  proof -
    have "\<forall>a \<in> set (concat (map (to_operation h1) ops)). sint (opCall a) < sint h2"
      using that(2) by (auto simp: to_operation_cases(1))
    from linearizable_horizon_mono [OF that(1) this] show ?thesis
      by (simp add: map_concat comp_def to_operation_horizon)
  qed
  with assms show ?thesis by blast
qed


section \<open>Operations that constrain nothing\<close>

definition informs :: "hop \<Rightarrow> bool" where
  "informs op \<longleftrightarrow> hOutcome op \<noteq> OutcomeFailed \<and> \<not> (hOutcome op = OutcomeUnknown \<and> hOp op = OpGet)"

lemma max_end_cases:
  "sint (max_end xs) = 0 \<or> (\<exists>op \<in> set xs. sint (max_end xs) = sint (hStartNs op) \<or> sint (max_end xs) = sint (hEndNs op))"
  by (induction xs rule: rev_induct) (auto simp: max_end_def Let_def)

lemma max_end_subset:
  assumes "set xs \<subseteq> set ops"
  shows "sint (max_end xs) \<le> sint (max_end ops)"
  using max_end_cases [of xs] max_end_ge max_end_nonneg [of ops] assms by fastforce

lemma recordable_subset: "recordable ops \<Longrightarrow> set xs \<subseteq> set ops \<Longrightarrow> recordable xs"
  using max_end_subset [of xs ops] by (auto simp: recordable_def list_all_iff)

lemma subset_horizon:
  assumes "recordable ops" and "set xs \<subseteq> set ops"
  shows "linearizable Model (ToOperations xs) \<longleftrightarrow>
    linearizable Model (concat (map (to_operation (max_end ops + 1)) xs))"
  unfolding ToOperations_def Let_def
  using horizon_after [OF assms(1)] horizon_after [OF recordable_subset [OF assms]] assms(2)
  by (intro linearizable_horizon) auto

lemma to_operation_nothing: "\<not> informs op \<Longrightarrow> to_operation h op = []"
  by (auto simp: informs_def to_operation_def op_defs OutcomeFailed_def OutcomeUnknown_def)

lemma concat_informs:
  "concat (map (to_operation h) (filter informs ops)) = concat (map (to_operation h) ops)"
  by (induction ops) (simp_all add: to_operation_nothing)

text \<open>C26: a failed operation and an unanswered read constrain nothing: the verdict is the same
  without them.\<close>

theorem failed_and_unanswered_irrelevant:
  assumes "recordable ops"
  shows "linearizable Model (ToOperations (filter informs ops)) \<longleftrightarrow> linearizable Model (ToOperations ops)"
  using subset_horizon [OF assms, of "filter informs ops"] subset_horizon [OF assms, of ops]
  by (simp add: concat_informs)

lemma linearizable_add_last:
  assumes "linearizable Model (xs @ ys)" and "\<And>st. fst (Model_Step st (opInput u) (opOutput u))"
    and "\<forall>a \<in> set (xs @ ys). may_follow a u"
  shows "linearizable Model (xs @ u # ys)"
  unfolding linearizable_keys
proof
  fix k
  from assms(1) obtain l where l: "linearization Model_Step zero_state (key_ops k (xs @ ys)) l"
    unfolding linearizable_keys by blast
  then have "mset l = mset (key_ops k (xs @ ys))" by (simp add: linearization_def)
  from mset_eq_setD [OF this] have "set l \<subseteq> set (xs @ ys)" by (auto simp: key_ops_def)
  with l assms(2,3) have "linearization Model_Step zero_state (key_ops k (xs @ u # ys)) (if op_key u = k then l @ [u] else l)"
    by (auto simp: linearization_def accepts_snoc real_time_def sorted_wrt_append)
  then show "\<exists>l. linearization Model_Step zero_state (key_ops k (xs @ u # ys)) l" ..
qed

definition mutation :: "hop \<Rightarrow> bool" where
  "mutation op \<longleftrightarrow> hOp op \<in> {OpPut, OpDelete, OpCAS}"

lemma unknown_mutation_accepted: "oUnknown out \<Longrightarrow> iOp inp \<in> {OpPut, OpDelete, OpCAS} \<Longrightarrow> fst (Model_Step st inp out)"
  by (auto simp: Model_Step_def op_defs Let_def)

lemma to_operation_unknown:
  "hOutcome u = OutcomeUnknown \<Longrightarrow> mutation u \<Longrightarrow>
   \<exists>a. to_operation h u = [a] \<and> oUnknown (opOutput a) \<and> opReturn a = h \<and> iOp (opInput a) = hOp u"
  by (auto simp: to_operation_def mutation_def op_defs OutcomeUnknown_def OutcomeFailed_def Let_def)

text \<open>C25: an unanswered mutation may have been lost: whatever else was observed, adding one to a
  history that is linearizable leaves it linearizable.\<close>

theorem unknown_mutation_may_vanish:
  assumes "recordable (xs @ u # ys)" and "hOutcome u = OutcomeUnknown" and "mutation u"
    and "linearizable Model (ToOperations (xs @ ys))"
  shows "linearizable Model (ToOperations (xs @ u # ys))"
proof -
  let ?h = "max_end (xs @ u # ys) + 1" and ?conv = "\<lambda>zs. concat (map (to_operation (max_end (xs @ u # ys) + 1)) zs)"
  obtain a where a: "to_operation ?h u = [a]" "oUnknown (opOutput a)" "opReturn a = ?h" "iOp (opInput a) = hOp u"
    using to_operation_unknown [OF assms(2,3)] by blast
  have "linearizable Model (?conv xs @ ?conv ys)"
    using assms(4) subset_horizon [OF assms(1), of "xs @ ys"] by auto
  moreover have "fst (Model_Step st (opInput a) (opOutput a))" for st
    using a assms(3) by (auto simp: mutation_def intro: unknown_mutation_accepted)
  moreover have "\<forall>b \<in> set (?conv xs @ ?conv ys). may_follow b a"
    using horizon_after [OF assms(1)] by (fastforce simp: may_follow_def a(3) dest: to_operation_cases(1))
  ultimately have "linearizable Model (?conv xs @ a # ?conv ys)"
    by (rule linearizable_add_last)
  then show ?thesis
    by (simp add: ToOperations_def Let_def a(1))
qed


section \<open>What the checker rejects\<close>

definition holds :: "string \<Rightarrow> kvState \<Rightarrow> bool" where
  "holds v st \<longleftrightarrow> stPresent st \<and> stVal st = v"

definition writer :: "string \<Rightarrow> string \<Rightarrow> kvop \<Rightarrow> bool" where
  "writer k v a \<longleftrightarrow> op_key a = k \<and> iOp (opInput a) \<in> {OpPut, OpCAS} \<and> iVal (opInput a) = v"

definition overwriter :: "string \<Rightarrow> string \<Rightarrow> kvop \<Rightarrow> bool" where
  "overwriter k v a \<longleftrightarrow> op_key a = k \<and>
     (iOp (opInput a) = OpPut \<and> iVal (opInput a) \<noteq> v \<or> iOp (opInput a) = OpDelete)"

definition reads :: "string \<Rightarrow> string \<Rightarrow> kvop \<Rightarrow> bool" where
  "reads k v a \<longleftrightarrow> op_key a = k \<and> iOp (opInput a) = OpGet \<and> oPresent (opOutput a) \<and> oVal (opOutput a) = v"

definition cas_winner :: "string \<Rightarrow> string \<Rightarrow> kvop \<Rightarrow> bool" where
  "cas_winner k v a \<longleftrightarrow> op_key a = k \<and> iOp (opInput a) = OpCAS \<and> iExpect (opInput a) = Some v \<and>
     iVal (opInput a) \<noteq> v \<and> \<not> oUnknown (opOutput a) \<and> oOk (opOutput a)"

lemma step_holds:
  "holds v (snd (Model_Step st inp out)) \<Longrightarrow>
   holds v st \<or> iOp inp \<in> {OpPut, OpCAS} \<and> iVal inp = v"
  by (auto simp: Model_Step_def holds_def op_defs zero_state_def Let_def split: if_splits)

lemma step_overwriter: "overwriter k v a \<Longrightarrow> \<not> holds v (snd (Model_Step st (opInput a) (opOutput a)))"
  by (auto simp: overwriter_def Model_Step_def holds_def op_defs zero_state_def)

lemma step_reads: "reads k v a \<Longrightarrow> fst (Model_Step st (opInput a) (opOutput a)) \<Longrightarrow> holds v st"
  by (auto simp: reads_def Model_Step_def holds_def op_defs)

text \<open>A read that a linearizable history cannot hold: it starts after an operation that makes a property
  of the key's state true, no operation that may come later makes it false, and the read needs it false.\<close>

lemma rejected_read:
  assumes "w \<in> set ops" and "op_key w = k" and "r \<in> set ops" and "op_key r = k" and "w \<noteq> r"
    and "sint (opReturn w) < sint (opCall r)"
    and made: "\<And>s. P (snd (Model_Step s (opInput w) (opOutput w)))"
    and kept: "\<And>a s. a \<in> set ops \<Longrightarrow> op_key a = k \<Longrightarrow> \<not> sint (opReturn a) < sint (opCall w) \<Longrightarrow> P s \<Longrightarrow>
      P (snd (Model_Step s (opInput a) (opOutput a)))"
    and needed: "\<And>s. P s \<Longrightarrow> \<not> fst (Model_Step s (opInput r) (opOutput r))"
  shows "\<not> linearizable Model ops"
proof
  assume "linearizable Model ops"
  then obtain l where l: "linearization Model_Step zero_state (key_ops k ops) l"
    unfolding linearizable_keys by blast
  have "w \<in> set (key_ops k ops)" "r \<in> set (key_ops k ops)"
    using assms(1-4) by (auto simp: key_ops_def)
  from linearization_split [OF l this assms(5,6)] obtain xs ys zs where split: "l = xs @ w # ys @ r # zs"
    by blast
  let ?s = "snd (Model_Step (run_state Model_Step zero_state xs) (opInput w) (opOutput w))"
  have rt: "real_time l" and m: "mset l = mset (key_ops k ops)" and acc: "accepts Model_Step zero_state l"
    using l by (auto simp: linearization_def)
  have between: "a \<in> set ops" "op_key a = k" "\<not> sint (opReturn a) < sint (opCall w)" if "a \<in> set ys" for a
    using that mset_eq_setD [OF m] split linearization_order [OF rt [unfolded split], of a] by (auto simp: key_ops_def)
  have "P (run_state Model_Step ?s ys)"
    by (rule run_state_inv) (simp_all add: made kept between)
  moreover have "fst (Model_Step (run_state Model_Step ?s ys) (opInput r) (opOutput r))"
    using acc by (simp add: split accepts_append Let_def case_prod_beta)
  ultimately show False
    using needed by blast
qed

text \<open>C23: a stale read is rejected: when every operation that could have written \<open>v\<close> returned
  before an overwrite was called, and the overwrite returned before the read was called, a
  history in which the read sees \<open>v\<close> is not linearizable.\<close>

theorem stale_read_rejected:
  assumes "w \<in> set ops" and "overwriter k v w" and "r \<in> set ops" and "reads k v r"
    and "sint (opReturn w) < sint (opCall r)"
    and "\<forall>a \<in> set ops. writer k v a \<longrightarrow> sint (opReturn a) < sint (opCall w)"
  shows "\<not> linearizable Model ops"
proof (rule rejected_read [where w = w and r = r and k = k and P = "\<lambda>s. \<not> holds v s"])
  show "\<not> holds v (snd (Model_Step s (opInput a) (opOutput a)))"
    if "a \<in> set ops" "op_key a = k" "\<not> sint (opReturn a) < sint (opCall w)" "\<not> holds v s" for a s
    using that assms(6) step_holds [of v s "opInput a" "opOutput a"] by (auto simp: writer_def)
  show "\<not> fst (Model_Step s (opInput r) (opOutput r))" if "\<not> holds v s" for s
    using that step_reads [OF assms(4)] by blast
qed (use assms step_overwriter [OF assms(2)] in \<open>auto simp: overwriter_def reads_def op_defs\<close>)

lemma accepts_cas_winners:
  "accepts Model_Step st l \<Longrightarrow> \<forall>a \<in> set l. op_key a = k \<Longrightarrow>
   length (filter (cas_winner k v) l) \<le> length (filter (writer k v) l) + (if holds v st then 1 else 0)"
proof (induction l arbitrary: st)
  case (Cons a l)
  let ?s = "snd (Model_Step st (opInput a) (opOutput a))"
  have IH: "length (filter (cas_winner k v) l) \<le> length (filter (writer k v) l) + (if holds v ?s then 1 else 0)"
    using Cons.prems by (intro Cons.IH) (auto simp: Let_def case_prod_beta)
  have win: "\<not> writer k v a \<and> holds v st \<and> \<not> holds v ?s" if "cas_winner k v a"
    using that Cons.prems
    by (auto simp: cas_winner_def writer_def op_defs Model_Step_def stateMatches_def holds_def Let_def)
  have keep: "holds v st" if "holds v ?s" "\<not> writer k v a"
    using that step_holds [of v st "opInput a" "opOutput a"] Cons.prems(2) by (auto simp: writer_def)
  show ?case
    using IH win keep by (auto split: if_splits)
qed simp

text \<open>C24: compare-and-swap elects one winner: in a linearizable history, the swaps on a key that
  succeeded from \<open>v\<close> to something else are no more than the operations that wrote it. With one write of \<open>v\<close>, two winners are rejected; with none, one is.\<close>

theorem cas_winners_bounded:
  assumes "linearizable Model ops"
  shows "length (filter (cas_winner k v) ops) \<le> length (filter (writer k v) ops)"
proof -
  from assms obtain l where m: "mset l = mset (key_ops k ops)" and acc: "accepts Model_Step zero_state l"
    unfolding linearizable_keys linearization_def by blast
  have "\<forall>a \<in> set l. op_key a = k"
    using mset_eq_setD [OF m] by (auto simp: key_ops_def)
  from accepts_cas_winners [OF acc this, of v]
  have le: "length (filter (cas_winner k v) l) \<le> length (filter (writer k v) l)"
    by (simp add: holds_def zero_state_def)
  have len: "length (filter P l) = length (filter P ops)" if "\<And>a. P a \<Longrightarrow> op_key a = k" for P
  proof -
    have "mset (filter P l) = mset (filter P (key_ops k ops))"
      using m by (simp add: mset_filter)
    also have "filter P (key_ops k ops) = filter P ops"
      using that by (auto simp: key_ops_def intro: filter_cong)
    finally show ?thesis by (metis size_mset)
  qed
  show ?thesis
    using le len [of "cas_winner k v"] len [of "writer k v"] by (simp add: cas_winner_def writer_def)
qed


section \<open>The verdict\<close>

lemma Check_fields:
  "crLinearizable (Check porc ops t) \<longleftrightarrow> fst (porc Model (ToOperations ops) t) = CheckOk"
  "crOps (Check porc ops t) = length (ToOperations ops)"
  by (simp_all add: Check_def Let_def case_prod_beta)

lemma Check_decides:
  assumes "porcupine_contract Model porc" and "recordable ops"
  shows "crLinearizable (Check porc ops t) \<Longrightarrow> linearizable Model (ToOperations ops)"
    and "fst (porc Model (ToOperations ops) t) \<noteq> CheckUnknown \<Longrightarrow>
      crLinearizable (Check porc ops t) = linearizable Model (ToOperations ops)"
  using porcupine_contract.check_decides [OF assms(1) ToOperations_well_formed [OF assms(2)], of t]
  by (auto simp: Check_fields)

text \<open>C2: what a verdict means, for any checker that keeps Porcupine's contract: a history reported
  linearizable has an order of its operations that respects real time and that a run of the
  state machine explains; unless the search timed out, a history reported otherwise has none.\<close>

theorem Check_verdict:
  assumes "porcupine_contract Model porc" and "recordable ops"
  shows "(crLinearizable (Check porc ops t) \<longrightarrow>
      (\<exists>l. mset l = mset (ToOperations ops) \<and> real_time l \<and> fsm_explains NewFSM l)) \<and>
    (\<not> crLinearizable (Check porc ops t) \<longrightarrow>
      fst (porc Model (ToOperations ops) t) = CheckUnknown \<or>
      \<not> (\<exists>l. mset l = mset (ToOperations ops) \<and> real_time l \<and> fsm_explains NewFSM l))"
  using Check_decides [OF assms, of t] order_if_linearizable [OF ToOperations_well_formed [OF assms(2)]]
    linearizable_if_order
  unfolding fsm_order_def by blast

section \<open>The histories of the tests\<close>

definition put_op :: "int64 \<Rightarrow> string \<Rightarrow> int64 \<Rightarrow> int64 \<Rightarrow> string \<Rightarrow> hop" where
  "put_op c v s e out = \<lparr>hClient = c, hOp = ''put'', hKey = ''k'', hValue = v, hExpect = None,
     hStartNs = s, hEndNs = e, hOutcome = out, hOk = (out = OutcomeOK), hPresent = False, hRetVal = '''', hNode = ''''\<rparr>"

definition get_op :: "int64 \<Rightarrow> string \<Rightarrow> int64 \<Rightarrow> int64 \<Rightarrow> hop" where
  "get_op c v s e = \<lparr>hClient = c, hOp = ''get'', hKey = ''k'', hValue = '''', hExpect = None,
     hStartNs = s, hEndNs = e, hOutcome = OutcomeOK, hOk = True, hPresent = True, hRetVal = v, hNode = ''''\<rparr>"

definition cas_op :: "int64 \<Rightarrow> string \<Rightarrow> string \<Rightarrow> int64 \<Rightarrow> int64 \<Rightarrow> hop" where
  "cas_op c x v s e = \<lparr>hClient = c, hOp = ''cas'', hKey = ''k'', hValue = v, hExpect = Some x,
     hStartNs = s, hEndNs = e, hOutcome = OutcomeOK, hOk = True, hPresent = False, hRetVal = '''', hNode = ''''\<rparr>"

definition known_bad :: "hop list" where
  "known_bad = [put_op 1 ''a'' 10 20 OutcomeOK, put_op 1 ''b'' 30 40 OutcomeOK, get_op 2 ''a'' 50 60]"

definition impossible_cas :: "hop list" where
  "impossible_cas = [put_op 1 ''a'' 10 20 OutcomeOK, cas_op 2 ''never'' ''x'' 30 40]"

definition double_winner :: "hop list" where
  "double_winner = [put_op 1 ''base'' 0 5 OutcomeOK, cas_op 2 ''base'' ''w1'' 10 20, cas_op 3 ''base'' ''w2'' 12 22]"

definition lost_write :: "hop list" where
  "lost_write = [put_op 1 ''a'' 0 5 OutcomeOK, put_op 2 ''ghost'' 10 15 OutcomeUnknown, get_op 1 ''a'' 20 25]"

definition known_good :: "hop list" where
  "known_good = [put_op 1 ''a'' 10 20 OutcomeOK, get_op 2 ''a'' 15 25, cas_op 1 ''a'' ''b'' 30 40,
     (cas_op 3 ''a'' ''c'' 45 65)\<lparr>hOk := False, hPresent := True, hRetVal := ''b''\<rparr>, get_op 2 ''b'' 50 60,
     (put_op 2 '''' 70 80 OutcomeOK)\<lparr>hOp := ''delete'', hPresent := True\<rparr>, put_op 3 ''z'' 85 88 OutcomeUnknown,
     (get_op 2 '''' 90 95)\<lparr>hPresent := False\<rparr>]"

text \<open>An operation with an outcome the recorder never writes.\<close>

definition unclassified_get :: "hop list" where
  "unclassified_get = [put_op 1 ''a'' 10 20 OutcomeOK, (get_op 2 '''' 50 60)\<lparr>hOutcome := ''?'', hOk := False, hPresent := False\<rparr>]"

lemma recordable_tests:
  "recordable known_bad" "recordable known_good" "recordable impossible_cas" "recordable double_winner"
  "recordable lost_write" "recordable unclassified_get"
  by code_simp+

lemma search_tests:
  "list_all (search Model_Step zero_state) (Model_Partition (ToOperations known_bad)) = False"
  "list_all (search Model_Step zero_state) (Model_Partition (ToOperations known_good)) = True"
  "list_all (search Model_Step zero_state) (Model_Partition (ToOperations impossible_cas)) = False"
  "list_all (search Model_Step zero_state) (Model_Partition (ToOperations double_winner)) = False"
  "list_all (search Model_Step zero_state) (Model_Partition (ToOperations lost_write)) = True"
  "list_all (search Model_Step zero_state) (Model_Partition (ToOperations unclassified_get)) = False"
  by code_simp+

lemma linearizable_Model:
  "linearizable Model ops = list_all (search Model_Step zero_state) (Model_Partition ops)"
  unfolding linearizable_search by (simp add: Model_def)

lemmas linearizable_tests [simp] = search_tests [folded linearizable_Model]

text \<open>the verdicts the repository's tests ask for, with any checker that keeps Porcupine's
  contract: the known bad fixture, a swap from a value never written and two winners of one
  swap are rejected; the known good fixture and a history with a lost write are accepted
  unless the search timed out.\<close>

theorem Check_tests:
  assumes "porcupine_contract Model porc"
  shows "\<not> crLinearizable (Check porc known_bad t) \<and> \<not> crLinearizable (Check porc impossible_cas t) \<and>
    \<not> crLinearizable (Check porc double_winner t) \<and>
    (crLinearizable (Check porc known_good t) \<or> fst (porc Model (ToOperations known_good) t) = CheckUnknown) \<and>
    (crLinearizable (Check porc lost_write t) \<or> fst (porc Model (ToOperations lost_write) t) = CheckUnknown)"
  using recordable_tests [THEN Check_decides(1) [OF assms, of _ t]]
    recordable_tests [THEN Check_decides(2) [OF assms, of _ t]]
  by auto


theorem Check_tests_witness:
  "\<not> crLinearizable (Check search_check known_bad 5) \<and> crLinearizable (Check search_check known_good 5)"
  using Check_tests [OF search_check_contract, of 5] by (simp add: search_check_def split: if_splits)

text \<open>C29: a record whose outcome is none of the three is treated as an unanswered operation, but for a
  \<open>get\<close> that means a definite observation: it is kept, with the output ``absent'', where a read recorded as
  unknown is dropped. So a history with an unclassified read of a key, which some \<open>put\<close> had written before
  the read started and no \<open>delete\<close> can have cleared since, is rejected by any checker that keeps the contract;
  with the read's outcome unknown, the verdict is the one without the read.\<close>

theorem unclassified_get_is_definite:
  assumes "porcupine_contract Model porc" and "recordable (xs @ g # ys)"
    and "hOp g = OpGet" and "hOutcome g \<notin> {OutcomeOK, OutcomeFailed, OutcomeUnknown}"
    and "p \<in> set (xs @ ys)" and "hOp p = OpPut" and "hKey p = hKey g" and "hOutcome p = OutcomeOK"
    and "sint (hEndNs p) < sint (hStartNs g)"
    and "\<forall>d \<in> set (xs @ ys). hOp d = OpDelete \<and> hKey d = hKey g \<longrightarrow>
      hOutcome d = OutcomeFailed \<or> hOutcome d = OutcomeOK \<and> sint (hEndNs d) < sint (hStartNs p)"
  shows "\<not> crLinearizable (Check porc (xs @ g # ys) t) \<and>
    linearizable Model (ToOperations (xs @ g\<lparr>hOutcome := OutcomeUnknown\<rparr> # ys)) =
      linearizable Model (ToOperations (xs @ ys))"
proof
  let ?ops = "xs @ g # ys"
  let ?h = "max_end ?ops + 1"
  obtain a where a: "to_operation ?h g = [a]" "op_key a = hKey g" "iOp (opInput a) = OpGet" "opCall a = hStartNs g"
      "\<not> oPresent (opOutput a)"
    using assms(3,4) by (simp add: to_operation_def Let_def)
  obtain w where w: "to_operation ?h p = [w]" "op_key w = hKey g" "iOp (opInput w) = OpPut" "opReturn w = hEndNs p"
      "opCall w = hStartNs p"
    using assms(6-8) by (simp add: to_operation_def Let_def OutcomeOK_def OutcomeFailed_def OutcomeUnknown_def)
  have in_ops: "b \<in> set (ToOperations ?ops)" if "op \<in> set ?ops" "to_operation ?h op = [b]" for op b
    using that by (force simp: ToOperations_def Let_def)
  have "\<not> linearizable Model (ToOperations ?ops)"
  proof (rule rejected_read [where w = w and r = a and k = "hKey g" and P = stPresent])
    show "stPresent (snd (Model_Step s (opInput b) (opOutput b)))"
      if b: "b \<in> set (ToOperations ?ops)" "op_key b = hKey g" "\<not> sint (opReturn b) < sint (opCall w)" "stPresent s" for b s
    proof -
      from b(1) obtain op where op: "op \<in> set ?ops" "b \<in> set (to_operation ?h op)"
        by (auto simp: ToOperations_def Let_def)
      have "iOp (opInput b) \<noteq> OpDelete"
        using op b(2,3) assms(3,10) to_operation_cases [OF op(2)] w(5)
        by (auto simp: op_defs to_operation_def OutcomeOK_def OutcomeFailed_def OutcomeUnknown_def Let_def split: if_splits)
      then show ?thesis using b(4) by (auto simp: Model_Step_def op_defs Let_def)
    qed
  qed (use assms a w in_ops [OF _ w(1)] in_ops [OF _ a(1)] in \<open>auto simp: Model_Step_def op_defs\<close>)
  then show "\<not> crLinearizable (Check porc ?ops t)"
    using Check_decides(1) [OF assms(1,2)] by blast
next
  let ?g = "g\<lparr>hOutcome := OutcomeUnknown\<rparr>"
  have "max_end (xs @ ?g # ys) = max_end (xs @ g # ys)"
    by (simp add: max_end_def Let_def)
  then have rec: "recordable (xs @ ?g # ys)"
    using assms(2) by (simp add: recordable_def OutcomeUnknown_def OutcomeOK_def)
  have "to_operation h ?g = []" for h
    using assms(3) by (simp add: to_operation_nothing informs_def)
  then show "linearizable Model (ToOperations (xs @ ?g # ys)) = linearizable Model (ToOperations (xs @ ys))"
    using subset_horizon [OF rec, of "xs @ ys"] subset_horizon [OF rec, of "xs @ ?g # ys"] by auto
qed

text \<open>The two-operation history above, whose value never went away.\<close>

theorem unclassified_get_is_definite_witness:
  "\<not> crLinearizable (Check search_check unclassified_get 5) \<and>
   linearizable Model (ToOperations [put_op 1 ''a'' 10 20 OutcomeOK,
     (get_op 2 '''' 50 60)\<lparr>hOutcome := OutcomeUnknown, hOk := False, hPresent := False\<rparr>])"
proof -
  have "linearizable Model (ToOperations [put_op 1 ''a'' 10 20 OutcomeOK])"
    unfolding linearizable_Model by code_simp
  then show ?thesis
    using unclassified_get_is_definite [OF search_check_contract, of "[put_op 1 ''a'' 10 20 OutcomeOK]"
      "(get_op 2 '''' 50 60)\<lparr>hOutcome := ''?'', hOk := False, hPresent := False\<rparr>" "[]" "put_op 1 ''a'' 10 20 OutcomeOK" 5]
      recordable_tests(6)
    by (simp add: unclassified_get_def get_op_def put_op_def op_defs OutcomeOK_def OutcomeFailed_def OutcomeUnknown_def)
qed

section \<open>Witnesses\<close>

theorem Model_Step_is_Apply_witness:
  "fst (Model_Step (kv_at NewFSM ''k'') \<lparr>iOp = ''cas'', iKey = ''k'', iVal = ''v'', iExpect = None\<rparr>
     \<lparr>oUnknown = False, oOk = True, oPresent = False, oVal = ''''\<rparr>)"
proof -
  have "fData NewFSM \<noteq> NilMap" by (simp add: NewFSM_def)
  from Model_Step_is_Apply [OF this, of "\<lparr>iOp = ''cas'', iKey = ''k'', iVal = ''v'', iExpect = None\<rparr>"
      "\<lparr>oUnknown = False, oOk = True, oPresent = False, oVal = ''''\<rparr>"]
  show ?thesis
    by (simp add: apply_command_def op_command_def op_defs NewFSM_def gomap_get_def zero_result_def explains_def)
qed

theorem linearizable_iff_fsm_run_witness:
  "(\<exists>l. mset l = mset (ToOperations known_good) \<and> real_time l \<and> fsm_explains NewFSM l) \<and>
   \<not> (\<exists>l. mset l = mset (ToOperations known_bad) \<and> real_time l \<and> fsm_explains NewFSM l)"
  using linearizable_iff_fsm_run [OF ToOperations_well_formed [OF recordable_tests(2)]]
    linearizable_iff_fsm_run [OF ToOperations_well_formed [OF recordable_tests(1)]] by simp

theorem Check_verdict_witness:
  "\<exists>l. mset l = mset (ToOperations lost_write) \<and> real_time l \<and> fsm_explains NewFSM l"
  using Check_verdict [OF search_check_contract recordable_tests(5), of 5]
  by (simp add: search_check_def Check_fields linearizable_search [symmetric] split: if_splits) 

theorem failed_and_unanswered_irrelevant_witness:
  "linearizable Model (ToOperations (put_op 9 ''x'' 1 70 OutcomeFailed # lost_write)) \<longleftrightarrow>
   linearizable Model (ToOperations lost_write)"
proof -
  have "recordable (put_op 9 ''x'' 1 70 OutcomeFailed # lost_write)" by code_simp
  moreover have "filter informs (put_op 9 ''x'' 1 70 OutcomeFailed # lost_write) = lost_write" by code_simp
  ultimately show ?thesis
    using failed_and_unanswered_irrelevant [of "put_op 9 ''x'' 1 70 OutcomeFailed # lost_write"] by simp
qed

theorem unknown_mutation_may_vanish_witness:
  "linearizable Model (ToOperations (known_good @ put_op 7 ''ghost'' 22 99 OutcomeUnknown # []))"
  by (rule unknown_mutation_may_vanish) (code_simp, code_simp, code_simp, simp)

theorem stale_read_rejected_witness: "\<not> linearizable Model (ToOperations known_bad)"
proof (rule stale_read_rejected)
  show "ToOperations known_bad ! 1 \<in> set (ToOperations known_bad)" by code_simp
  show "overwriter ''k'' ''a'' (ToOperations known_bad ! 1)" by code_simp
  show "ToOperations known_bad ! 2 \<in> set (ToOperations known_bad)" by code_simp
  show "reads ''k'' ''a'' (ToOperations known_bad ! 2)" by code_simp
  show "sint (opReturn (ToOperations known_bad ! 1)) < sint (opCall (ToOperations known_bad ! 2))" by code_simp
  show "\<forall>a \<in> set (ToOperations known_bad). writer ''k'' ''a'' a \<longrightarrow>
      sint (opReturn a) < sint (opCall (ToOperations known_bad ! 1))" by code_simp
qed

theorem cas_winners_bounded_witness:
  "length (filter (cas_winner ''k'' ''a'') (ToOperations known_good)) \<le>
   length (filter (writer ''k'' ''a'') (ToOperations known_good)) \<and>
   length (filter (cas_winner ''k'' ''a'') (ToOperations known_good)) = 1"
  using cas_winners_bounded [OF linearizable_tests(2) [THEN iffD2, OF TrueI], of "''k''" "''a''"] by (rule conjI) code_simp

end
