(* ===== verification/Run.thy ===== *)
theory Run
  imports Report Checker
begin

text \<open>
  \<open>internal/harness/run.go\<close>: a run of the harness, phase by phase. A phase is a computation
  on the state of the run: the world, the recorder, the injector and the report. It may stop
  without a result: a client may panic, and loops have fuel. The clients, the injector, files
  and the checker are those of the other theories. The scheduler of the goroutines, which is
  given their bodies, the random faults, the visualisation and \<open>os.WriteFile\<close> are
  parameters, as are the texts of \<open>%q\<close>, of times, of durations and of errors.
\<close>

section \<open>State\<close>

record run_options =
  roNodes :: "node list"
  roDuration :: int64
  roNumClients :: int
  roNumKeys :: int
  roSeed :: int64
  roOutDir :: string
  roFixturesDir :: string
  roSkipFaults :: bool

record ('w, 't) run_state =
  rsWorld :: 'w
  rsRec :: recorder
  rsFaults :: "'t faults"
  rsReport :: "'t report"

datatype run_stop = OutOfFuel | Panicked client_panic | NegativeLen

text \<open>What a goroutine does: it acts on the shared recorder and the world.\<close>

type_synonym ('w, 'a) action = "recorder \<Rightarrow> 'w \<Rightarrow> run_stop + ('a \<times> recorder \<times> 'w)"

text \<open>
  \<open>rvContend\<close> runs goroutines, waits for them and collects what each stored, in their order.
  \<open>rvTraffic\<close> starts goroutines, each with a client it uses in round after round; \<open>rvJoin\<close>
  closes the channel that stops them, waits, and gives the recorder with what they recorded.
  \<open>rvPorcupine\<close> is the answer of a search with a timeout, \<open>rvChecking\<close> the world when the search is over.
  \<open>rvFaultIntn\<close> is the generator of the fault schedule, \<open>rvGet\<close> a plain HTTP GET.
\<close>

record ('w, 't, 'e, 'i) run_env =
  rvClient :: "'w client_env"
  rvFault :: "('w, 't, 'e) fault_env"
  rvFaultIntn :: "nat \<Rightarrow> 'w \<Rightarrow> nat \<times> 'w"
  rvGet :: "string \<Rightarrow> 'w \<Rightarrow> bytes option \<times> 'w"
  rvContend :: "('w, hop) action list \<Rightarrow> ('w, hop list) action"
  rvTraffic :: "(client \<times> (client \<Rightarrow> ('w, client) action)) list \<Rightarrow> 'w \<Rightarrow> 'w"
  rvJoin :: "('w, unit) action"
  rvFile :: "string \<Rightarrow> 'w \<Rightarrow> disk"
  rvSetFile :: "string \<Rightarrow> disk \<Rightarrow> 'w \<Rightarrow> 'w"
  rvMkdirAll :: "string \<Rightarrow> 'w \<Rightarrow> os_err option \<times> 'w"
  rvWriteFile :: "string \<Rightarrow> bytes \<Rightarrow> 'w \<Rightarrow> os_err option \<times> 'w"
  rvTimeText :: "'t \<Rightarrow> string"
  rvPorcupine :: "(kvState, kvInput, kvOutput) pmodel \<Rightarrow> kvop list \<Rightarrow> int64 \<Rightarrow> check_result \<times> 'i"
  rvChecking :: "kvop list \<Rightarrow> int64 \<Rightarrow> 'w \<Rightarrow> 'w"
  rvVisualize :: "string \<Rightarrow> 'i \<Rightarrow> 'w \<Rightarrow> bool \<times> 'w"
  rvErrText :: "read_err \<Rightarrow> string"
  rvQuote :: "string \<Rightarrow> string"
  rvDurText :: "int64 \<Rightarrow> string"

section \<open>Computations of a phase\<close>

type_synonym ('s, 'a) phase = "'s \<Rightarrow> run_stop + ('a \<times> 's)"

definition pure :: "'a \<Rightarrow> ('s, 'a) phase" where
  "pure a s = Inr (a, s)"

definition andThen :: "('s, 'a) phase \<Rightarrow> ('a \<Rightarrow> ('s, 'b) phase) \<Rightarrow> ('s, 'b) phase" where
  "andThen m k s = (case m s of Inl e \<Rightarrow> Inl e | Inr (a, s') \<Rightarrow> k a s')"

definition on_world :: "('w \<Rightarrow> 'a \<times> 'w) \<Rightarrow> (('w, 't) run_state, 'a) phase" where
  "on_world f s = (let (a, w) = f (rsWorld s) in Inr (a, s\<lparr>rsWorld := w\<rparr>))"

definition on_faults :: "('t faults \<Rightarrow> 'w \<Rightarrow> 'a \<times> 't faults \<times> 'w) \<Rightarrow> (('w, 't) run_state, 'a) phase" where
  "on_faults f s = (let (a, fl, w) = f (rsFaults s) (rsWorld s) in Inr (a, s\<lparr>rsFaults := fl, rsWorld := w\<rparr>))"

definition acting :: "('w, 'a) action \<Rightarrow> (('w, 't) run_state, 'a) phase" where
  "acting f s = (case f (rsRec s) (rsWorld s) of
     Inl e \<Rightarrow> Inl e
   | Inr (a, r, w) \<Rightarrow> Inr (a, s\<lparr>rsRec := r, rsWorld := w\<rparr>))"

text \<open>The rest of a loop over a list, its state threaded through.\<close>

primrec each :: "('x \<Rightarrow> 'a \<Rightarrow> ('s, 'a) phase) \<Rightarrow> 'x list \<Rightarrow> 'a \<Rightarrow> ('s, 'a) phase" where
  "each f [] a = pure a"
| "each f (x # xs) a = andThen (f x a) (each f xs)"

lemma andThen_InrE:
  assumes "andThen m k s = Inr (b, s'')"
  obtains a s' where "m s = Inr (a, s')" "k a s' = Inr (b, s'')"
  using assms by (auto simp: andThen_def split: sum.splits)

section \<open>What phases do\<close>

definition check :: "string \<Rightarrow> bool \<Rightarrow> string \<Rightarrow> (('w, 't) run_state, unit) phase" where
  "check name pass detail s = Inr ((), s\<lparr>rsReport := (rsReport s)\<lparr>rpChecks := rpChecks (rsReport s) @
     [\<lparr>rcName = name, rcPass = pass, rcDetail = detail\<rparr>]\<rparr>\<rparr>)"

definition passStr :: "bool \<Rightarrow> string" where
  "passStr p = (if p then ''PASS'' else ''FAIL'')"

definition failed :: "'t report \<Rightarrow> bool" where
  "failed rep \<longleftrightarrow> list_ex (\<lambda>c. \<not> rcPass c) (rpChecks rep)"

definition invoke_action :: "nat \<Rightarrow> ('w, 't, 'e, 'i) run_env \<Rightarrow> client \<Rightarrow> hop \<Rightarrow> int64 \<Rightarrow> bool \<Rightarrow> node option \<Rightarrow>
    ('w, hop \<times> client) action" where
  "invoke_action fuel env c op deadline noProxy pin r w =
     (case Invoke fuel (rvClient env) c op deadline noProxy pin r w of
        None \<Rightarrow> Inl OutOfFuel
      | Some (Inl p) \<Rightarrow> Inl (Panicked p)
      | Some (Inr (iv, w')) \<Rightarrow> Inr ((ivOp iv, c\<lparr>clLastSeen := ivSeen iv\<rparr>), ivRec iv, w'))"

definition invoke :: "nat \<Rightarrow> ('w, 't, 'e, 'i) run_env \<Rightarrow> client \<Rightarrow> hop \<Rightarrow> int64 \<Rightarrow> bool \<Rightarrow> node option \<Rightarrow>
    (('w, 't) run_state, hop \<times> client) phase" where
  "invoke fuel env c op deadline noProxy pin = acting (invoke_action fuel env c op deadline noProxy pin)"

definition sleep :: "('w, 't, 'e, 'i) run_env \<Rightarrow> int64 \<Rightarrow> (('w, 't) run_state, unit) phase" where
  "sleep env d = on_world (\<lambda>w. ((), ceSleep (rvClient env) d w))"

definition now :: "('w, 't, 'e, 'i) run_env \<Rightarrow> (('w, 't) run_state, int64) phase" where
  "now env = on_world (ceNow (rvClient env))"

definition heal_all :: "('w, 't, 'e, 'i) run_env \<Rightarrow> (('w, 't) run_state, unit) phase" where
  "heal_all env = on_faults (\<lambda>f w. let (f', w') = HealAll (rvFault env) f w in ((), f', w'))"

text \<open>A loop until a deadline: \<open>for time.Now().Before(deadline)\<close>, left when the body says so;
  \<open>pausing\<close> is a body that sleeps when it has not left.\<close>

primrec poll :: "nat \<Rightarrow> ('w, 't, 'e, 'i) run_env \<Rightarrow> int64 \<Rightarrow> ('a \<Rightarrow> (('w, 't) run_state, bool \<times> 'a) phase) \<Rightarrow>
    'a \<Rightarrow> (('w, 't) run_state, 'a) phase" where
  "poll 0 env deadline body a = (\<lambda>s. Inl OutOfFuel)"
| "poll (Suc fuel) env deadline body a =
     andThen (now env) (\<lambda>t.
       if \<not> sint t < sint deadline then pure a
       else andThen (body a) (\<lambda>(left, a'). if left then pure a' else poll fuel env deadline body a'))"

definition pausing :: "('w, 't, 'e, 'i) run_env \<Rightarrow> int64 \<Rightarrow> ('a \<Rightarrow> (('w, 't) run_state, bool \<times> 'a) phase) \<Rightarrow>
    'a \<Rightarrow> (('w, 't) run_state, bool \<times> 'a) phase" where
  "pausing env d body a = andThen (body a) (\<lambda>(left, a').
     if left then pure (True, a') else andThen (sleep env d) (\<lambda>_. pure (False, a')))"

definition itoa :: "nat \<Rightarrow> string" where
  "itoa n = nat_dec n"

definition client_op :: "int64 \<Rightarrow> string \<Rightarrow> string \<Rightarrow> string \<Rightarrow> hop" where
  "client_op c op k v = zero_hop\<lparr>hClient := c, hOp := op, hKey := k, hValue := v\<rparr>"

section \<open>Checker self-test\<close>

definition read_fixture :: "('w, 't, 'e, 'i) run_env \<Rightarrow> run_options \<Rightarrow> string \<Rightarrow> 'w \<Rightarrow> hop list \<times> read_err option" where
  "read_fixture env opt name w = ReadFile (rvFile env (join_path [roFixturesDir opt, name]) w)"

definition fixture :: "('w, 't, 'e, 'i) run_env \<Rightarrow> run_options \<Rightarrow> string \<Rightarrow>
    (('w, 't) run_state, hop list \<times> read_err option) phase" where
  "fixture env opt name = on_world (\<lambda>w. (read_fixture env opt name w, w))"

text \<open>\<open>checker.Check\<close> takes time: the world goes on while Porcupine searches, for as long as the timeout lets it.\<close>

definition timed_check :: "('w, 't, 'e, 'i) run_env \<Rightarrow> hop list \<Rightarrow> int64 \<Rightarrow> (('w, 't) run_state, 'i check_report) phase" where
  "timed_check env ops timeout =
     on_world (\<lambda>w. (Check (rvPorcupine env) ops timeout, rvChecking env (ToOperations ops) timeout w))"

definition phaseCheckerSelfTest :: "('w, 't, 'e, 'i) run_env \<Rightarrow> run_options \<Rightarrow> (('w, 't) run_state, unit) phase" where
  "phaseCheckerSelfTest env opt =
     andThen (fixture env opt ''known-bad-history.jsonl'') (\<lambda>(bad, err).
     case err of
       Some e \<Rightarrow> check ''checker-rejects-known-bad'' False (''cannot read fixture: '' @ rvErrText env e)
     | None \<Rightarrow>
       andThen (timed_check env bad (60 * Second)) (\<lambda>res.
       let lin = crLinearizable res in
       andThen (check ''checker-rejects-known-bad'' (\<not> lin)
         (''known-bad history (stale read after acked overwrite) rejected='' @ btoa (\<not> lin))) (\<lambda>_.
       andThen (fixture env opt ''known-good-history.jsonl'') (\<lambda>(good, err).
       case err of
         Some e \<Rightarrow> check ''checker-accepts-known-good'' False (''cannot read fixture: '' @ rvErrText env e)
       | None \<Rightarrow>
         andThen (timed_check env good (60 * Second)) (\<lambda>res.
         let lin = crLinearizable res in
         check ''checker-accepts-known-good'' lin (''known-good history accepted='' @ btoa lin))))))"

section \<open>Reset and smoke\<close>

definition reset_keys :: "run_options \<Rightarrow> string list" where
  "reset_keys opt = [''smoke'', ''majority-live'', ''minority-probe''] @
     map (\<lambda>i. ''k'' @ itoa i) [0..<nat (roNumKeys opt)] @
     concat (map (\<lambda>i. [''durable-'' @ itoa i, ''cas-arena-'' @ itoa i]) [0..<3])"

definition phaseReset :: "nat \<Rightarrow> ('w, 't, 'e, 'i) run_env \<Rightarrow> run_options \<Rightarrow> (('w, 't) run_state, unit) phase" where
  "phaseReset fuel env opt =
     (let keys = reset_keys opt in
      andThen (each (\<lambda>k (c, failed).
          andThen (invoke fuel env c (client_op 999 ''delete'' k '''') (20 * Second) False None) (\<lambda>(op, c').
          pure (c', if hOutcome op \<noteq> OutcomeOK then failed + 1 else failed)))
        keys (NewClient 999 (roNodes opt), 0 :: nat)) (\<lambda>(c, failed).
      check ''reset-initial-state'' (failed = 0)
        (''deleted '' @ itoa (length keys) @ '' workload keys ('' @ itoa failed @ '' failed)'')))"

definition smoke_node :: "nat \<Rightarrow> ('w, 't, 'e, 'i) run_env \<Rightarrow> nat \<times> node \<Rightarrow> client \<times> bool \<times> string \<Rightarrow>
    (('w, 't) run_state, client \<times> bool \<times> string) phase" where
  "smoke_node fuel env = (\<lambda>(i, n) (c, okAll, detail).
     let val = ''smoke-'' @ itoa i in
     andThen (invoke fuel env c (client_op 0 ''put'' ''smoke'' val) (20 * Second) False (Some n)) (\<lambda>(w, c1).
     if hOutcome w \<noteq> OutcomeOK then
       pure (c1, False, detail @ ''put via '' @ nID n @ '': '' @ hOutcome w @ ''; '')
     else
     andThen (invoke fuel env c1 (client_op 0 ''get'' ''smoke'' '''') (20 * Second) False (Some n)) (\<lambda>(g, c2).
     if hOutcome g \<noteq> OutcomeOK \<or> \<not> hPresent g \<or> hRetVal g \<noteq> val then
       pure (c2, False, detail @ ''get via '' @ nID n @ '': outcome='' @ hOutcome g @ '' val='' @ rvQuote env (hRetVal g) @ ''; '')
     else pure (c2, okAll, detail))))"

definition phaseSmoke :: "nat \<Rightarrow> ('w, 't, 'e, 'i) run_env \<Rightarrow> run_options \<Rightarrow> (('w, 't) run_state, unit) phase" where
  "phaseSmoke fuel env opt =
     andThen (each (smoke_node fuel env) (zip [0..<length (roNodes opt)] (roNodes opt))
        (NewClient 0 (roNodes opt), True, '''')) (\<lambda>(c, okAll, detail).
     check ''smoke-all-nodes'' okAll
       (if detail = '''' then ''put+get through each node'' @ [char_of (39 :: nat)] @ ''s endpoint'' else detail))"

section \<open>Contention\<close>

definition contention_wins :: "hop list \<Rightarrow> nat" where
  "contention_wins results = length (filter (\<lambda>res. hOutcome res = OutcomeOK \<and> hOk res) results)"

definition contention_unknowns :: "hop list \<Rightarrow> nat" where
  "contention_unknowns results =
     length (filter (\<lambda>res. \<not> (hOutcome res = OutcomeOK \<and> hOk res) \<and> hOutcome res = OutcomeUnknown) results)"

definition round_ok :: "hop list \<Rightarrow> bool" where
  "round_ok results = (let wins = contention_wins results; unknowns = contention_unknowns results in
     (unknowns = 0 \<and> wins = 1) \<or> (unknowns > 0 \<and> wins \<le> 1))"

definition contender_body :: "nat \<Rightarrow> ('w, 't, 'e, 'i) run_env \<Rightarrow> run_options \<Rightarrow> nat \<Rightarrow> string \<Rightarrow> string \<Rightarrow> nat \<Rightarrow>
    ('w, hop) action" where
  "contender_body fuel env opt rnd key base i r w =
     (case invoke_action fuel env (NewClient (101 + of_nat i) (roNodes opt))
        ((client_op (101 + of_nat i) ''cas'' key (''winner-'' @ itoa rnd @ ''-'' @ itoa i))\<lparr>hExpect := Some base\<rparr>)
        (20 * Second) False None r w of
        Inl e \<Rightarrow> Inl e
      | Inr ((op, c), r', w') \<Rightarrow> Inr (op, r', w'))"

definition contention_round :: "nat \<Rightarrow> ('w, 't, 'e, 'i) run_env \<Rightarrow> run_options \<Rightarrow> nat \<Rightarrow> bool \<times> string \<Rightarrow>
    (('w, 't) run_state, bool \<times> string) phase" where
  "contention_round fuel env opt rnd = (\<lambda>(allPass, detail).
     let key = ''cas-arena-'' @ itoa rnd; base = ''base-'' @ itoa rnd in
     andThen (invoke fuel env (NewClient 100 (roNodes opt)) (client_op 100 ''put'' key base) (20 * Second) False None) (\<lambda>(w, _).
     if hOutcome w \<noteq> OutcomeOK then
       pure (False, detail @ ''round '' @ itoa rnd @ '': setup put failed; '')
     else
     andThen (acting (rvContend env (map (contender_body fuel env opt rnd key base) [0..<6]))) (\<lambda>results.
     pure (allPass \<and> round_ok results,
       detail @ ''round '' @ itoa rnd @ '': '' @ itoa (contention_wins results) @ '' winners, '' @
         itoa (contention_unknowns results) @ '' unknown; ''))))"

definition phaseCASContention :: "nat \<Rightarrow> ('w, 't, 'e, 'i) run_env \<Rightarrow> run_options \<Rightarrow> (('w, 't) run_state, unit) phase" where
  "phaseCASContention fuel env opt =
     andThen (each (contention_round fuel env opt) [0..<3] (True, '''')) (\<lambda>(allPass, detail).
     check ''cas-single-winner'' allPass detail)"

section \<open>Killing the leader\<close>

definition find_leader :: "('w, 't, 'e, 'i) run_env \<Rightarrow> (('w, 't) run_state, node option) phase" where
  "find_leader env = on_faults (\<lambda>f w. let (l, w') = LeaderID (rvFault env) f w in (NodeByID f l, f, w'))"

definition start_later :: "('w, 't, 'e, 'i) run_env \<Rightarrow> node \<Rightarrow> unit \<Rightarrow> (('w, 't) run_state, unit) phase" where
  "start_later env n = (\<lambda>_. on_world (\<lambda>w. ((), snd (run_cmd (rvFault env) (start_cmd n) w))))"

definition kill_leader :: "('w, 't, 'e, 'i) run_env \<Rightarrow> node option \<Rightarrow> node list \<Rightarrow> (('w, 't) run_state, node list) phase" where
  "kill_leader env leader later = (case leader of
     None \<Rightarrow> pure later
   | Some n \<Rightarrow> andThen (on_faults (Kill (rvFault env) n)) (\<lambda>_. pure (n # later)))"

text \<open>One try to read back; the last answer is kept.\<close>

definition read_back :: "nat \<Rightarrow> ('w, 't, 'e, 'i) run_env \<Rightarrow> int64 \<Rightarrow> string \<Rightarrow> client \<times> hop \<Rightarrow>
    (('w, 't) run_state, bool \<times> client \<times> hop) phase" where
  "read_back fuel env cid key = (\<lambda>(c, _).
     andThen (invoke fuel env c (client_op cid ''get'' key '''') (5 * Second) False None) (\<lambda>(got, c').
     pure (hOutcome got = OutcomeOK, c', got)))"

definition durable :: "string \<Rightarrow> hop \<Rightarrow> bool" where
  "durable val got \<longleftrightarrow> \<not> (hOutcome got \<noteq> OutcomeOK \<or> \<not> hPresent got \<or> hRetVal got \<noteq> val)"

definition durability_round :: "nat \<Rightarrow> ('w, 't, 'e, 'i) run_env \<Rightarrow> run_options \<Rightarrow> nat \<Rightarrow> bool \<times> string \<times> node list \<Rightarrow>
    (('w, 't) run_state, bool \<times> string \<times> node list) phase" where
  "durability_round fuel env opt i = (\<lambda>(allPass, detail, later).
     let key = ''durable-'' @ itoa i; val = ''precious-'' @ itoa i; cid = 200 + of_nat i in
     andThen (invoke fuel env (NewClient cid (roNodes opt)) (client_op cid ''put'' key val) (20 * Second) False None) (\<lambda>(w, c).
     if hOutcome w \<noteq> OutcomeOK then
       pure (False, detail @ ''iter '' @ itoa i @ '': put not acked ('' @ hOutcome w @ ''); '', later)
     else
     andThen (find_leader env) (\<lambda>leader.
     andThen (kill_leader env leader later) (\<lambda>later'.
     andThen (now env) (\<lambda>t.
     andThen (poll fuel env (t + 45 * Second) (pausing env (500 * Millisecond) (read_back fuel env cid key)) (c, zero_hop)) (\<lambda>(_, got).
     let ok = durable val got;
         detail' = (if ok then detail @ ''iter '' @ itoa i @ '': survived leader kill; ''
           else detail @ ''iter '' @ itoa i @ '': acked write lost (outcome='' @ hOutcome got @ '' present='' @
             btoa (hPresent got) @ '' val='' @ rvQuote env (hRetVal got) @ ''); '')
     in andThen (heal_all env) (\<lambda>_. andThen (sleep env (3 * Second)) (\<lambda>_.
        pure (if ok then allPass else False, detail', later')))))))))"

text \<open>The deferred starts run when the phase returns, the last one deferred first.\<close>

definition phaseLeaderKillDurability :: "nat \<Rightarrow> ('w, 't, 'e, 'i) run_env \<Rightarrow> run_options \<Rightarrow> (('w, 't) run_state, unit) phase" where
  "phaseLeaderKillDurability fuel env opt =
     andThen (each (durability_round fuel env opt) [0..<3] (True, '''', [])) (\<lambda>(allPass, detail, later).
     andThen (check ''acked-write-survives-leader-kill'' allPass detail) (\<lambda>_.
     each (start_later env) later ()))"

section \<open>A leader cut off\<close>

definition minority_probe :: "nat \<Rightarrow> ('w, 't, 'e, 'i) run_env \<Rightarrow> node \<Rightarrow> nat \<Rightarrow> client \<times> nat \<Rightarrow>
    (('w, 't) run_state, client \<times> nat) phase" where
  "minority_probe fuel env leader i = (\<lambda>(c, acked).
     andThen (invoke fuel env c (client_op 300 ''put'' ''minority-probe'' (''must-not-ack-'' @ itoa i)) (4 * Second) True (Some leader))
       (\<lambda>(op, c'). pure (c', if hOutcome op = OutcomeOK then acked + 1 else acked)))"

definition majority :: "node list \<Rightarrow> node \<Rightarrow> node list" where
  "majority nodes leader = filter (\<lambda>n. nID n \<noteq> nID leader) nodes"

definition majority_write :: "nat \<Rightarrow> ('w, 't, 'e, 'i) run_env \<Rightarrow> client \<times> nat \<times> bool \<Rightarrow>
    (('w, 't) run_state, bool \<times> client \<times> nat \<times> bool) phase" where
  "majority_write fuel env = (\<lambda>(c, i, _).
     andThen (invoke fuel env c (client_op 301 ''put'' ''majority-live'' (''served-'' @ itoa i)) (6 * Second) False None)
       (\<lambda>(mw, c'). pure (hOutcome mw = OutcomeOK, c', i + 1, hOutcome mw = OutcomeOK)))"

definition majority_read :: "nat \<Rightarrow> ('w, 't, 'e, 'i) run_env \<Rightarrow> client \<times> bool \<Rightarrow>
    (('w, 't) run_state, bool \<times> client \<times> bool) phase" where
  "majority_read fuel env = (\<lambda>(c, _).
     andThen (invoke fuel env c (client_op 301 ''get'' ''majority-live'' '''') (6 * Second) False None)
       (\<lambda>(mg, c'). let ok = (hOutcome mg = OutcomeOK \<and> has_prefix (hRetVal mg) ''served-'') in pure (ok, c', ok)))"

definition phaseMinorityRefusesWrites :: "nat \<Rightarrow> ('w, 't, 'e, 'i) run_env \<Rightarrow> run_options \<Rightarrow> (('w, 't) run_state, unit) phase" where
  "phaseMinorityRefusesWrites fuel env opt =
     andThen (find_leader env) (\<lambda>found. case found of
       None \<Rightarrow> check ''minority-refuses-writes'' False ''no leader found to partition''
     | Some leader \<Rightarrow>
       andThen (on_faults (Isolate (rvFault env) leader)) (\<lambda>_.
       andThen (sleep env (2 * Second)) (\<lambda>_.
       andThen (each (minority_probe fuel env leader) [0..<4] (NewClient 300 (roNodes opt), 0 :: nat)) (\<lambda>(_, acked).
       andThen (now env) (\<lambda>t.
       let mc = NewClient 301 (majority (roNodes opt) leader); mdeadline = t + 30 * Second in
       andThen (poll fuel env mdeadline (pausing env (500 * Millisecond) (majority_write fuel env)) (mc, 0 :: nat, False)) (\<lambda>(mc', _, writeAcked).
       andThen (if writeAcked
                then poll fuel env (mdeadline + 10 * Second) (pausing env (500 * Millisecond) (majority_read fuel env)) (mc', False)
                else pure (mc', False)) (\<lambda>(_, readOK).
       andThen (heal_all env) (\<lambda>_.
       andThen (sleep env (3 * Second)) (\<lambda>_.
       andThen (check ''minority-refuses-writes'' (acked = 0)
          (''isolated leader '' @ nID leader @ '' acked '' @ itoa acked @ ''/4 direct writes (must be 0)'')) (\<lambda>_.
       check ''majority-keeps-serving'' (writeAcked \<and> readOK)
          (''majority side during leader partition: write acked='' @ btoa writeAcked @ '', read ok='' @ btoa readOK)))))))))))"

section \<open>Chaos\<close>

text \<open>One round of a workload client.\<close>

definition chaos_client :: "nat \<Rightarrow> ('w, 't, 'e, 'i) run_env \<Rightarrow> string list \<Rightarrow> client \<Rightarrow> ('w, client) action" where
  "chaos_client fuel env keys c r w =
     (case RandomOp (rvClient env) c keys w of
        Inl p \<Rightarrow> Inl (Panicked p)
      | Inr (op, c1, w1) \<Rightarrow>
          (case invoke_action fuel env c1 op (8 * Second) False None r w1 of
             Inl e \<Rightarrow> Inl e
           | Inr ((_, c2), r2, w2) \<Rightarrow>
               let (k, w3) = ceIntn (rvClient env) 40 w2 in
               Inr (c2, r2, ceSleep (rvClient env) (of_nat k * Millisecond) w3)))"

definition chaos_keys :: "run_options \<Rightarrow> string list" where
  "chaos_keys opt = map (\<lambda>i. ''k'' @ itoa i) [0..<nat (roNumKeys opt)]"

definition fault_sleep :: "('w, 't, 'e, 'i) run_env \<Rightarrow> nat \<Rightarrow> nat \<Rightarrow> (('w, 't) run_state, unit) phase" where
  "fault_sleep env base spread =
     andThen (on_world (rvFaultIntn env spread)) (\<lambda>k. sleep env (of_nat (base + k) * Millisecond))"

definition random_node :: "('w, 't, 'e, 'i) run_env \<Rightarrow> run_options \<Rightarrow> (('w, 't) run_state, node) phase" where
  "random_node env opt =
     (if roNodes opt = [] then (\<lambda>s. Inl (Panicked EmptyIntn))
      else andThen (on_world (rvFaultIntn env (length (roNodes opt)))) (\<lambda>k. pure (roNodes opt ! k)))"

definition fault_target :: "('w, 't, 'e, 'i) run_env \<Rightarrow> run_options \<Rightarrow> nat \<Rightarrow> (('w, 't) run_state, node) phase" where
  "fault_target env opt mode =
     andThen (if mode \<le> 1 then find_leader env else pure None) (\<lambda>target.
       case target of Some n \<Rightarrow> pure n | None \<Rightarrow> random_node env opt)"

definition inflict :: "('w, 't, 'e, 'i) run_env \<Rightarrow> nat \<Rightarrow> node \<Rightarrow> (('w, 't) run_state, unit) phase" where
  "inflict env mode target =
     (if mode mod 2 = 0 then
        andThen (on_faults (Kill (rvFault env) target)) (\<lambda>_.
        andThen (fault_sleep env 3000 5000) (\<lambda>_.
        andThen (on_faults (Start (rvFault env) target)) (\<lambda>_. pure ())))
      else
        andThen (on_faults (Isolate (rvFault env) target)) (\<lambda>_.
        andThen (fault_sleep env 5000 8000) (\<lambda>_. heal_all env)))"

definition fault_round :: "('w, 't, 'e, 'i) run_env \<Rightarrow> run_options \<Rightarrow> unit \<Rightarrow> (('w, 't) run_state, bool \<times> unit) phase" where
  "fault_round env opt _ =
     andThen (fault_sleep env 2000 3000) (\<lambda>_.
     andThen (on_world (rvFaultIntn env 4)) (\<lambda>mode.
     andThen (fault_target env opt mode) (\<lambda>target.
     andThen (inflict env mode target) (\<lambda>_.
     andThen (fault_sleep env 1000 2000) (\<lambda>_. pure (False, ()))))))"

text \<open>The slice of the keys is made with its length, and making one of negative length panics.\<close>

definition phaseChaos :: "nat \<Rightarrow> ('w, 't, 'e, 'i) run_env \<Rightarrow> run_options \<Rightarrow> (('w, 't) run_state, unit) phase" where
  "phaseChaos fuel env opt =
     (if roNumKeys opt < 0 then (\<lambda>s. Inl NegativeLen) else
     andThen (on_world (\<lambda>w. ((), rvTraffic env
        (map (\<lambda>i. (NewClient (1 + of_nat i) (roNodes opt), chaos_client fuel env (chaos_keys opt))) [0..<nat (roNumClients opt)]) w))) (\<lambda>_.
     andThen (now env) (\<lambda>t.
     andThen (poll fuel env (t + roDuration opt) (fault_round env opt) ()) (\<lambda>_.
     andThen (acting (rvJoin env)) (\<lambda>_.
     andThen (heal_all env) (\<lambda>_ s.
     check ''chaos-completed'' True
       (itoa (length (fEvents (rsFaults s))) @ '' faults injected over '' @ rvDurText env (roDuration opt)) s))))))"

section \<open>Convergence\<close>

record node_state =
  nsNode :: string
  nsLastApplied :: string
  nsData :: gomap

definition zero_node_state :: node_state where
  "zero_node_state = \<lparr>nsNode = '''', nsLastApplied = '''', nsData = NilMap\<rparr>"

definition state_field :: "string \<Rightarrow> json \<Rightarrow> node_state \<Rightarrow> node_state \<times> bool" where
  "state_field k v s =
     (if key_is k ''node'' then (let (x, e) = dec_string v (nsNode s) in (s\<lparr>nsNode := x\<rparr>, e))
      else if key_is k ''last_applied'' then (let (x, e) = dec_string v (nsLastApplied s) in (s\<lparr>nsLastApplied := x\<rparr>, e))
      else if key_is k ''data'' then (let (x, e) = dec_strmap v (nsData s) in (s\<lparr>nsData := x\<rparr>, e))
      else (s, False))"

primrec fetch_states :: "('w, 't, 'e, 'i) run_env \<Rightarrow> node list \<Rightarrow> node_state list \<Rightarrow> 'w \<Rightarrow> node_state list \<times> 'w" where
  "fetch_states env [] states w = (states, w)"
| "fetch_states env (n # ns) states w = (case rvGet env (nURL n @ ''/internal/state'') w of
     (None, w') \<Rightarrow> (states, w')
   | (Some body, w') \<Rightarrow> (case decode_stream (dec_struct state_field) body zero_node_state of
       (s, Some e) \<Rightarrow> (states, w')
     | (s, None) \<Rightarrow> fetch_states env ns (states @ [s]) w'))"

definition identical :: "node_state list \<Rightarrow> bool" where
  "identical st \<longleftrightarrow> nsData (st ! 0) = nsData (st ! 1) \<and> nsData (st ! 1) = nsData (st ! 2) \<and>
     nsLastApplied (st ! 0) = nsLastApplied (st ! 1) \<and> nsLastApplied (st ! 1) = nsLastApplied (st ! 2)"

definition convergence_round :: "('w, 't, 'e, 'i) run_env \<Rightarrow> run_options \<Rightarrow> bool \<times> string \<Rightarrow>
    (('w, 't) run_state, bool \<times> bool \<times> string) phase" where
  "convergence_round env opt = (\<lambda>(_, detail).
     andThen (on_world (fetch_states env (roNodes opt) [])) (\<lambda>states.
     if length states = 3 then
       (if identical states then
          andThen (check ''replicas-converge'' True (''all 3 nodes identical: '' @
             itoa (fcard (fmdom (gomap_entries (nsData (states ! 0))))) @ '' keys at applied index '' @ nsLastApplied (states ! 0)))
            (\<lambda>_. pure (True, True, detail))
        else pure (False, False, ''applied indexes: '' @ nsLastApplied (states ! 0) @ ''/'' @ nsLastApplied (states ! 1) @
           ''/'' @ nsLastApplied (states ! 2)))
     else pure (False, False, ''only '' @ itoa (length states) @ ''/3 nodes reachable'')))"

definition phaseConvergence :: "nat \<Rightarrow> ('w, 't, 'e, 'i) run_env \<Rightarrow> run_options \<Rightarrow> (('w, 't) run_state, unit) phase" where
  "phaseConvergence fuel env opt =
     andThen (heal_all env) (\<lambda>_.
     andThen (now env) (\<lambda>t.
     andThen (poll fuel env (t + 90 * Second) (pausing env (2 * Second) (convergence_round env opt)) (False, '''')) (\<lambda>(returned, detail).
     if returned then pure ()
     else check ''replicas-converge'' False (''no convergence within 90s: '' @ detail))))"

section \<open>The verdict and the report\<close>

definition phaseLinearizability :: "('w, 't, 'e, 'i) run_env \<Rightarrow> run_options \<Rightarrow> (('w, 't) run_state, unit) phase" where
  "phaseLinearizability env opt s =
     (let ops = recOps (rsRec s) in
      andThen (timed_check env ops (300 * Second)) (\<lambda>res.
      let detail = itoa (length ops) @ '' recorded ops ('' @ itoa (crOps res) @ '' checkable after exclusions)'' in
      if crLinearizable res then check ''history-linearizable'' True detail
      else
        let vizPath = join_path [roOutDir opt, ''linearizability-violation.html''] in
        andThen (on_world (rvVisualize env vizPath (crInfo res))) (\<lambda>created.
        check ''history-linearizable'' False (if created then detail @ ''; violation visualization: '' @ vizPath else detail))) s)"

definition count_outcome :: "string \<Rightarrow> hop list \<Rightarrow> nat" where
  "count_outcome out ops = length (filter (\<lambda>op. hOutcome op = out) ops)"

definition finish :: "('w, 't, 'e, 'i) run_env \<Rightarrow> run_options \<Rightarrow> (('w, 't) run_state, os_err + 't report) phase" where
  "finish env opt s =
     (let ops = recOps (rsRec s);
          rep = (rsReport s)\<lparr>rpFinishedAt := Some (fvNow (rvFault env) (rsWorld s)), rpOpsTotal := length ops,
            rpOpsOK := rpOpsOK (rsReport s) + count_outcome OutcomeOK ops,
            rpOpsFailed := rpOpsFailed (rsReport s) + count_outcome OutcomeFailed ops,
            rpOpsUnknown := rpOpsUnknown (rsReport s) + count_outcome OutcomeUnknown ops,
            rpFaults := fEvents (rsFaults s)\<rparr>;
          histFile = join_path [roOutDir opt, ''history.jsonl''];
          (err, d) = WriteFile (rvFile env histFile (rsWorld s)) ops;
          w1 = rvSetFile env histFile d (rsWorld s)
      in case err of
           Some e \<Rightarrow> Inr (Inl e, s\<lparr>rsReport := rep, rsWorld := w1\<rparr>)
         | None \<Rightarrow>
             let rep2 = rep\<lparr>rpHistoryFile := histFile, rpAllPassed := \<not> failed rep\<rparr>;
                 (err2, w2) = rvWriteFile env (join_path [roOutDir opt, ''report.json'']) (report_text (rvTimeText env) rep2) w1
             in Inr (case err2 of Some e \<Rightarrow> Inl e | None \<Rightarrow> Inr rep2, s\<lparr>rsReport := rep2, rsWorld := w2\<rparr>))"

definition fault_phases :: "nat \<Rightarrow> ('w, 't, 'e, 'i) run_env \<Rightarrow> run_options \<Rightarrow> (('w, 't) run_state, unit) phase" where
  "fault_phases fuel env opt =
     andThen (phaseLeaderKillDurability fuel env opt) (\<lambda>_.
     andThen (phaseMinorityRefusesWrites fuel env opt) (\<lambda>_.
     andThen (phaseChaos fuel env opt) (\<lambda>_. phaseConvergence fuel env opt)))"

definition run_phases :: "nat \<Rightarrow> ('w, 't, 'e, 'i) run_env \<Rightarrow> run_options \<Rightarrow> (('w, 't) run_state, os_err + 't report) phase" where
  "run_phases fuel env opt =
     andThen (phaseCheckerSelfTest env opt) (\<lambda>_ s.
     if failed (rsReport s) then finish env opt s
     else
       andThen (phaseReset fuel env opt) (\<lambda>_.
       andThen (phaseSmoke fuel env opt) (\<lambda>_.
       andThen (phaseCASContention fuel env opt) (\<lambda>_.
       andThen (if \<not> roSkipFaults opt then fault_phases fuel env opt else pure ()) (\<lambda>_.
       andThen (phaseLinearizability env opt) (\<lambda>_. finish env opt))))) s)"

definition start_state :: "('w, 't, 'e, 'i) run_env \<Rightarrow> run_options \<Rightarrow> 'w \<Rightarrow> ('w, 't) run_state" where
  "start_state env opt w = \<lparr>rsWorld = w, rsRec = \<lparr>recOps = []\<rparr>, rsFaults = \<lparr>fNodes = roNodes opt, fEvents = []\<rparr>,
     rsReport = \<lparr>rpStartedAt = fvNow (rvFault env) w, rpFinishedAt = None, rpSeed = roSeed opt, rpChecks = [], rpFaults = [],
       rpOpsTotal = 0, rpOpsOK = 0, rpOpsFailed = 0, rpOpsUnknown = 0, rpHistoryFile = '''', rpAllPassed = False\<rparr>\<rparr>"

definition Run :: "nat \<Rightarrow> ('w, 't, 'e, 'i) run_env \<Rightarrow> run_options \<Rightarrow> 'w \<Rightarrow>
    run_stop + ((os_err + 't report) \<times> ('w, 't) run_state)" where
  "Run fuel env opt w =
     (let s = start_state env opt w; (err, w1) = rvMkdirAll env (roOutDir opt) w in
      case err of Some e \<Rightarrow> Inr (Inl e, s\<lparr>rsWorld := w1\<rparr>)
      | None \<Rightarrow> run_phases fuel env opt (s\<lparr>rsWorld := w1\<rparr>))"

end
