(* ===== verification/Fixtures.thy ===== *)
theory Fixtures
  imports Checker
begin

text \<open>
  The fixtures the harness tests its checker with, \<open>harness/fixtures/*.jsonl\<close>, as the bytes of
  the files, and the operations that \<open>internal/history\<close> reads from them.
\<close>

section \<open>Lines written by hand\<close>

text \<open>The lines of a fixture leave out members that \<open>WriteFile\<close> would print.\<close>

definition reads_as :: "json \<Rightarrow> hop \<Rightarrow> bool" where
  "reads_as j op \<longleftrightarrow> jints j \<and> jdepth j \<le> max_depth \<and> length (jprint j) \<le> 1000 \<and>
     last (jprint j) = CHR ''}'' \<and> jprint j \<noteq> [] \<and> dec_struct hop_field (jsan j) zero_hop = (op, False)"

lemma reads_as_line:
  assumes "reads_as j op"
  shows "hop_of_line (jprint j) = (op, None)" "drop_cr (jprint j) = jprint j"
    "\<forall>c \<in> set (jprint j). c \<noteq> CHR 0x0A" "jprint j \<noteq> []" "length (jprint j) < max_token"
  using assms no_newline [OF no_ctl_jprint [of j]]
  by (simp_all add: reads_as_def hop_of_line_def unmarshal_jprint drop_cr_def max_token_def)

lemma scan_json_lines:
  assumes "list_all2 reads_as js ops"
  shows "scan_lines max_token (concat (map (\<lambda>j. jprint j @ [CHR 0x0A]) js)) = (map jprint js, False)"
  using assms
proof (induction js ops rule: list_all2_induct)
  case Nil
  then show ?case by (simp add: scan_lines.simps)
next
  case (Cons j js op ops)
  then show ?case
    using scan_lines_step [OF reads_as_line(3,5) [OF Cons.hyps(1)]] by (simp add: reads_as_line(2))
qed

lemma loop_json_lines:
  assumes "list_all2 reads_as js ops"
  shows "read_loop n (map jprint js) acc = Inr (acc @ ops)"
  using assms by (induction js ops arbitrary: n acc rule: list_all2_induct) (simp_all add: reads_as_line)

lemma Read_json_lines:
  "list_all2 reads_as js ops \<Longrightarrow> Read (concat (map (\<lambda>j. jprint j @ [CHR 0x0A]) js)) = (ops, None)"
  by (simp add: Read_def scan_json_lines loop_json_lines)

section \<open>The files\<close>

definition bad_fixture :: "string list" where
  \<open>bad_fixture =
    [''{"client":1,"op":"put","key":"k","value":"a","start_ns":10,"end_ns":20,"outcome":"ok","ok":true}'',
     ''{"client":1,"op":"put","key":"k","value":"b","start_ns":30,"end_ns":40,"outcome":"ok","ok":true}'',
     ''{"client":2,"op":"get","key":"k","start_ns":50,"end_ns":60,"outcome":"ok","ok":true,"present":true,"ret_val":"a"}'']\<close>

definition good_fixture :: "string list" where
  \<open>good_fixture =
    [''{"client":1,"op":"put","key":"k","value":"a","start_ns":10,"end_ns":20,"outcome":"ok","ok":true}'',
     ''{"client":2,"op":"get","key":"k","start_ns":15,"end_ns":25,"outcome":"ok","ok":true,"present":true,"ret_val":"a"}'',
     ''{"client":1,"op":"cas","key":"k","expect":"a","value":"b","start_ns":30,"end_ns":40,"outcome":"ok","ok":true}'',
     ''{"client":3,"op":"cas","key":"k","expect":"a","value":"c","start_ns":45,"end_ns":65,"outcome":"ok","ok":false,"present":true,"ret_val":"b"}'',
     ''{"client":2,"op":"get","key":"k","start_ns":50,"end_ns":60,"outcome":"ok","ok":true,"present":true,"ret_val":"b"}'',
     ''{"client":2,"op":"delete","key":"k","start_ns":70,"end_ns":80,"outcome":"ok","ok":true,"present":true}'',
     ''{"client":3,"op":"put","key":"k","value":"z","start_ns":85,"end_ns":88,"outcome":"unknown"}'',
     ''{"client":2,"op":"get","key":"k","start_ns":90,"end_ns":95,"outcome":"ok","ok":true,"present":false}'']\<close>

definition file_of_lines :: "string list \<Rightarrow> bytes" where
  "file_of_lines ls = concat (map (\<lambda>l. l @ [CHR 0x0A]) ls)"

definition op_line :: "int \<Rightarrow> string \<Rightarrow> (string \<times> json) list \<Rightarrow> int \<Rightarrow> int \<Rightarrow> string \<Rightarrow> (string \<times> json) list \<Rightarrow> json" where
  "op_line c op args s e out res = JObj
     ([(''client'', JNum (int_dec c)), (''op'', JStr op), (''key'', JStr ''k'')] @ args @
      [(''start_ns'', JNum (int_dec s)), (''end_ns'', JNum (int_dec e)), (''outcome'', JStr out)] @ res)"

definition bad_json :: "json list" where
  "bad_json =
    [op_line 1 ''put'' [(''value'', JStr ''a'')] 10 20 ''ok'' [(''ok'', JBool True)],
     op_line 1 ''put'' [(''value'', JStr ''b'')] 30 40 ''ok'' [(''ok'', JBool True)],
     op_line 2 ''get'' [] 50 60 ''ok'' [(''ok'', JBool True), (''present'', JBool True), (''ret_val'', JStr ''a'')]]"

definition good_json :: "json list" where
  "good_json =
    [op_line 1 ''put'' [(''value'', JStr ''a'')] 10 20 ''ok'' [(''ok'', JBool True)],
     op_line 2 ''get'' [] 15 25 ''ok'' [(''ok'', JBool True), (''present'', JBool True), (''ret_val'', JStr ''a'')],
     op_line 1 ''cas'' [(''expect'', JStr ''a''), (''value'', JStr ''b'')] 30 40 ''ok'' [(''ok'', JBool True)],
     op_line 3 ''cas'' [(''expect'', JStr ''a''), (''value'', JStr ''c'')] 45 65 ''ok''
       [(''ok'', JBool False), (''present'', JBool True), (''ret_val'', JStr ''b'')],
     op_line 2 ''get'' [] 50 60 ''ok'' [(''ok'', JBool True), (''present'', JBool True), (''ret_val'', JStr ''b'')],
     op_line 2 ''delete'' [] 70 80 ''ok'' [(''ok'', JBool True), (''present'', JBool True)],
     op_line 3 ''put'' [(''value'', JStr ''z'')] 85 88 ''unknown'' [],
     op_line 2 ''get'' [] 90 95 ''ok'' [(''ok'', JBool True), (''present'', JBool False)]]"

lemma fixture_json: "map jprint bad_json = bad_fixture" "map jprint good_json = good_fixture"
  by code_simp+

lemma fixture_lengths: "list_all (\<lambda>l. length l \<le> 1000) bad_fixture" "list_all (\<lambda>l. length l \<le> 1000) good_fixture"
  by (simp_all add: bad_fixture_def good_fixture_def)

lemma reads_op_line:
  assumes "length (jprint (op_line c op args s e out res)) \<le> 1000" and "\<forall>(k, v) \<in> set (args @ res). jints v \<and> jdepth v = 0"
    and "dec_struct hop_field (jsan (op_line c op args s e out res)) zero_hop = (x, False)"
  shows "reads_as (op_line c op args s e out res) x"
proof -
  have d: "foldr max (map (\<lambda>(k, v). jdepth v) ms) 0 = 0" if "\<forall>(k, v) \<in> set ms. jdepth v = 0" for ms :: "(string \<times> json) list"
    using that by (induction ms) auto
  have "jdepth (op_line c op args s e out res) = Suc 0"
    unfolding op_line_def jdepth.simps by (subst d) (use assms(2) in auto)
  moreover have "jints (op_line c op args s e out res)"
    using assms(2) by (auto simp: op_line_def)
  moreover have "last (jprint (op_line c op args s e out res)) = CHR ''}'' \<and> jprint (op_line c op args s e out res) \<noteq> []"
    by (simp add: op_line_def)
  ultimately show ?thesis
    using assms(1,3) by (simp add: reads_as_def max_depth_def)
qed

lemma parse_small: "0 \<le> i \<Longrightarrow> i < 1000 \<Longrightarrow> parse_int64 (int_dec i) = Some (word_of_int i)"
  using parse_int_dec [of "word_of_int i"] by (simp add: sint64_of_int)

lemmas op_line_reads = op_line_def hop_field_def key_is_def parse_small put_op_def get_op_def cas_op_def zero_hop_def outcome_defs

lemma bad_reads: "list_all2 reads_as bad_json known_bad"
proof -
  have len: "list_all (\<lambda>j. length (jprint j) \<le> 1000) bad_json"
    using fixture_lengths(1) unfolding fixture_json(1) [symmetric] list_all_length by simp
  show ?thesis
    using len unfolding bad_json_def known_bad_def list_all2_Cons list.pred_inject
    by (intro conjI reads_op_line) (simp_all add: op_line_reads del: jprint.simps)
qed

lemma good_reads: "list_all2 reads_as good_json known_good"
proof -
  have len: "list_all (\<lambda>j. length (jprint j) \<le> 1000) good_json"
    using fixture_lengths(2) unfolding fixture_json(2) [symmetric] list_all_length by simp
  show ?thesis
    using len unfolding good_json_def known_good_def list_all2_Cons list.pred_inject
    by (intro conjI reads_op_line) (simp_all add: op_line_reads del: jprint.simps)
qed

lemma Read_fixtures:
  "Read (file_of_lines bad_fixture) = (known_bad, None)" "Read (file_of_lines good_fixture) = (known_good, None)"
  using Read_json_lines [OF bad_reads] Read_json_lines [OF good_reads]
  by (simp_all add: file_of_lines_def fixture_json [symmetric] comp_def del: jprint.simps)

end
