(* ===== verification/Rig.thy ===== *)
theory Rig
  imports Run Fixtures
begin

text \<open>
  A world for the harness to run in: a store that answers every request with what the state
  machine says, a clock that stands still, containers, and files. Goroutines run one after
  the other, and the search of \<open>Linearizability\<close> is the checker. Operations on plain keys are
  answered; a run without faults passes.
\<close>

section \<open>Plain text\<close>

definition plain_text :: "string \<Rightarrow> bool" where
  "plain_text s \<longleftrightarrow> list_all plain_char s \<and> length s \<le> 50"

lemma plain_char_esc:
  assumes "plain_char c"
  shows "byte c < 128 \<and> esc_ascii c = [c]"
proof -
  have "\<not> plain_char qmark" "\<not> plain_char bslash" "\<not> plain_char (CHR 0x08)" "\<not> plain_char (CHR 0x0C)"
    "\<not> plain_char (CHR 0x0A)" "\<not> plain_char (CHR 0x0D)" "\<not> plain_char (CHR 0x09)" "\<not> plain_char (CHR ''<'')"
    "\<not> plain_char (CHR ''>'')" "\<not> plain_char (CHR ''&'')"
    by (simp_all add: plain_char_def)
  then have "c \<notin> {qmark, bslash, CHR 0x08, CHR 0x0C, CHR 0x0A, CHR 0x0D, CHR 0x09, CHR ''<'', CHR ''>'', CHR ''&''}"
    using assms by blast
  moreover have "32 \<le> byte c \<and> byte c < 128"
    using assms unfolding plain_char_def by (elim disjE) simp_all
  ultimately show ?thesis by (simp add: esc_ascii_def)
qed

lemma esc_plain: "list_all plain_char s \<Longrightarrow> esc s = s"
  by (induction s) (auto simp: plain_char_esc)

lemma quote_plain: "list_all plain_char s \<Longrightarrow> quote s = qmark # s @ [qmark]"
  by (simp add: quote_def esc_plain)

lemma to_valid_plain: "list_all plain_char s \<Longrightarrow> to_valid s = s"
  by (induction s) (auto simp: plain_char_esc)

lemma length_nat_dec: "n < 10 ^ Suc k \<Longrightarrow> length (nat_dec n) \<le> Suc k"
proof (induction k arbitrary: n)
  case 0
  then show ?case by (simp add: nat_dec.simps [of n])
next
  case (Suc k)
  then have "n div 10 < 10 ^ Suc k" by simp
  from Suc.IH [OF this] show ?case by (simp add: nat_dec.simps [of n])
qed

lemma length_int_dec: "length (int_dec (sint w)) \<le> 20" for w :: int64
proof -
  have "int (nat (sint w)) < 10 ^ Suc 18" "int (nat (- sint w)) < 10 ^ Suc 18"
    using sint64_bounds [of w] by (simp_all only: int_nat_eq split: if_splits) simp_all
  then have "nat (sint w) < 10 ^ Suc 18" "nat (- sint w) < 10 ^ Suc 18"
    by (simp_all only: of_nat_less_iff [where ?'a = int, symmetric] of_nat_power of_nat_numeral)
  from this [THEN length_nat_dec] show ?thesis by (auto simp: int_dec_def)
qed

lemma nat_dec_plain: "list_all plain_char (nat_dec n)"
  using nat_dec_digits [of n] by (auto simp: list_all_iff plain_char_def is_digit_def)

section \<open>The world\<close>

record rig =
  rgStore :: fsm
  rgTime :: nat
  rgServed :: nat
  rgFiles :: "string \<Rightarrow> bytes option"
  rgHost :: host

definition no_answer :: net_error where
  "no_answer = \<lparr>neErrnos = [], neOpError = None\<rparr>"

definition rig_do :: "http_request \<Rightarrow> rig \<Rightarrow> (net_error + reply) \<times> rig" where
  "rig_do q w = (case request_command (\<lambda>_ _. '''') (wire_request (hd default_nodes) q) of
     None \<Rightarrow> (Inl no_answer, w)
   | Some (raw, c) \<Rightarrow> (case apply_command (rgStore w) c of
       Inl p \<Rightarrow> (Inl no_answer, w)
     | Inr (res, f) \<Rightarrow> (Inr (reply_of (writeJSON 200 (result_json res))),
         w\<lparr>rgStore := f, rgServed := rgServed w + 1\<rparr>)))"

definition rig_client :: "rig client_env" where
  "rig_client = \<lparr>ceNow = (\<lambda>w. (word_of_int (min (int (rgTime w)) max_int64), w)),
     ceSleep = (\<lambda>d w. w), ceIntn = (\<lambda>n w. (0, w)),
     ceFloat64 = (\<lambda>w. (0, w)), ceURLOk = (\<lambda>_. True), ceDo = (\<lambda>ctx. rig_do)\<rparr>"

text \<open>\<open>leader\<close> is what the nodes say when asked for the leader.\<close>

definition rig_fault :: "string \<Rightarrow> (rig, nat, unit) fault_env" where
  "rig_fault leader = \<lparr>fvExec = (\<lambda>cmd w. let (r, h) = host_exec cmd (rgHost w) in (r, w\<lparr>rgHost := h\<rparr>)), fvNow = rgTime,
     fvGet = (\<lambda>u w. (Some (jprint (JObj [(''leader_id'', JStr leader)])), w))\<rparr>"

text \<open>Goroutines one after the other.\<close>

primrec one_by_one :: "('w, 'a) action list \<Rightarrow> ('w, 'a list) action" where
  "one_by_one [] r w = Inr ([], r, w)"
| "one_by_one (g # gs) r w = (case g r w of
     Inl e \<Rightarrow> Inl e
   | Inr (a, r1, w1) \<Rightarrow> (case one_by_one gs r1 w1 of
       Inl e \<Rightarrow> Inl e
     | Inr (as, r2, w2) \<Rightarrow> Inr (a # as, r2, w2)))"

text \<open>The disk has room for what the store has served.\<close>

definition rig_file :: "string \<Rightarrow> rig \<Rightarrow> disk" where
  "rig_file p w = \<lparr>dkFile = rgFiles w p, dkFree = 1000 * rgServed w, dkWritable = True\<rparr>"

definition rig_env :: "string \<Rightarrow> (rig, nat, unit, unit) run_env" where
  "rig_env leader = \<lparr>rvClient = rig_client, rvFault = rig_fault leader, rvFaultIntn = (\<lambda>n w. (0, w)),
     rvGet = (\<lambda>u w. (None, w)), rvContend = one_by_one, rvTraffic = (\<lambda>gs w. w), rvJoin = (\<lambda>r w. Inr ((), r, w)),
     rvFile = rig_file, rvSetFile = (\<lambda>p d w. w\<lparr>rgFiles := (rgFiles w)(p := dkFile d)\<rparr>),
     rvMkdirAll = (\<lambda>p w. (None, w)), rvWriteFile = (\<lambda>p b w. (None, w\<lparr>rgFiles := (rgFiles w)(p := Some b)\<rparr>)), rvTimeText = nat_dec,
     rvPorcupine = search_check, rvChecking = (\<lambda>ops t w. w), rvVisualize = (\<lambda>p i w. (True, w)),
     rvErrText = (\<lambda>e. ''error''), rvQuote = (\<lambda>s. s), rvDurText = (\<lambda>d. ''1m30s'')\<rparr>"

definition rig_world :: rig where
  "rig_world = \<lparr>rgStore = NewFSM, rgTime = 0, rgServed = 0,
     rgFiles = [''fixtures/known-bad-history.jsonl'' \<mapsto> file_of_lines bad_fixture,
       ''fixtures/known-good-history.jsonl'' \<mapsto> file_of_lines good_fixture], rgHost = calm_host\<rparr>"

definition rig_opts :: run_options where
  "rig_opts = \<lparr>roNodes = default_nodes, roDuration = 90 * Second, roNumClients = 0, roNumKeys = 0, roSeed = 1,
     roOutDir = ''out'', roFixturesDir = ''fixtures'', roSkipFaults = True\<rparr>"

section \<open>An operation is answered\<close>

definition plain_op :: "hop \<Rightarrow> bool" where
  "plain_op op \<longleftrightarrow> plain_key (hKey op) \<and> plain_text (hKey op) \<and> plain_text (hValue op) \<and>
     (case hExpect op of None \<Rightarrow> True | Some x \<Rightarrow> plain_text x) \<and> hOp op \<in> {''put'', ''get'', ''delete'', ''cas''}"

definition plain_store :: "fsm \<Rightarrow> bool" where
  "plain_store f \<longleftrightarrow> fData f \<noteq> NilMap \<and> (\<forall>k v. fsm_get f k = Some v \<longrightarrow> plain_text v)"

definition hop_command :: "hop \<Rightarrow> command" where
  "hop_command op = \<lparr>cOp = hOp op, cKey = hKey op, cValue = hValue op, cExpect = hExpect op\<rparr>"

lemma plain_op_text:
  assumes "plain_op op"
  shows "list_all plain_char (hKey op)" "list_all plain_char (hValue op)" "length (hKey op) \<le> 50" "length (hValue op) \<le> 50"
    "hExpect op = Some x \<Longrightarrow> list_all plain_char x \<and> length x \<le> 50"
  using assms by (auto simp: plain_op_def plain_text_def)

lemma length_quote_lits: "length (quote ''expect'') = 8" "length (quote ''value'') = 7"
  by (simp_all add: quote_plain plain_char_def)

lemma plain_body: "plain_op op \<Longrightarrow> build_request n op np = Inr q \<Longrightarrow> length (hrBody q) \<le> max_body"
  using plain_op_text [of op]
  by (cases "hExpect op")
    (auto simp: build_request_def Let_def quote_plain length_quote_lits max_body_def json_opt_def split: if_splits)

lemma plain_wire:
  assumes "plain_op op"
  shows "spec_result (wire_command op) m = spec_result (hop_command op) m \<and>
    spec_update (wire_command op) m = spec_update (hop_command op) m"
  using assms plain_op_text [OF assms]
  by (auto simp: wire_command_def hop_command_def plain_op_def op_defs spec_result_def spec_update_def to_valid_plain
      option.map_ident split: option.splits)

lemma rig_answers:
  assumes "plain_op op" and "n \<in> set default_nodes" and "plain_store (rgStore w)"
  shows "\<exists>q f'. build_request n op np = Inr q \<and>
    rig_do q w = (Inr (reply_of (writeJSON 200 (result_json (spec_result (hop_command op) (fsm_get (rgStore w)))))),
      w\<lparr>rgStore := f', rgServed := rgServed w + 1\<rparr>) \<and>
    apply_command (rgStore w) (hop_command op) = Inr (spec_result (hop_command op) (fsm_get (rgStore w)), f') \<and>
    fsm_get f' = spec_update (hop_command op) (fsm_get (rgStore w)) \<and> fData f' \<noteq> NilMap"
proof -
  obtain q where q: "build_request n op np = Inr q"
    using assms(1) by (auto simp: plain_op_def build_request_def Let_def)
  have "wire_request (hd default_nodes) q = wire_request n q"
    using assms(2) by (auto simp: wire_request_def default_nodes_def)
  then have cmd: "request_command (\<lambda>_ _. '''') (wire_request (hd default_nodes) q) = Some (hrBody q, wire_command op)"
    using request_understood [OF _ q plain_body [OF assms(1) q]] assms(1) by (simp add: plain_op_def)
  have nn: "fData (rgStore w) \<noteq> NilMap" using assms(3) by (simp add: plain_store_def)
  have known: "known_op (wire_command op)" "known_op (hop_command op)"
    using assms(1) by (auto simp: plain_op_def known_op_def wire_command_def hop_command_def op_defs)
  obtain f' where f': "apply_command (rgStore w) (wire_command op) = Inr (spec_result (wire_command op) (fsm_get (rgStore w)), f')"
    "fsm_get f' = spec_update (wire_command op) (fsm_get (rgStore w))" "fData f' \<noteq> NilMap"
    using apply_command_spec [OF nn known(1)] by blast
  obtain f2 where f2: "apply_command (rgStore w) (hop_command op) = Inr (spec_result (hop_command op) (fsm_get (rgStore w)), f2)"
    "fsm_get f2 = spec_update (hop_command op) (fsm_get (rgStore w))" "fData f2 \<noteq> NilMap"
    using apply_command_spec [OF nn known(2)] by blast
  have "f2 = f'"
    using fsm_eq_iff [OF f2(3) f'(3)] f'(2) f2(2) plain_wire [OF assms(1)] by simp
  then show ?thesis
    using q f' f2 plain_wire [OF assms(1)] by (simp add: rig_do_def cmd)
qed

lemma plain_result:
  assumes "plain_store f"
  shows "list_all plain_char (rValue (spec_result c (fsm_get f))) \<and> length (rValue (spec_result c (fsm_get f))) \<le> 50"
proof (cases "fsm_get f (cKey c)")
  case (Some v)
  with assms have "plain_text v" by (auto simp: plain_store_def)
  with Some show ?thesis by (simp add: spec_result_def plain_text_def Let_def)
qed (simp add: spec_result_def Let_def)

lemma length_result_keys:
  "length (quote ''ok'') = 4" "length (quote ''present'') = 9" "length (quote ''value'') = 7"
  by (simp_all add: quote_plain plain_char_def)

lemma plain_reply:
  assumes "plain_store f"
  shows "classify (Inr (reply_of (writeJSON 200 (result_json (spec_result c (fsm_get f)))))) =
    (let res = spec_result c (fsm_get f) in
     \<lparr>arClass = ''ok'', arOk = rOk res, arPresent = rPresent res, arVal = rValue res\<rparr>)"
proof -
  let ?res = "spec_result c (fsm_get f)"
  note p = plain_result [OF assms, of c]
  have "length (jprint (result_json ?res)) \<le> 200"
    using p by (simp add: result_json_def length_result_keys quote_plain)
  then have "length (jprint (result_json ?res) @ [CHR 0x0A]) \<le> max_body" by (simp add: max_body_def)
  then show ?thesis
    by (simp add: classify_def reply_of_def writeJSON_def read_body_whole unmarshal_result Let_def
        to_valid_plain [OF conjunct1 [OF p]] del: jprint.simps)
qed

definition answered :: "node \<Rightarrow> hop \<Rightarrow> fsm \<Rightarrow> hop" where
  "answered n op f = (let res = spec_result (hop_command op) (fsm_get f) in
     op\<lparr>hNode := nID n, hStartNs := 0, hEndNs := 0, hOutcome := OutcomeOK, hOk := rOk res, hPresent := rPresent res,
       hRetVal := rValue res\<rparr>)"

lemma rig_invoke_action:
  assumes "plain_op op" and "clNodes c = default_nodes" and "pin = None \<or> (\<exists>n \<in> set default_nodes. pin = Some n)"
    and "plain_store (rgStore w)" and "rgTime w = 0"
  shows "\<exists>n c' f'. n \<in> set default_nodes \<and> clNodes c' = default_nodes \<and>
    invoke_action (Suc fuel) (rig_env l) c op d np pin r w =
      Inr ((answered n op (rgStore w), c'), add_op (answered n op (rgStore w)) r,
        w\<lparr>rgStore := f', rgServed := rgServed w + 1\<rparr>) \<and>
    apply_command (rgStore w) (hop_command op) = Inr (spec_result (hop_command op) (fsm_get (rgStore w)), f') \<and>
    fsm_get f' = spec_update (hop_command op) (fsm_get (rgStore w)) \<and> fData f' \<noteq> NilMap"
proof -
  define n where "n = (case pin of Some p \<Rightarrow> p | None \<Rightarrow> default_nodes ! 0)"
  have n: "n \<in> set default_nodes" using assms(3) by (auto simp: n_def default_nodes_def)
  let ?op = "op\<lparr>hNode := nID n, hStartNs := 0\<rparr>"
  have plain: "plain_op ?op" "hop_command ?op = hop_command op"
    using assms(1) by (simp_all add: plain_op_def hop_command_def)
  from rig_answers [OF plain(1) n assms(4), of np, unfolded plain(2)] obtain q f' where
    q: "build_request n ?op np = Inr q"
    "rig_do q w = (Inr (reply_of (writeJSON 200 (result_json (spec_result (hop_command op) (fsm_get (rgStore w)))))),
      w\<lparr>rgStore := f', rgServed := rgServed w + 1\<rparr>)"
    and f': "apply_command (rgStore w) (hop_command op) = Inr (spec_result (hop_command op) (fsm_get (rgStore w)), f')"
      "fsm_get f' = spec_update (hop_command op) (fsm_get (rgStore w))" "fData f' \<noteq> NilMap" by blast
  have now: "ceNow rig_client w' = (0, w')" if "rgTime w' = 0" for w'
    using that by (simp add: rig_client_def)
  have env: "rvClient (rig_env l) = rig_client" "ceIntn rig_client k w' = (0, w')" "ceURLOk rig_client u" for k w' u
    by (simp_all add: rig_env_def rig_client_def)
  have at: "doAttempt rig_client ctx n ?op np w = Inr (classify (Inr (reply_of (writeJSON 200 (result_json
      (spec_result (hop_command op) (fsm_get (rgStore w))))))), w\<lparr>rgStore := f', rgServed := rgServed w + 1\<rparr>)" for ctx
    using q by (simp add: doAttempt_def rig_client_def)
  have pick: "(case pin of Some p \<Rightarrow> p | None \<Rightarrow> clNodes c ! ((0 + 0) mod length (clNodes c))) = n"
    using assms(2) by (cases pin) (simp_all add: n_def)
  let ?a = "answered n op (rgStore w)"
  have "Invoke (Suc fuel) rig_client c op d np pin r w = Some (Inr (\<lparr>ivOp = ?a, ivSeen = noteSeen ?a (clLastSeen c), ivRec = add_op ?a r\<rparr>,
      w\<lparr>rgStore := f', rgServed := rgServed w + 1\<rparr>))"
    using assms(2,5)
    unfolding Invoke_def now [OF assms(5)] env Let_def prod.case invoke_loop.simps invoke_round_def pick
    by (simp add: at now plain_reply [OF assms(4)] round_end_def Let_def answered_def) (simp add: default_nodes_def)
  then show ?thesis
    using n f' assms(2) by (auto simp: invoke_action_def env)
qed

section \<open>Phases that end well\<close>

text \<open>From states with \<open>P\<close> the phase ends, with its result and state in \<open>Q\<close>.\<close>

definition ends_in :: "('s \<Rightarrow> bool) \<Rightarrow> ('s, 'a) phase \<Rightarrow> ('a \<Rightarrow> 's \<Rightarrow> bool) \<Rightarrow> bool" where
  "ends_in P m Q \<longleftrightarrow> (\<forall>s. P s \<longrightarrow> (\<exists>a s'. m s = Inr (a, s') \<and> Q a s'))"

lemma ends_inD: "ends_in P m Q \<Longrightarrow> P s \<Longrightarrow> \<exists>a s'. m s = Inr (a, s') \<and> Q a s'"
  by (simp add: ends_in_def)

lemma ends_andThen:
  assumes "ends_in P m R" and "\<And>a. ends_in (R a) (k a) Q"
  shows "ends_in P (andThen m k) Q"
  unfolding ends_in_def andThen_def
proof (intro allI impI)
  fix s assume "P s"
  from ends_inD [OF assms(1) this] obtain a s' where 1: "m s = Inr (a, s')" "R a s'" by blast
  from ends_inD [OF assms(2) 1(2)] 1(1)
  show "\<exists>b s''. (case m s of Inl e \<Rightarrow> Inl e | Inr (a, s') \<Rightarrow> k a s') = Inr (b, s'') \<and> Q b s''" by auto
qed

lemma ends_each:
  assumes "\<And>x a. x \<in> set xs \<Longrightarrow> ends_in (I a) (f x a) I"
  shows "ends_in (I a) (each f xs a) I"
  using assms
proof (induction xs arbitrary: a)
  case Nil
  then show ?case by (simp add: ends_in_def pure_def)
next
  case (Cons x xs)
  then show ?case by (auto intro!: ends_andThen [of _ _ I])
qed

lemma ends_loop:
  assumes "\<And>x a. x \<in> set xs \<Longrightarrow> ends_in (I a) (f x a) I" and "\<And>s. P s \<Longrightarrow> I a s" and "\<And>a. ends_in (I a) (k a) Q"
  shows "ends_in P (andThen (each f xs a) k) Q"
proof -
  have "ends_in (I a) (andThen (each f xs a) k) Q"
    using ends_each [of xs I f a] assms(1,3) by (blast intro: ends_andThen)
  with assms(2) show ?thesis by (auto simp: ends_in_def)
qed

lemma ends_weaken: "ends_in P m Q \<Longrightarrow> (\<And>s. P' s \<Longrightarrow> P s) \<Longrightarrow> (\<And>a s. Q a s \<Longrightarrow> Q' a s) \<Longrightarrow> ends_in P' m Q'"
  by (fastforce simp: ends_in_def)

lemma ends_pure: "(\<And>s. P s \<Longrightarrow> Q a s) \<Longrightarrow> ends_in P (pure a) Q"
  by (simp add: ends_in_def pure_def)

section \<open>The state of the rig in a run\<close>

text \<open>The store is what the recorded operations made of the empty one, answering each.\<close>

inductive served :: "hop list \<Rightarrow> fsm \<Rightarrow> bool" where
  served_none: "served [] NewFSM"
| served_next: "served ops f \<Longrightarrow> plain_op op \<Longrightarrow> n \<in> set default_nodes \<Longrightarrow> plain_store f \<Longrightarrow>
    apply_command f (hop_command op) = Inr (spec_result (hop_command op) (fsm_get f), f') \<Longrightarrow>
    served (ops @ [answered n op f]) f'"

definition rig_ok :: "(rig, nat) run_state \<Rightarrow> bool" where
  "rig_ok s \<longleftrightarrow> rgTime (rsWorld s) = 0 \<and> plain_store (rgStore (rsWorld s)) \<and>
     served (recOps (rsRec s)) (rgStore (rsWorld s)) \<and> rgServed (rsWorld s) = length (recOps (rsRec s)) \<and>
     \<not> failed (rsReport s)"

lemma plain_store_step:
  assumes "plain_store f" and "plain_op op" and "fsm_get f' = spec_update (hop_command op) (fsm_get f)" and "fData f' \<noteq> NilMap"
  shows "plain_store f'"
  using assms by (auto simp: plain_store_def spec_update_def hop_command_def plain_op_def split: if_splits)

text \<open>An operation of a phase, and what it leaves of a key.\<close>

lemma rig_invoke:
  assumes "plain_op op" and "pin = None \<or> (\<exists>n \<in> set default_nodes. pin = Some n)"
    and "rig_ok s" and "clNodes c = default_nodes"
  shows "\<exists>n c' s'. invoke (Suc fuel) (rig_env l) c op d np pin s = Inr ((answered n op (rgStore (rsWorld s)), c'), s') \<and>
    clNodes c' = default_nodes \<and> rig_ok s' \<and>
    fsm_get (rgStore (rsWorld s')) = spec_update (hop_command op) (fsm_get (rgStore (rsWorld s)))"
proof -
  from assms(3) have w: "plain_store (rgStore (rsWorld s))" "rgTime (rsWorld s) = 0" by (auto simp: rig_ok_def)
  from rig_invoke_action [OF assms(1,4,2) w] obtain n c' f' where n: "n \<in> set default_nodes" "clNodes c' = default_nodes"
    and i: "invoke_action (Suc fuel) (rig_env l) c op d np pin (rsRec s) (rsWorld s) =
      Inr ((answered n op (rgStore (rsWorld s)), c'), add_op (answered n op (rgStore (rsWorld s))) (rsRec s),
        (rsWorld s)\<lparr>rgStore := f', rgServed := rgServed (rsWorld s) + 1\<rparr>)"
    and f': "apply_command (rgStore (rsWorld s)) (hop_command op) =
        Inr (spec_result (hop_command op) (fsm_get (rgStore (rsWorld s))), f')"
      "fsm_get f' = spec_update (hop_command op) (fsm_get (rgStore (rsWorld s)))" "fData f' \<noteq> NilMap" by blast
  let ?s = "s\<lparr>rsRec := add_op (answered n op (rgStore (rsWorld s))) (rsRec s),
    rsWorld := (rsWorld s)\<lparr>rgStore := f', rgServed := rgServed (rsWorld s) + 1\<rparr>\<rparr>"
  have "rig_ok ?s"
    using assms(3) served_next [OF _ assms(1) n(1) w(1) f'(1)] plain_store_step [OF w(1) assms(1) f'(2,3)]
    by (simp add: rig_ok_def add_op_def)
  moreover have "invoke (Suc fuel) (rig_env l) c op d np pin s = Inr ((answered n op (rgStore (rsWorld s)), c'), ?s)"
    by (simp add: invoke_def acting_def i)
  ultimately show ?thesis
    using n(2) f'(2) by (intro exI [of _ n] exI [of _ c'] exI [of _ ?s]) simp
qed

section \<open>The phases without faults\<close>

lemma plain_text_append: "plain_text (s @ t) \<longleftrightarrow> list_all plain_char s \<and> list_all plain_char t \<and> length s + length t \<le> 50"
  by (auto simp: plain_text_def)

lemma plain_itoa: "n < 10 \<Longrightarrow> list_all plain_char (itoa n) \<and> length (itoa n) \<le> 1"
  using nat_dec_plain [of n] length_nat_dec [of n 0] by (simp add: itoa_def)

lemma plain_client_op:
  "plain_key k \<Longrightarrow> plain_text k \<Longrightarrow> plain_text v \<Longrightarrow> op \<in> {''put'', ''get'', ''delete'', ''cas''} \<Longrightarrow>
   plain_op (client_op c op k v) \<and> (plain_text x \<longrightarrow> plain_op ((client_op c op k v)\<lparr>hExpect := Some x\<rparr>))"
  by (simp add: plain_op_def client_op_def zero_hop_def)

lemma client_op_command:
  "hop_command (client_op c op k v) = \<lparr>cOp = op, cKey = k, cValue = v, cExpect = None\<rparr>"
  "hop_command ((client_op c op k v)\<lparr>hExpect := x\<rparr>) = \<lparr>cOp = op, cKey = k, cValue = v, cExpect = x\<rparr>"
  by (simp_all add: hop_command_def client_op_def zero_hop_def)

lemma answered_fields:
  "hOutcome (answered n op f) = OutcomeOK" "hOk (answered n op f) = rOk (spec_result (hop_command op) (fsm_get f))"
  "hPresent (answered n op f) = rPresent (spec_result (hop_command op) (fsm_get f))"
  "hRetVal (answered n op f) = rValue (spec_result (hop_command op) (fsm_get f))"
  by (simp_all add: answered_def Let_def)

lemma ends_checkI: "(\<And>s. P s \<Longrightarrow> rig_ok s \<and> pass) \<Longrightarrow> ends_in P (check name pass detail) (\<lambda>_. rig_ok)"
  by (auto simp: ends_in_def check_def rig_ok_def failed_def)

lemma rig_options [simp]:
  "roNodes rig_opts = default_nodes" "roOutDir rig_opts = ''out''" "roFixturesDir rig_opts = ''fixtures''" "roSkipFaults rig_opts"
  by (simp_all add: rig_opts_def)

lemma rig_reset: "ends_in rig_ok (phaseReset (Suc fuel) (rig_env l) rig_opts) (\<lambda>_. rig_ok)"
proof -
  have keys: "list_all (\<lambda>k. plain_key k \<and> plain_text k) (reset_keys rig_opts)" by code_simp
  let ?I = "\<lambda>(c, failed) s. rig_ok s \<and> clNodes c = default_nodes \<and> failed = (0 :: nat)"
  show ?thesis
    unfolding phaseReset_def Let_def rig_options
  proof (rule ends_loop [where I = ?I])
    fix k :: string and a :: "client \<times> nat"
    assume "k \<in> set (reset_keys rig_opts)"
    then have "plain_op (client_op 999 ''delete'' k '''')"
      using keys plain_client_op [of k "''''" "''delete''"] by (simp add: list_all_iff plain_text_def)
    then show "ends_in (?I a) (case a of (c, n) \<Rightarrow> andThen (invoke (Suc fuel) (rig_env l) c (client_op 999 ''delete'' k '''')
        (20 * Second) False None) (\<lambda>(op, c'). pure (c', if hOutcome op \<noteq> OutcomeOK then n + 1 else n))) ?I"
      using rig_invoke [of "client_op 999 ''delete'' k ''''" None _ "fst a" fuel l "20 * Second" False]
      by (fastforce simp: ends_in_def andThen_def pure_def answered_fields split: prod.splits)
  qed (auto simp: NewClient_def intro!: ends_checkI)
qed

lemma rig_smoke_node:
  assumes "i < 10" and "n \<in> set default_nodes"
  shows "ends_in (\<lambda>s. (\<lambda>(c, okAll, detail) s. rig_ok s \<and> clNodes c = default_nodes \<and> okAll) a s)
    (smoke_node (Suc fuel) (rig_env l) (i, n) a) (\<lambda>(c, okAll, detail) s. rig_ok s \<and> clNodes c = default_nodes \<and> okAll)"
  unfolding ends_in_def
proof (intro allI impI)
  fix s :: "(rig, nat) run_state"
  obtain c okAll detail where a: "a = (c, okAll, detail)" by (cases a)
  assume "(\<lambda>(c, okAll, detail) s. rig_ok s \<and> clNodes c = default_nodes \<and> okAll) a s"
  with a have s: "rig_ok s" "clNodes c = default_nodes" "okAll" by auto
  let ?val = "''smoke-'' @ itoa i"
  have "plain_text ?val" "plain_text ''smoke''" "plain_text ''''" "plain_key ''smoke''"
    using plain_itoa [OF assms(1)] by (simp_all add: plain_text_append plain_char_def) (simp_all add: plain_text_def plain_key_def plain_char_def)
  then have ops: "plain_op (client_op 0 ''put'' ''smoke'' ?val)" "plain_op (client_op 0 ''get'' ''smoke'' '''')"
    using plain_client_op [of "''smoke''" ?val "''put''"] plain_client_op [of "''smoke''" "''''" "''get''"] by blast+
  have pin: "Some n = None \<or> (\<exists>m \<in> set default_nodes. Some n = Some m)" using assms(2) by simp
  from rig_invoke [OF ops(1) pin s(1,2), of fuel l "20 * Second" False] obtain n1 c1 s1 where
    1: "invoke (Suc fuel) (rig_env l) c (client_op 0 ''put'' ''smoke'' ?val) (20 * Second) False (Some n) s =
      Inr ((answered n1 (client_op 0 ''put'' ''smoke'' ?val) (rgStore (rsWorld s)), c1), s1)"
    "clNodes c1 = default_nodes" "rig_ok s1"
    "fsm_get (rgStore (rsWorld s1)) = spec_update (hop_command (client_op 0 ''put'' ''smoke'' ?val)) (fsm_get (rgStore (rsWorld s)))"
    by blast
  from rig_invoke [OF ops(2) pin 1(3,2), of fuel l "20 * Second" False] obtain n2 c2 s2 where
    2: "invoke (Suc fuel) (rig_env l) c1 (client_op 0 ''get'' ''smoke'' '''') (20 * Second) False (Some n) s1 =
      Inr ((answered n2 (client_op 0 ''get'' ''smoke'' '''') (rgStore (rsWorld s1)), c2), s2)"
    "clNodes c2 = default_nodes" "rig_ok s2"
    by blast
  show "\<exists>b s'. smoke_node (Suc fuel) (rig_env l) (i, n) a s = Inr (b, s') \<and>
      (case b of (c, okAll, detail) \<Rightarrow> \<lambda>s. rig_ok s \<and> clNodes c = default_nodes \<and> okAll) s'"
    using s(3) 1(1) 2
    by (simp add: smoke_node_def a Let_def andThen_def answered_fields client_op_command 1(4) spec_result_def spec_update_def
        op_defs pure_def)
qed

lemma rig_smoke: "ends_in rig_ok (phaseSmoke (Suc fuel) (rig_env l) rig_opts) (\<lambda>_. rig_ok)"
proof -
  let ?I = "\<lambda>(c, okAll, detail) s. rig_ok s \<and> clNodes c = default_nodes \<and> okAll"
  show ?thesis
    unfolding phaseSmoke_def rig_options
  proof (rule ends_loop [where I = ?I])
    fix x a assume "x \<in> set (zip [0..<length default_nodes] default_nodes)"
    then obtain i n where "x = (i, n)" "i < 10" "n \<in> set default_nodes"
      by (auto simp: default_nodes_def dest: set_zip_leftD set_zip_rightD)
    then show "ends_in (?I a) (smoke_node (Suc fuel) (rig_env l) x a) ?I"
      using rig_smoke_node [of i n a fuel l] by simp
  qed (auto simp: NewClient_def intro!: ends_checkI)
qed

text \<open>Goroutines one after the other act one after the other.\<close>

lemma acting_one_by_one:
  "acting (one_by_one []) = pure []"
  "acting (one_by_one (g # gs)) = andThen (acting g) (\<lambda>a. andThen (acting (one_by_one gs)) (\<lambda>as. pure (a # as)))"
  by (auto simp: fun_eq_iff acting_def andThen_def pure_def split: sum.splits)

definition swap_op :: "nat \<Rightarrow> nat \<Rightarrow> string \<Rightarrow> string \<Rightarrow> hop" where
  "swap_op i rnd key base =
     (client_op (101 + of_nat i) ''cas'' key (''winner-'' @ itoa rnd @ ''-'' @ itoa i))\<lparr>hExpect := Some base\<rparr>"

lemma swap_op_command:
  "hop_command (swap_op i rnd key base) =
     \<lparr>cOp = ''cas'', cKey = key, cValue = ''winner-'' @ itoa rnd @ ''-'' @ itoa i, cExpect = Some base\<rparr>"
  by (simp add: swap_op_def client_op_command)

lemma rig_contender:
  assumes "rnd < 10" and "i < 10" and "plain_key key" and "plain_text key" and "plain_text base" and "rig_ok s"
  shows "\<exists>n s'. acting (contender_body (Suc fuel) (rig_env l) rig_opts rnd key base i) s =
      Inr (answered n (swap_op i rnd key base) (rgStore (rsWorld s)), s') \<and> rig_ok s' \<and>
    fsm_get (rgStore (rsWorld s')) = spec_update (hop_command (swap_op i rnd key base)) (fsm_get (rgStore (rsWorld s)))"
proof -
  have "plain_text (''winner-'' @ itoa rnd @ ''-'' @ itoa i)"
    using plain_itoa [OF assms(1)] plain_itoa [OF assms(2)] by (simp add: plain_text_append plain_char_def) (simp add: plain_text_def plain_char_def)
  then have op: "plain_op (swap_op i rnd key base)"
    using plain_client_op assms(3-5) unfolding swap_op_def by blast
  have nodes: "clNodes (NewClient c (roNodes rig_opts)) = default_nodes" for c by (simp add: NewClient_def)
  from rig_invoke [OF op _ assms(6) nodes [of "101 + of_nat i"], where pin = None and fuel = fuel and l = l and
      d = "20 * Second" and np = False] obtain n c' s' where
    "invoke (Suc fuel) (rig_env l) (NewClient (101 + of_nat i) (roNodes rig_opts)) (swap_op i rnd key base) (20 * Second) False None s =
       Inr ((answered n (swap_op i rnd key base) (rgStore (rsWorld s)), c'), s')" "rig_ok s'"
    "fsm_get (rgStore (rsWorld s')) = spec_update (hop_command (swap_op i rnd key base)) (fsm_get (rgStore (rsWorld s)))" by blast
  then show ?thesis
    by (auto simp: invoke_def acting_def contender_body_def swap_op_def split: sum.splits)
qed

lemma rig_losers:
  assumes "rnd < 10" and "\<forall>i \<in> set is. i < 10" and "plain_key key" and "plain_text key" and "plain_text base"
  shows "ends_in (\<lambda>s. rig_ok s \<and> fsm_get (rgStore (rsWorld s)) key \<noteq> Some base)
    (acting (one_by_one (map (contender_body (Suc fuel) (rig_env l) rig_opts rnd key base) is)))
    (\<lambda>as s. rig_ok s \<and> list_all (\<lambda>a. hOutcome a = OutcomeOK \<and> \<not> hOk a) as)"
  using assms(2)
proof (induction "is")
  case Nil
  then show ?case by (simp add: acting_one_by_one ends_in_def pure_def del: one_by_one.simps)
next
  case (Cons i "is")
  let ?P = "\<lambda>s. rig_ok s \<and> fsm_get (rgStore (rsWorld s)) key \<noteq> Some base"
  have "ends_in ?P (acting (contender_body (Suc fuel) (rig_env l) rig_opts rnd key base i))
      (\<lambda>a s. ?P s \<and> hOutcome a = OutcomeOK \<and> \<not> hOk a)"
    unfolding ends_in_def
  proof (intro allI impI)
    fix s :: "(rig, nat) run_state" assume s: "?P s"
    from Cons.prems have "i < 10" by simp
    from rig_contender [OF assms(1) this assms(3-5) conjunct1 [OF s], of fuel l] obtain n s' where
      "acting (contender_body (Suc fuel) (rig_env l) rig_opts rnd key base i) s =
        Inr (answered n (swap_op i rnd key base) (rgStore (rsWorld s)), s')" "rig_ok s'"
      "fsm_get (rgStore (rsWorld s')) = spec_update (hop_command (swap_op i rnd key base)) (fsm_get (rgStore (rsWorld s)))"
      by blast
    then show "\<exists>a s'. acting (contender_body (Suc fuel) (rig_env l) rig_opts rnd key base i) s = Inr (a, s') \<and>
        ?P s' \<and> hOutcome a = OutcomeOK \<and> \<not> hOk a"
      using s by (simp add: answered_fields swap_op_command spec_result_def spec_update_def op_defs cas_matches_def Let_def)
  qed
  moreover have "ends_in (\<lambda>s. ?P s \<and> hOutcome a = OutcomeOK \<and> \<not> hOk a)
      (andThen (acting (one_by_one (map (contender_body (Suc fuel) (rig_env l) rig_opts rnd key base) is))) (\<lambda>as. pure (a # as)))
      (\<lambda>as s. rig_ok s \<and> list_all (\<lambda>a. hOutcome a = OutcomeOK \<and> \<not> hOk a) as)" for a
    using Cons.IH Cons.prems by (fastforce simp: ends_in_def andThen_def pure_def)
  ultimately show ?case
    unfolding list.map acting_one_by_one by (rule ends_andThen)
qed

lemma contention_counts:
  assumes "hOutcome a = OutcomeOK" and "hOk a" and "list_all (\<lambda>a. hOutcome a = OutcomeOK \<and> \<not> hOk a) as"
  shows "round_ok (a # as)"
proof -
  have "contention_wins as = 0 \<and> contention_unknowns as = 0"
    using assms(3) by (auto simp: contention_wins_def contention_unknowns_def list_all_iff filter_empty_conv)
  then show ?thesis
    using assms(1,2) by (simp add: round_ok_def contention_wins_def contention_unknowns_def)
qed

lemma rig_round:
  assumes "rnd < 10"
  shows "ends_in ((\<lambda>(allPass, detail) s. rig_ok s \<and> allPass) a) (contention_round (Suc fuel) (rig_env l) rig_opts rnd a)
    (\<lambda>(allPass, detail) s. rig_ok s \<and> allPass)"
  unfolding ends_in_def
proof (intro allI impI)
  fix s :: "(rig, nat) run_state"
  obtain allPass detail where a: "a = (allPass, detail)" by (cases a)
  assume "(\<lambda>(allPass, detail) s. rig_ok s \<and> allPass) a s"
  with a have s: "rig_ok s" "allPass" by auto
  let ?key = "''cas-arena-'' @ itoa rnd" and ?base = "''base-'' @ itoa rnd"
  note itoa = plain_itoa [OF assms]
  have plain: "plain_text ?key" "plain_key ?key" "plain_text ?base"
    using itoa by (simp_all add: plain_text_def plain_key_def plain_char_def)
  then have op: "plain_op (client_op 100 ''put'' ?key ?base)" using plain_client_op by blast
  have nodes: "clNodes (NewClient 100 (roNodes rig_opts)) = default_nodes" by (simp add: NewClient_def)
  from rig_invoke [OF op _ s(1) nodes, where pin = None and fuel = fuel and l = l and d = "20 * Second" and np = False] obtain n c1 s1 where
    1: "invoke (Suc fuel) (rig_env l) (NewClient 100 (roNodes rig_opts)) (client_op 100 ''put'' ?key ?base) (20 * Second) False None s =
      Inr ((answered n (client_op 100 ''put'' ?key ?base) (rgStore (rsWorld s)), c1), s1)" "rig_ok s1"
    "fsm_get (rgStore (rsWorld s1)) = spec_update (hop_command (client_op 100 ''put'' ?key ?base)) (fsm_get (rgStore (rsWorld s)))"
    by blast
  then have get: "fsm_get (rgStore (rsWorld s1)) ?key = Some ?base"
    by (simp add: client_op_command spec_update_def op_defs)
  from rig_contender [OF assms _ plain(2,1,3) 1(2), of 0 fuel l] obtain m s2 where
    2: "acting (contender_body (Suc fuel) (rig_env l) rig_opts rnd ?key ?base 0) s1 =
      Inr (answered m (swap_op 0 rnd ?key ?base) (rgStore (rsWorld s1)), s2)" "rig_ok s2"
    "fsm_get (rgStore (rsWorld s2)) = spec_update (hop_command (swap_op 0 rnd ?key ?base)) (fsm_get (rgStore (rsWorld s1)))"
    by auto
  let ?w = "answered m (swap_op 0 rnd ?key ?base) (rgStore (rsWorld s1))"
  have won: "hOutcome ?w = OutcomeOK" "hOk ?w" and "fsm_get (rgStore (rsWorld s2)) ?key \<noteq> Some ?base"
    using get 2(3) by (simp_all add: answered_fields swap_op_command spec_result_def spec_update_def op_defs cas_matches_def Let_def)
  with 2(2) have lost: "rig_ok s2 \<and> fsm_get (rgStore (rsWorld s2)) ?key \<noteq> Some ?base" by blast
  have six: "\<forall>i \<in> set [1..<6]. i < (10 :: nat)" by simp
  from rig_losers [OF assms six plain(2,1,3), of fuel l, unfolded ends_in_def, rule_format, OF lost] obtain "as" s3 where
    3: "acting (one_by_one (map (contender_body (Suc fuel) (rig_env l) rig_opts rnd ?key ?base) [1..<6])) s2 = Inr (as, s3)"
      "rig_ok s3" "list_all (\<lambda>a. hOutcome a = OutcomeOK \<and> \<not> hOk a) as" by blast
  have "[0..<6] = 0 # [1..<6]" by (simp add: upt_rec)
  then have "acting (one_by_one (map (contender_body (Suc fuel) (rig_env l) rig_opts rnd ?key ?base) [0..<6])) s1 = Inr (?w # as, s3)"
    using 2(1) 3(1) by (simp only: list.map acting_one_by_one andThen_def sum.case prod.case pure_def)
  moreover have "rvContend (rig_env l) = one_by_one" by (simp add: rig_env_def)
  ultimately show "\<exists>b s'. contention_round (Suc fuel) (rig_env l) rig_opts rnd a s = Inr (b, s') \<and>
      (\<lambda>(allPass, detail) s. rig_ok s \<and> allPass) b s'"
    using s(2) 1(1) 3(2) contention_counts [OF won 3(3)]
    by (simp add: contention_round_def a Let_def andThen_def pure_def answered_fields)
qed

lemma rig_contention: "ends_in rig_ok (phaseCASContention (Suc fuel) (rig_env l) rig_opts) (\<lambda>_. rig_ok)"
  unfolding phaseCASContention_def
proof (rule ends_loop [where I = "\<lambda>(allPass, detail) s. rig_ok s \<and> allPass"])
  fix rnd a assume "rnd \<in> set [0..<3]"
  then have "rnd < 10" by simp
  then show "ends_in ((\<lambda>(allPass, detail) s. rig_ok s \<and> allPass) a) (contention_round (Suc fuel) (rig_env l) rig_opts rnd a)
      (\<lambda>(allPass, detail) s. rig_ok s \<and> allPass)"
    by (rule rig_round)
qed (auto intro!: ends_checkI)

section \<open>The history of the rig\<close>

lemma served_explained: "served ops f \<Longrightarrow> fsm_explains NewFSM (concat (map (to_operation h) ops) @ l) = fsm_explains f l"
proof (induction arbitrary: l rule: served.induct)
  case (served_next ops f op n f')
  have inp: "op_command \<lparr>iOp = hOp op, iKey = hKey op, iVal = hValue op, iExpect = hExpect op\<rparr> = hop_command op"
    by (simp add: op_command_def hop_command_def)
  have "rPresent (spec_result (hop_command op) (fsm_get f)) \<longrightarrow> True" by simp
  then show ?case
    using served_next.hyps served_next.IH
    by (simp add: to_operation_def answered_def Let_def inp explains_def)
qed simp

lemma served_each:
  "served ops f \<Longrightarrow> list_all (\<lambda>op. hStartNs op = 0 \<and> hEndNs op = 0 \<and> hOutcome op = OutcomeOK) ops"
  by (induction rule: served.induct) (simp_all add: answered_def Let_def)

lemma max_end_0: "list_all (\<lambda>op. hStartNs op = 0 \<and> hEndNs op = 0 \<and> hOutcome op = OutcomeOK) ops \<Longrightarrow> max_end ops = 0"
  by (induction ops rule: rev_induct) (simp_all add: max_end_def Let_def)

lemma served_recordable: "served ops f \<Longrightarrow> recordable ops"
  using served_each [of ops f] by (simp add: recordable_def max_end_0 list_all_iff)

lemma served_accepted:
  assumes "served ops f"
  shows "crLinearizable (Check search_check ops t)"
proof -
  let ?l = "ToOperations ops"
  have "list_all (\<lambda>a. opCall a = 0 \<and> opReturn a = 0) ?l"
    using served_each [OF assms] by (auto simp: ToOperations_def to_operation_def Let_def list_all_iff)
  then have "sorted_wrt may_follow ?l"
    by (simp add: sorted_wrt_iff_nth_less list_all_length may_follow_def)
  moreover have "fsm_explains NewFSM ?l"
    using served_explained [OF assms, of _ "[]"] by (simp add: ToOperations_def)
  ultimately have "linearizable Model ?l"
    by (intro linearizable_if_order) (simp add: fsm_order_def real_time_def)
  then show ?thesis
    by (simp add: Check_fields search_check_def linearizable_search)
qed

section \<open>Writing its history\<close>

definition has_room :: "bufw \<Rightarrow> nat \<Rightarrow> bool" where
  "has_room w n \<longleftrightarrow> bwErr w = None \<and> length (bwBuf w) + n \<le> dkFree (bwDisk w)"

lemma bw_direct_room: "has_room w (length p + n) \<Longrightarrow> has_room (bw_direct w p) n"
  by (auto simp: has_room_def bw_direct_def os_Write_def Let_def)

lemma bw_Flush_room: "has_room w n \<Longrightarrow> has_room (bw_Flush w) n"
  by (auto simp: has_room_def bw_Flush_def bw_direct_def os_Write_def Let_def)

lemma bw_Write_room:
  assumes "has_room w (length p + n)"
  shows "has_room (bw_Write w p) n"
proof -
  let ?a = "bufio_size - length (bwBuf w)"
  let ?w1 = "bw_Flush (w\<lparr>bwBuf := bwBuf w @ take ?a p\<rparr>)"
  show ?thesis
  proof (cases "length p \<le> ?a \<or> bwBuf w = []")
    case True
    with assms bw_direct_room [OF assms] show ?thesis by (auto simp: bw_Write_def has_room_def Let_def)
  next
    case False
    have "has_room (w\<lparr>bwBuf := bwBuf w @ take ?a p\<rparr>) (length (drop ?a p) + n)"
      using assms False by (simp add: has_room_def)
    then have r: "has_room ?w1 (length (drop ?a p) + n)" by (rule bw_Flush_room)
    with bw_direct_room [OF r] bw_Flush_content [of "w\<lparr>bwBuf := bwBuf w @ take ?a p\<rparr>"] assms False show ?thesis
      by (auto simp: bw_Write_def has_room_def Let_def)
  qed
qed

lemma write_ops_room: "has_room w (length (concat (map history_line ops))) \<Longrightarrow> bwErr (write_ops w ops) = None"
proof (induction ops arbitrary: w)
  case Nil
  then have "has_room w 0" by simp
  from bw_Flush_room [OF this] show ?case by (simp add: has_room_def)
next
  case (Cons op ops)
  then have "has_room w (length (history_line op) + length (concat (map history_line ops)))" by simp
  from bw_Write_room [OF this] Cons.IH show ?case by (simp add: Let_def has_room_def)
qed

lemma WriteFile_room:
  assumes "dkWritable d" and "length (concat (map history_line ops)) \<le> dkFree d"
  shows "\<exists>d'. WriteFile d ops = (None, d')"
proof -
  obtain d1 where "os_Create d = (None, d1)" "dkFree d \<le> dkFree d1"
    using assms(1) by (auto simp: os_Create_def)
  moreover from this assms(2) have "has_room \<lparr>bwBuf = [], bwErr = None, bwDisk = d1\<rparr> (length (concat (map history_line ops)))"
    by (simp add: has_room_def)
  ultimately show ?thesis using write_ops_room by (simp add: WriteFile_def Let_def)
qed

lemma length_quote_plain: "list_all plain_char s \<Longrightarrow> length s \<le> 50 \<Longrightarrow> length (quote s) \<le> 52"
  by (simp add: quote_plain)

lemma line_keys: "length (quote ''client'') \<le> 12" "length (quote ''op'') \<le> 12" "length (quote ''key'') \<le> 12"
  "length (quote ''value'') \<le> 12" "length (quote ''expect'') \<le> 12" "length (quote ''start_ns'') \<le> 12"
  "length (quote ''end_ns'') \<le> 12" "length (quote ''outcome'') \<le> 12" "length (quote ''ok'') \<le> 12"
  "length (quote ''present'') \<le> 12" "length (quote ''ret_val'') \<le> 12" "length (quote ''node'') \<le> 12"
  by (simp_all add: quote_plain plain_char_def)

text \<open>The length of a printed object, from bounds on its members.\<close>

lemma length_jprint_obj:
  assumes "\<forall>(k, v) \<in> set ms. length (quote k) \<le> 12 \<and> length (jprint v) \<le> 52"
  shows "length (jprint (JObj ms)) \<le> 2 + 66 * length ms"
proof -
  have "length (join_with '','' (map (\<lambda>(k, v). quote k @ '':'' @ jprint v) ms)) \<le> 66 * length ms"
    using assms by (induction ms rule: induct_list012) (auto simp del: jprint.simps)
  then show ?thesis by simp
qed

lemma line_length:
  assumes "plain_op op" and "n \<in> set default_nodes" and "plain_store f"
  shows "length (history_line (answered n op f)) \<le> 1000"
proof -
  let ?a = "answered n op f"
  have strs: "length (quote (hOp ?a)) \<le> 52" "length (quote (hKey ?a)) \<le> 52" "length (quote (hValue ?a)) \<le> 52"
    "length (quote (hRetVal ?a)) \<le> 52" "length (quote (hNode ?a)) \<le> 52" "length (quote (hOutcome ?a)) \<le> 52"
    "hExpect ?a = Some x \<Longrightarrow> length (quote x) \<le> 52" for x
    using plain_op_text [OF assms(1)] assms(1,2) plain_result [OF assms(3), of "hop_command op"]
    by (auto simp: answered_def Let_def plain_op_def default_nodes_def outcome_defs plain_char_def quote_plain)
  have int: "length (int_dec (sint i)) \<le> 52" for i :: int64
    using length_int_dec [of i] by simp
  obtain ms where ms: "hop_json ?a = JObj ms" and len: "length ms \<le> 12" and all: "\<forall>(k, v) \<in> set ms. length (quote k) \<le> 12 \<and> length (jprint v) \<le> 52"
  proof
    show "hop_json ?a = JObj
     ([(''client'', JNum (int_dec (sint (hClient ?a)))), (''op'', JStr (hOp ?a)), (''key'', JStr (hKey ?a))]
      @ omit_empty ''value'' (hValue ?a) @ omit_nil ''expect'' (hExpect ?a)
      @ [(''start_ns'', JNum (int_dec (sint (hStartNs ?a)))), (''end_ns'', JNum (int_dec (sint (hEndNs ?a)))),
         (''outcome'', JStr (hOutcome ?a)), (''ok'', JBool (hOk ?a)), (''present'', JBool (hPresent ?a))]
      @ omit_empty ''ret_val'' (hRetVal ?a) @ omit_empty ''node'' (hNode ?a))" by (rule hop_json_def)
  qed (use strs int line_keys in \<open>auto simp: omit_empty_def omit_nil_def split: option.splits\<close>)
  from length_jprint_obj [OF all] len show ?thesis
    by (simp add: history_line_def ms del: jprint.simps)
qed

lemma served_length: "served ops f \<Longrightarrow> length (concat (map history_line ops)) \<le> 1000 * length ops"
proof (induction rule: served.induct)
  case (served_next ops f op n f')
  from line_length [OF served_next.hyps(2-4)] served_next.IH show ?case by simp
qed simp

section \<open>A run without faults passes\<close>

lemma rig_fixtures:
  assumes "rgFiles w = rgFiles rig_world"
  shows "read_fixture (rig_env l) rig_opts ''known-bad-history.jsonl'' w = (known_bad, None)"
    and "read_fixture (rig_env l) rig_opts ''known-good-history.jsonl'' w = (known_good, None)"
proof -
  have "join_path [''fixtures'', ''known-bad-history.jsonl''] = ''fixtures/known-bad-history.jsonl''"
    "join_path [''fixtures'', ''known-good-history.jsonl''] = ''fixtures/known-good-history.jsonl''"
    by code_simp+
  then show "read_fixture (rig_env l) rig_opts ''known-bad-history.jsonl'' w = (known_bad, None)"
    and "read_fixture (rig_env l) rig_opts ''known-good-history.jsonl'' w = (known_good, None)"
    using assms by (simp_all add: read_fixture_def rig_env_def rig_file_def ReadFile_def rig_world_def Read_fixtures)
qed

lemma rig_self_test:
  "ends_in (\<lambda>s. rig_ok s \<and> rgFiles (rsWorld s) = rgFiles rig_world) (phaseCheckerSelfTest (rig_env l) rig_opts) (\<lambda>_. rig_ok)"
proof -
  have porc: "rvPorcupine (rig_env l) = search_check" and wait: "rvChecking (rig_env l) ops t w = w" for ops t w
    by (simp_all add: rig_env_def)
  have "\<not> crLinearizable (Check search_check known_bad t)" "crLinearizable (Check search_check known_good t)" for t
    by (simp_all add: Check_fields search_check_def linearizable_search [symmetric])
  then show ?thesis
    by (auto simp: ends_in_def phaseCheckerSelfTest_def fixture_def timed_check_def on_world_def porc wait rig_fixtures Let_def
        andThen_def check_def rig_ok_def failed_def)
qed

lemma rig_verdict: "ends_in rig_ok (phaseLinearizability (rig_env l) rig_opts) (\<lambda>_. rig_ok)"
proof -
  have porc: "rvPorcupine (rig_env l) = search_check" and wait: "rvChecking (rig_env l) ops t w = w" for ops t w
    by (simp_all add: rig_env_def)
  show ?thesis
    unfolding ends_in_def phaseLinearizability_def timed_check_def on_world_def andThen_def porc wait Let_def
    using served_accepted by (auto simp: rig_ok_def check_def failed_def)
qed

lemma rig_finish:
  "ends_in rig_ok (finish (rig_env l) rig_opts) (\<lambda>r s. rig_ok s \<and> (\<exists>rep. r = Inr rep \<and> rpAllPassed rep))"
  unfolding ends_in_def
proof (intro allI impI)
  fix s :: "(rig, nat) run_state" assume s: "rig_ok s"
  let ?p = "join_path [''out'', ''history.jsonl'']"
  have "dkWritable (rig_file ?p (rsWorld s))"
    "length (concat (map history_line (recOps (rsRec s)))) \<le> dkFree (rig_file ?p (rsWorld s))"
    using s served_length by (auto simp: rig_ok_def rig_file_def)
  from WriteFile_room [OF this] obtain d where w: "WriteFile (rig_file ?p (rsWorld s)) (recOps (rsRec s)) = (None, d)" ..
  have env: "rvFile (rig_env l) = rig_file" "rvWriteFile (rig_env l) q b w = (None, w\<lparr>rgFiles := (rgFiles w)(q := Some b)\<rparr>)"
    "rvSetFile (rig_env l) q d w = w\<lparr>rgFiles := (rgFiles w)(q := dkFile d)\<rparr>" for q b w d
    by (simp_all add: rig_env_def)
  show "\<exists>r s'. finish (rig_env l) rig_opts s = Inr (r, s') \<and> rig_ok s' \<and> (\<exists>rep. r = Inr rep \<and> rpAllPassed rep)"
    using s by (simp add: finish_def env w Let_def rig_ok_def failed_def)
qed

lemma rig_run: "\<exists>rep s. Run (Suc fuel) (rig_env l) rig_opts rig_world = Inr (Inr rep, s) \<and> rpAllPassed rep \<and> rig_ok s"
proof -
  let ?s = "start_state (rig_env l) rig_opts rig_world"
  have start: "rig_ok ?s \<and> rgFiles (rsWorld ?s) = rgFiles rig_world"
    using served_none
    by (simp add: start_state_def rig_ok_def rig_world_def failed_def plain_store_def NewFSM_def fsm_get_def gomap_get_def)
  have rest: "ends_in rig_ok (andThen (phaseReset (Suc fuel) (rig_env l) rig_opts) (\<lambda>_.
       andThen (phaseSmoke (Suc fuel) (rig_env l) rig_opts) (\<lambda>_.
       andThen (phaseCASContention (Suc fuel) (rig_env l) rig_opts) (\<lambda>_.
       andThen (pure ()) (\<lambda>_.
       andThen (phaseLinearizability (rig_env l) rig_opts) (\<lambda>_. finish (rig_env l) rig_opts))))))
     (\<lambda>r s. rig_ok s \<and> (\<exists>rep. r = Inr rep \<and> rpAllPassed rep))"
    by (intro ends_andThen [OF rig_reset] ends_andThen [OF rig_smoke] ends_andThen [OF rig_contention]
        ends_andThen [OF ends_pure [where Q = "\<lambda>_. rig_ok"]] ends_andThen [OF rig_verdict] rig_finish)
  have "ends_in (\<lambda>s. rig_ok s \<and> rgFiles (rsWorld s) = rgFiles rig_world) (run_phases (Suc fuel) (rig_env l) rig_opts)
     (\<lambda>r s. rig_ok s \<and> (\<exists>rep. r = Inr rep \<and> rpAllPassed rep))"
    unfolding run_phases_def
    by (rule ends_andThen [OF rig_self_test]) (use rest in \<open>auto simp: ends_in_def rig_ok_def\<close>)
  from ends_inD [OF this start] have "\<exists>r s'. run_phases (Suc fuel) (rig_env l) rig_opts ?s = Inr (r, s') \<and>
      rig_ok s' \<and> (\<exists>rep. r = Inr rep \<and> rpAllPassed rep)" .
  moreover have "rvMkdirAll (rig_env l) p w = (None, w)" for p w by (simp add: rig_env_def)
  moreover have "?s\<lparr>rsWorld := rig_world\<rparr> = ?s" by (simp add: start_state_def)
  ultimately show ?thesis by (auto simp: Run_def Let_def)
qed

end
