(* ===== verification/Replica.thy ===== *)
theory Replica
  imports Fsm
begin

text \<open>
  The state machine under Raft. What the program relies on is Raft's documented contract
  with an \<open>raft.FSM\<close>: every node applies the same sequence of committed entries, each
  once and in order, except that it may jump ahead by restoring a snapshot another state
  machine took after a prefix of that sequence, and that a restarted node starts from its
  own last snapshot. The contract is a step relation over the nodes; consensus itself (how
  the committed sequence comes about) is Raft's and not modelled.

  The locale \<open>replicated_sm\<close> says what a state machine must promise for this to work, and
  proves that replicas agree; \<open>kv\<close> interprets it on the program's state machine.
\<close>

section \<open>Runs of a state machine\<close>

fun replay :: "('s \<Rightarrow> 'e \<Rightarrow> 'p + ('r \<times> 's)) \<Rightarrow> 's \<Rightarrow> 'e list \<Rightarrow> 'p + ('r list \<times> 's)" where
  "replay ap s [] = Inr ([], s)"
| "replay ap s (e # es) = (case ap s e of
     Inl p \<Rightarrow> Inl p
   | Inr (r, s1) \<Rightarrow> (case replay ap s1 es of
       Inl p \<Rightarrow> Inl p
     | Inr (rs, s2) \<Rightarrow> Inr (r # rs, s2)))"

lemma replay_append:
  "replay ap s (xs @ ys) = (case replay ap s xs of
     Inl p \<Rightarrow> Inl p
   | Inr (rs, s1) \<Rightarrow> (case replay ap s1 ys of Inl p \<Rightarrow> Inl p | Inr (rs', s2) \<Rightarrow> Inr (rs @ rs', s2)))"
  by (induction xs arbitrary: s) (auto split: sum.splits)

lemma replay_Cons_InrE:
  assumes "replay ap s (e # es) = Inr (rs, s')"
  obtains r s1 rs' where "ap s e = Inr (r, s1)" "replay ap s1 es = Inr (rs', s')" "rs = r # rs'"
  using assms by (auto split: sum.splits)

lemma replay_length: "replay ap s es = Inr (rs, s') \<Longrightarrow> length rs = length es"
  by (induction es arbitrary: s rs) (auto elim!: replay_Cons_InrE simp del: replay.simps(2))

lemma replay_inv:
  assumes "\<And>s e r s'. P s \<Longrightarrow> ap s e = Inr (r, s') \<Longrightarrow> P s'" and "P s" and "replay ap s es = Inr (rs, s')"
  shows "P s'"
  using assms(2,3)
proof (induction es arbitrary: s rs)
  case (Cons e es)
  from Cons.prems(2) obtain r s1 rs' where "ap s e = Inr (r, s1)" "replay ap s1 es = Inr (rs', s')"
    by (rule replay_Cons_InrE)
  with Cons.IH Cons.prems(1) assms(1) show ?case by blast
qed simp

section \<open>Nodes and their steps\<close>

record 's replica =
  rState :: 's
  rApplied :: nat
  rSnap :: "(bytes \<times> nat) option"

record ('s, 'e) cluster =
  clLog :: "'e list"
  clNode :: "nat \<Rightarrow> 's replica"

definition fresh_replica :: "'s \<Rightarrow> 's replica" where
  "fresh_replica s0 = \<lparr>rState = s0, rApplied = 0, rSnap = None\<rparr>"

inductive cluster_step :: "'s \<Rightarrow> ('s \<Rightarrow> 'e \<Rightarrow> 'p + ('r \<times> 's)) \<Rightarrow> ('s \<Rightarrow> bytes) \<Rightarrow>
    ('s \<Rightarrow> bytes \<Rightarrow> 's \<times> 'x option) \<Rightarrow> ('s, 'e) cluster \<Rightarrow> ('s, 'e) cluster \<Rightarrow> bool"
  for s0 ap snap rest where
  commit: "cluster_step s0 ap snap rest c (c\<lparr>clLog := clLog c @ [e]\<rparr>)"
| apply_entry: "rApplied (clNode c n) < length (clLog c) \<Longrightarrow>
    ap (rState (clNode c n)) (clLog c ! rApplied (clNode c n)) = Inr (r, s') \<Longrightarrow>
    cluster_step s0 ap snap rest c (c\<lparr>clNode := (clNode c)
      (n := (clNode c n)\<lparr>rState := s', rApplied := Suc (rApplied (clNode c n))\<rparr>)\<rparr>)"
| take_snapshot: "cluster_step s0 ap snap rest c (c\<lparr>clNode := (clNode c)
      (n := (clNode c n)\<lparr>rSnap := Some (snap (rState (clNode c n)), rApplied (clNode c n))\<rparr>)\<rparr>)"
| install_snapshot: "rSnap (clNode c m) = Some (b, i) \<Longrightarrow> rest (rState (clNode c n)) b = (s', None) \<Longrightarrow>
    cluster_step s0 ap snap rest c (c\<lparr>clNode := (clNode c)
      (n := \<lparr>rState = s', rApplied = i, rSnap = Some (b, i)\<rparr>)\<rparr>)"
| restart_empty: "rSnap (clNode c n) = None \<Longrightarrow>
    cluster_step s0 ap snap rest c (c\<lparr>clNode := (clNode c)(n := fresh_replica s0)\<rparr>)"
| restart_snapshot: "rSnap (clNode c n) = Some (b, i) \<Longrightarrow> rest s0 b = (s', None) \<Longrightarrow>
    cluster_step s0 ap snap rest c (c\<lparr>clNode := (clNode c)
      (n := \<lparr>rState = s', rApplied = i, rSnap = Some (b, i)\<rparr>)\<rparr>)"

inductive cluster_reachable :: "'s \<Rightarrow> ('s \<Rightarrow> 'e \<Rightarrow> 'p + ('r \<times> 's)) \<Rightarrow> ('s \<Rightarrow> bytes) \<Rightarrow>
    ('s \<Rightarrow> bytes \<Rightarrow> 's \<times> 'x option) \<Rightarrow> ('s, 'e) cluster \<Rightarrow> bool"
  for s0 ap snap rest where
  cluster_start: "cluster_reachable s0 ap snap rest \<lparr>clLog = [], clNode = (\<lambda>_. fresh_replica s0)\<rparr>"
| cluster_next: "cluster_reachable s0 ap snap rest c \<Longrightarrow> cluster_step s0 ap snap rest c c' \<Longrightarrow>
    cluster_reachable s0 ap snap rest c'"

section \<open>What a replicated state machine must promise\<close>

locale replicated_sm =
  fixes s0 :: 's and ap :: "'s \<Rightarrow> 'e \<Rightarrow> 'p + ('r \<times> 's)"
    and snap :: "'s \<Rightarrow> bytes" and rest :: "'s \<Rightarrow> bytes \<Rightarrow> 's \<times> 'x option" and ok :: "'s \<Rightarrow> bool"
  assumes start_ok: "ok s0"
    and ap_ok: "ok s \<Longrightarrow> ap s e = Inr (r, s') \<Longrightarrow> ok s'"
    and rest_snap: "ok s \<Longrightarrow> rest t (snap s) = (s, None)"
begin

lemma replay_ok: "ok s \<Longrightarrow> replay ap s es = Inr (rs, s') \<Longrightarrow> ok s'"
  by (rule replay_inv [of ok ap]) (rule ap_ok)

text \<open>A replica is at a prefix of the log: its state is the replay of the entries it applied,
  and its snapshot, when it has one, holds the state after the entries before it.\<close>

definition at_prefix :: "'e list \<Rightarrow> 's \<Rightarrow> nat \<Rightarrow> bool" where
  "at_prefix log s i \<longleftrightarrow> i \<le> length log \<and> (\<exists>rs. replay ap s0 (take i log) = Inr (rs, s))"

definition replica_inv :: "'e list \<Rightarrow> 's replica \<Rightarrow> bool" where
  "replica_inv log n \<longleftrightarrow> at_prefix log (rState n) (rApplied n) \<and>
     (\<forall>b i. rSnap n = Some (b, i) \<longrightarrow> (\<exists>s. b = snap s \<and> at_prefix log s i))"

lemma at_prefix_ok: "at_prefix log s i \<Longrightarrow> ok s"
  using replay_ok [OF start_ok] by (auto simp: at_prefix_def)

lemma at_prefix_grow: "at_prefix log s i \<Longrightarrow> at_prefix (log @ [e]) s i"
  by (auto simp: at_prefix_def)

lemma at_prefix_next:
  assumes "at_prefix log s i" and "i < length log" and "ap s (log ! i) = Inr (r, s')"
  shows "at_prefix log s' (Suc i)"
  using assms by (auto simp: at_prefix_def take_Suc_conv_app_nth replay_append)

lemma at_prefix_unique: "at_prefix log s i \<Longrightarrow> at_prefix log t i \<Longrightarrow> s = t"
  by (auto simp: at_prefix_def)

lemma restored_at_prefix:
  assumes "\<exists>s. b = snap s \<and> at_prefix log s i" and "rest t b = (s', None)"
  shows "at_prefix log s' i \<and> b = snap s'"
  using assms rest_snap at_prefix_ok by fastforce

lemma cluster_step_inv:
  assumes "cluster_step s0 ap snap rest c c'" and "\<forall>n. replica_inv (clLog c) (clNode c n)"
  shows "\<forall>n. replica_inv (clLog c') (clNode c' n)"
  using assms
proof (induction rule: cluster_step.induct)
  case (commit c e)
  then show ?case by (fastforce simp: replica_inv_def intro: at_prefix_grow)
next
  case (apply_entry c n r s')
  then show ?case by (auto simp: replica_inv_def intro: at_prefix_next)
next
  case (take_snapshot c n)
  then show ?case by (auto simp: replica_inv_def)
next
  case (install_snapshot c m b i n s')
  then have "at_prefix (clLog c) s' i \<and> b = snap s'"
    by (intro restored_at_prefix) (auto simp: replica_inv_def)
  with install_snapshot show ?case by (auto simp: replica_inv_def)
next
  case (restart_empty c n)
  then show ?case by (auto simp: replica_inv_def fresh_replica_def at_prefix_def)
next
  case (restart_snapshot c n b i s')
  then have "at_prefix (clLog c) s' i \<and> b = snap s'"
    by (intro restored_at_prefix) (auto simp: replica_inv_def)
  with restart_snapshot show ?case by (auto simp: replica_inv_def)
qed

theorem reachable_inv:
  "cluster_reachable s0 ap snap rest c \<Longrightarrow> replica_inv (clLog c) (clNode c n)"
proof (induction arbitrary: n rule: cluster_reachable.induct)
  case cluster_start
  then show ?case by (simp add: replica_inv_def fresh_replica_def at_prefix_def)
next
  case (cluster_next c c')
  then show ?case using cluster_step_inv by blast
qed

theorem reachable_replay:
  assumes "cluster_reachable s0 ap snap rest c"
  shows "rApplied (clNode c n) \<le> length (clLog c)"
    and "\<exists>rs. replay ap s0 (take (rApplied (clNode c n)) (clLog c)) = Inr (rs, rState (clNode c n))"
  using reachable_inv [OF assms, of n] by (auto simp: replica_inv_def at_prefix_def)

theorem replicas_agree:
  assumes "cluster_reachable s0 ap snap rest c" and "rApplied (clNode c m) = rApplied (clNode c n)"
  shows "rState (clNode c m) = rState (clNode c n)"
  using reachable_inv [OF assms(1), of m] reachable_inv [OF assms(1), of n] assms(2)
  by (auto simp: replica_inv_def intro: at_prefix_unique)

end

section \<open>The key-value state machine keeps the promise\<close>

definition fsm_snap :: "fsm \<Rightarrow> bytes" where
  "fsm_snap f = snapshot_bytes (Snapshot f)"

interpretation kv: replicated_sm NewFSM Apply fsm_snap Restore fsm_ok
  by unfold_locales (auto simp: fsm_ok_NewFSM apply_ok fsm_snap_def Restore_snapshot_bytes)

text \<open>C5: in every reachable state of the cluster each node's state machine is the replay of the
  log entries it has applied, however often it was restarted or fed a snapshot; its map is
  never nil and holds only valid UTF-8.\<close>

theorem replica_state_is_replay:
  assumes "cluster_reachable NewFSM Apply fsm_snap Restore c"
  shows "rApplied (clNode c n) \<le> length (clLog c) \<and> fsm_ok (rState (clNode c n)) \<and>
    (\<exists>rs. replay Apply NewFSM (take (rApplied (clNode c n)) (clLog c)) = Inr (rs, rState (clNode c n)))"
  using kv.reachable_replay [OF assms, of n] kv.replay_ok [OF fsm_ok_NewFSM] by blast

text \<open>C6: two nodes that report the same applied index dump the same contents (what the
  harness's convergence check compares).\<close>

theorem replicas_converge:
  assumes "cluster_reachable NewFSM Apply fsm_snap Restore c"
    and "rApplied (clNode c m) = rApplied (clNode c n)"
  shows "Dump (rState (clNode c m)) = Dump (rState (clNode c n))"
  using kv.replicas_agree [OF assms] by simp

section \<open>What clients see of the log\<close>

abbreviation entry_command :: "bytes \<Rightarrow> command" where
  "entry_command l \<equiv> fst (DecodeCommand l)"

lemma Apply_InrD:
  assumes "Apply f l = Inr (r, f')" and "fData f \<noteq> NilMap"
  shows "r = spec_result (entry_command l) (fsm_get f)"
    and "fsm_get f' = spec_update (entry_command l) (fsm_get f)"
    and "fData f' \<noteq> NilMap" and "known_op (entry_command l)"
proof -
  obtain c where c: "DecodeCommand l = (c, None)"
    using assms(1) by (auto simp: Apply_def split: prod.splits option.splits)
  have k: "known_op c"
    using assms(1) by (auto simp: Apply_def c apply_command_def known_op_def split: if_splits)
  have "apply_command f c = Inr (r, f')"
    using assms(1) by (simp add: Apply_def c)
  with apply_command_spec [OF assms(2) k] c k
  show "r = spec_result (entry_command l) (fsm_get f)"
    "fsm_get f' = spec_update (entry_command l) (fsm_get f)"
    "fData f' \<noteq> NilMap" "known_op (entry_command l)"
    by auto
qed

text \<open>Whether a command may change what a key holds.\<close>

definition may_write :: "string \<Rightarrow> command \<Rightarrow> bool" where
  "may_write k c \<longleftrightarrow> cKey c = k \<and> cOp c \<noteq> OpGet"

lemma spec_update_frame: "\<not> may_write k c \<Longrightarrow> spec_update c m k = m k"
  by (auto simp: may_write_def spec_update_def)

lemma replay_get_frame:
  assumes "replay Apply f ls = Inr (rs, f')" and "fData f \<noteq> NilMap"
    and "list_all (\<lambda>l. \<not> may_write k (entry_command l)) ls"
  shows "fsm_get f' k = fsm_get f k \<and> fData f' \<noteq> NilMap"
  using assms
proof (induction ls arbitrary: f rs)
  case (Cons l ls)
  from Cons.prems(1) obtain r f1 rs' where "Apply f l = Inr (r, f1)" "replay Apply f1 ls = Inr (rs', f')"
    by (rule replay_Cons_InrE)
  with Cons Apply_InrD [of f l r f1] show ?case
    by (auto simp: spec_update_frame)
qed simp

text \<open>C21: a write that the log holds is never lost: on every node that has applied it, through
  restarts and snapshots, the key holds the written value unless a later applied entry may
  have written the key.\<close>

theorem logged_put_survives:
  assumes "cluster_reachable NewFSM Apply fsm_snap Restore c"
    and "clLog c = xs @ Encode \<lparr>cOp = OpPut, cKey = k, cValue = v, cExpect = e\<rparr> # ys"
    and "length xs < rApplied (clNode c n)"
    and "list_all (\<lambda>l. \<not> may_write (to_valid k) (entry_command l)) ys"
  shows "fsm_get (rState (clNode c n)) (to_valid k) = Some (to_valid v)"
proof -
  let ?l = "Encode \<lparr>cOp = OpPut, cKey = k, cValue = v, cExpect = e\<rparr>"
  let ?zs = "take (rApplied (clNode c n) - Suc (length xs)) ys"
  have "take (rApplied (clNode c n)) (clLog c) = xs @ ?l # ?zs"
    using assms(2,3) by (auto simp: take_Cons')
  with kv.reachable_replay(2) [OF assms(1), of n] obtain rs where
    "replay Apply NewFSM (xs @ ?l # ?zs) = Inr (rs, rState (clNode c n))" by auto
  then obtain rs1 f1 r f2 rs2 where 1: "replay Apply NewFSM xs = Inr (rs1, f1)" "Apply f1 ?l = Inr (r, f2)"
    "replay Apply f2 ?zs = Inr (rs2, rState (clNode c n))"
    by (auto simp: replay_append split: sum.splits)
  have "fData f1 \<noteq> NilMap"
    using kv.replay_ok [OF fsm_ok_NewFSM 1(1)] by (rule fsm_ok_not_Nil)
  from Apply_InrD [OF 1(2) this]
  have "fsm_get f2 (to_valid k) = Some (to_valid v)" and f2: "fData f2 \<noteq> NilMap"
    by (simp_all add: decode_encode san_command_def spec_update_def op_defs)
  moreover have "list_all (\<lambda>l. \<not> may_write (to_valid k) (entry_command l)) ?zs"
    using assms(4) by (auto simp: list_all_iff dest: in_set_takeD)
  ultimately show ?thesis
    using replay_get_frame [OF 1(3) f2] by simp
qed

section \<open>Compare-and-swap\<close>

text \<open>The swaps on \<open>k\<close> that won, among commands and their results.\<close>

definition wins :: "string \<Rightarrow> command list \<Rightarrow> result list \<Rightarrow> nat" where
  "wins k cs rs = length (filter (\<lambda>(c, r). cOp c = OpCAS \<and> cKey c = k \<and> rOk r) (zip cs rs))"

text \<open>Contenders for \<open>k\<close>: swaps that expect \<open>e\<close> and write something else; reads and commands
  on other keys may come between them.\<close>

definition contender :: "string \<Rightarrow> string option \<Rightarrow> command \<Rightarrow> bool" where
  "contender k e c \<longleftrightarrow> cOp c = OpCAS \<and> cKey c = k \<and> cExpect c = e \<and> e \<noteq> Some (cValue c)"

lemma apply_command_InrD:
  assumes "apply_command f c = Inr (r, f')" and "fData f \<noteq> NilMap"
  shows "r = spec_result c (fsm_get f) \<and> fsm_get f' = spec_update c (fsm_get f) \<and> fData f' \<noteq> NilMap"
proof -
  have "known_op c"
    using assms(1) by (auto simp: apply_command_def known_op_def split: if_splits)
  with apply_command_spec [OF assms(2), of c] assms(1) show ?thesis by auto
qed

lemma replay_no_wins:
  assumes "replay apply_command f cs = Inr (rs, f')" and "fData f \<noteq> NilMap" and "fsm_get f k \<noteq> e"
    and "list_all (\<lambda>c. contender k e c \<or> \<not> may_write k c) cs"
  shows "wins k cs rs = 0"
  using assms
proof (induction cs arbitrary: f rs)
  case (Cons c cs)
  from Cons.prems(1) obtain r f1 rs' where 1: "apply_command f c = Inr (r, f1)"
    "replay apply_command f1 cs = Inr (rs', f')" "rs = r # rs'"
    by (rule replay_Cons_InrE)
  from apply_command_InrD [OF 1(1) Cons.prems(2)] have r: "r = spec_result c (fsm_get f)"
    and f1: "fsm_get f1 = spec_update c (fsm_get f)" "fData f1 \<noteq> NilMap" by auto
  have "fsm_get f1 k = fsm_get f k" and lose: "\<not> (cOp c = OpCAS \<and> cKey c = k \<and> rOk r)"
    using Cons.prems(3,4) r f1
    by (auto simp: spec_update_def spec_result_def contender_def may_write_def cas_matches_def Let_def)
  with Cons.IH [OF 1(2) f1(2)] Cons.prems(3,4) 1(3) show ?case
    by (auto simp: wins_def)
qed (simp add: wins_def)

lemma replay_one_win:
  assumes "replay apply_command f cs = Inr (rs, f')" and "fData f \<noteq> NilMap" and "fsm_get f k = e"
    and "list_all (\<lambda>c. contender k e c \<or> \<not> may_write k c) cs"
  shows "wins k cs rs = (if list_ex (contender k e) cs then 1 else 0)"
  using assms
proof (induction cs arbitrary: f rs)
  case (Cons c cs)
  from Cons.prems(1) obtain r f1 rs' where 1: "apply_command f c = Inr (r, f1)"
    "replay apply_command f1 cs = Inr (rs', f')" "rs = r # rs'"
    by (rule replay_Cons_InrE)
  from apply_command_InrD [OF 1(1) Cons.prems(2)] have r: "r = spec_result c (fsm_get f)"
    and f1: "fsm_get f1 = spec_update c (fsm_get f)" "fData f1 \<noteq> NilMap" by auto
  show ?case
  proof (cases "contender k e c")
    case True
    then have "fsm_get f1 k \<noteq> e" and "rOk r"
      using Cons.prems(3) r f1 by (auto simp: spec_update_def spec_result_def contender_def cas_matches_def Let_def)
    with replay_no_wins [OF 1(2) f1(2)] True Cons.prems(4) 1(3) show ?thesis
      by (auto simp: wins_def contender_def)
  next
    case False
    with Cons.prems(4) have nw: "\<not> may_write k c" by simp
    then have "fsm_get f1 k = e"
      using Cons.prems(3) f1 by (simp add: spec_update_frame)
    with Cons.IH [OF 1(2) f1(2)] Cons.prems(4) False nw 1(3) show ?thesis
      by (auto simp: wins_def may_write_def)
  qed
qed (simp add: wins_def)

text \<open>C22: concurrent swaps resolve exactly one winner. When a key holds what a group of swaps
  expects (or is absent, as they expect), and every command that may write the key in between
  is one of the group, exactly one of them wins in whatever order they are applied.\<close>

theorem cas_single_winner:
  assumes "replay apply_command f cs = Inr (rs, f')" and "fData f \<noteq> NilMap" and "fsm_get f k = e"
    and "list_all (\<lambda>c. contender k e c \<or> \<not> may_write k c) cs"
  shows "wins k cs rs = (if list_ex (contender k e) cs then 1 else 0)"
  using assms by (rule replay_one_win)

text \<open>C31: keys are not kept apart when they are not valid UTF-8: two keys that differ only in bytes no UTF-8
  text holds (C0, C1 and F5 to FF) are one key, to every command and every store. In general two keys are one
  exactly when they read the same after \<open>to_valid\<close>, so different keys that are valid are kept apart.\<close>

theorem invalid_keys_collide:
  "(list_all2 (\<lambda>a b. a = b \<or> in_no_text a \<and> in_no_text b) j k \<longrightarrow>
     (\<forall>f c. Apply f (Encode (c\<lparr>cKey := j\<rparr>)) = Apply f (Encode (c\<lparr>cKey := k\<rparr>)))) \<and>
   ((\<forall>f c. Apply f (Encode (c\<lparr>cKey := j\<rparr>)) = Apply f (Encode (c\<lparr>cKey := k\<rparr>))) \<longleftrightarrow> to_valid j = to_valid k)"
proof -
  have same: "Apply f (Encode (c\<lparr>cKey := j\<rparr>)) = Apply f (Encode (c\<lparr>cKey := k\<rparr>))"
    if "to_valid j = to_valid k" for f c
    using that by (simp add: Apply_def decode_encode san_command_def)
  moreover have "to_valid j = to_valid k"
    if all: "\<forall>f c. Apply f (Encode (c\<lparr>cKey := j\<rparr>)) = Apply f (Encode (c\<lparr>cKey := k\<rparr>))"
  proof -
    have "Apply NewFSM (Encode \<lparr>cOp = OpPut, cKey = i, cValue = '''', cExpect = None\<rparr>) =
        Inr (zero_result\<lparr>rOk := True\<rparr>, NewFSM\<lparr>fData := GoMap (fmupd (to_valid i) '''' fmempty)\<rparr>)" for i
      by (simp add: Apply_def decode_encode san_command_def apply_command_def op_defs NewFSM_def)
    with all [rule_format, of NewFSM "\<lparr>cOp = OpPut, cKey = j, cValue = '''', cExpect = None\<rparr>"]
    have "fmupd (to_valid j) ('''' :: string) fmempty = fmupd (to_valid k) '''' fmempty" by (simp add: NewFSM_def)
    from arg_cong [OF this, of "\<lambda>m. fmlookup m (to_valid j)"] show ?thesis by (simp split: if_splits)
  qed
  ultimately show ?thesis
    using to_valid_similar by blast
qed

text \<open>the one-byte keys FF and FE: a value put under one is found under the other\<close>

theorem invalid_keys_collide_witness:
  "\<exists>f. replay Apply NewFSM
      [Encode \<lparr>cOp = OpPut, cKey = [CHR 0xFF], cValue = ''v'', cExpect = None\<rparr>,
       Encode \<lparr>cOp = OpGet, cKey = [CHR 0xFE], cValue = '''', cExpect = None\<rparr>] =
    Inr ([zero_result\<lparr>rOk := True\<rparr>, \<lparr>rOk = True, rPresent = True, rValue = ''v''\<rparr>], f)"
proof -
  have "list_all2 (\<lambda>a b. a = b \<or> in_no_text a \<and> in_no_text b) [CHR 0xFE] [CHR 0xFF]"
    by (simp add: in_no_text_def)
  from invalid_keys_collide [THEN conjunct1, THEN mp, OF this]
  have "Apply f (Encode \<lparr>cOp = OpGet, cKey = [CHR 0xFE], cValue = '''', cExpect = None\<rparr>) =
      Apply f (Encode \<lparr>cOp = OpGet, cKey = [CHR 0xFF], cValue = '''', cExpect = None\<rparr>)" for f
    by (elim allE [of _ f] allE [of _ "\<lparr>cOp = OpGet, cKey = [], cValue = '''', cExpect = None\<rparr>"]) simp
  then show ?thesis
    by (simp add: Apply_def decode_encode san_command_def apply_command_def op_defs NewFSM_def gomap_get_def)
qed


section \<open>Witnesses\<close>

text \<open>A cluster whose log holds one put, applied by node 0.\<close>

definition one_put :: command where
  "one_put = \<lparr>cOp = OpPut, cKey = ''k'', cValue = ''v'', cExpect = None\<rparr>"

definition one_put_fsm :: fsm where
  "one_put_fsm = \<lparr>fData = GoMap (fmupd ''k'' ''v'' fmempty)\<rparr>"

definition one_put_cluster :: "(fsm, bytes) cluster" where
  "one_put_cluster = \<lparr>clLog = [Encode one_put],
     clNode = (\<lambda>_. fresh_replica NewFSM)(0 := \<lparr>rState = one_put_fsm, rApplied = 1, rSnap = None\<rparr>)\<rparr>"

lemma one_put_applies: "Apply NewFSM (Encode one_put) = Inr (zero_result\<lparr>rOk := True\<rparr>, one_put_fsm)"
proof -
  have "DecodeCommand (Encode one_put) = (one_put, None)"
    by (rule decode_encode_valid) (simp add: one_put_def command_valid_def op_defs)
  then show ?thesis
    by (simp add: Apply_def apply_command_def one_put_def NewFSM_def one_put_fsm_def)
qed

lemma one_put_reachable: "cluster_reachable NewFSM Apply fsm_snap Restore one_put_cluster"
proof -
  let ?c0 = "\<lparr>clLog = [], clNode = (\<lambda>_. fresh_replica NewFSM)\<rparr>"
  let ?c1 = "?c0\<lparr>clLog := clLog ?c0 @ [Encode one_put]\<rparr>"
  have 1: "cluster_reachable NewFSM Apply fsm_snap Restore ?c1"
    by (rule cluster_next [OF cluster_start commit])
  have "cluster_step NewFSM Apply fsm_snap Restore ?c1 (?c1\<lparr>clNode := (clNode ?c1)
      (0 := (clNode ?c1 0)\<lparr>rState := one_put_fsm, rApplied := Suc (rApplied (clNode ?c1 0))\<rparr>)\<rparr>)"
    by (rule apply_entry) (simp_all add: fresh_replica_def one_put_applies)
  from cluster_next [OF 1 this] show ?thesis
    by (simp add: one_put_cluster_def fresh_replica_def)
qed

theorem replica_state_is_replay_witness:
  "\<exists>rs. replay Apply NewFSM [Encode one_put] = Inr (rs, one_put_fsm)"
  using replica_state_is_replay [OF one_put_reachable, of 0] by (simp add: one_put_cluster_def)

theorem replicas_converge_witness:
  "Dump (rState (clNode one_put_cluster 1)) = Dump (rState (clNode one_put_cluster 2))"
  by (rule replicas_converge [OF one_put_reachable]) (simp add: one_put_cluster_def)

theorem logged_put_survives_witness: "fsm_get (rState (clNode one_put_cluster 0)) ''k'' = Some ''v''"
  using logged_put_survives [OF one_put_reachable, of "[]" "''k''" "''v''" None "[]" 0]
  by (simp add: one_put_cluster_def one_put_def)

theorem cas_single_winner_witness:
  "\<exists>rs f. replay apply_command NewFSM [cas_absent, cas_absent\<lparr>cValue := ''w''\<rparr>] = Inr (rs, f) \<and>
     wins ''k'' [cas_absent, cas_absent\<lparr>cValue := ''w''\<rparr>] rs = 1"
proof -
  obtain rs f where r: "replay apply_command NewFSM [cas_absent, cas_absent\<lparr>cValue := ''w''\<rparr>] = Inr (rs, f)"
    by (simp add: apply_command_def cas_absent_def NewFSM_def gomap_get_def)
  have "wins ''k'' [cas_absent, cas_absent\<lparr>cValue := ''w''\<rparr>] rs = (if list_ex (contender ''k'' None) [cas_absent, cas_absent\<lparr>cValue := ''w''\<rparr>] then 1 else 0)"
    by (rule cas_single_winner [OF r]) (simp_all add: NewFSM_def fsm_get_def gomap_get_def contender_def cas_absent_def)
  with r show ?thesis by (auto simp: contender_def cas_absent_def)
qed

end
