(* ===== verification/Verdict.thy ===== *)
theory Verdict
  imports Rig Replica
begin

text \<open>
  What a run of the harness shows: a run that passed has a history that a run of the state
  machine explains, a broken checker stops the run before any operation, the history file has
  the recorded operations, the checks of contention, durability and convergence, and what the
  fault phases leave behind. \<open>rig\<close> is a run's world in which a store answers every request,
  used by the witnesses.
\<close>

section \<open>Steps of a run\<close>

lemma acting_Inr: "acting f s = Inr (a, s') \<longleftrightarrow>
    (\<exists>r w. f (rsRec s) (rsWorld s) = Inr (a, r, w) \<and> s' = s\<lparr>rsRec := r, rsWorld := w\<rparr>)"
  by (auto simp: acting_def split: sum.splits)

lemma on_world_Inr: "on_world f s = Inr (a, s') \<longleftrightarrow>
    a = fst (f (rsWorld s)) \<and> s' = s\<lparr>rsWorld := snd (f (rsWorld s))\<rparr>"
  by (auto simp: on_world_def case_prod_beta)

lemma pure_Inr: "pure a s = Inr (b, s') \<longleftrightarrow> b = a \<and> s' = s"
  by (auto simp: pure_def)

lemma check_Inr: "check name pass detail s = Inr (u, s') \<longleftrightarrow>
    s' = s\<lparr>rsReport := (rsReport s)\<lparr>rpChecks := rpChecks (rsReport s) @ [\<lparr>rcName = name, rcPass = pass, rcDetail = detail\<rparr>]\<rparr>\<rparr>"
  by (auto simp: check_def)

lemmas phase_Inr = acting_Inr on_world_Inr pure_Inr check_Inr

lemma andThen_Inr: "andThen m k s = Inr (b, s'') \<longleftrightarrow> (\<exists>a s'. m s = Inr (a, s') \<and> k a s' = Inr (b, s''))"
  by (auto simp: andThen_def split: sum.splits)

lemma failed_snoc: "failed (rep\<lparr>rpChecks := rpChecks rep @ [c]\<rparr>) \<longleftrightarrow> failed rep \<or> \<not> rcPass c"
  by (auto simp: failed_def)

section \<open>The report\<close>

lemma linearizability_phase:
  assumes "phaseLinearizability env opt s = Inr (u, s')"
  shows "rsRec s' = rsRec s" and "failed (rsReport s') \<longleftrightarrow>
    failed (rsReport s) \<or> \<not> crLinearizable (Check (rvPorcupine env) (recOps (rsRec s)) (300 * Second))"
  using assms
  by (auto simp: phaseLinearizability_def timed_check_def on_world_Inr andThen_Inr Let_def check_Inr failed_snoc split: if_splits)

lemma failed_cong: "rpChecks rep = rpChecks rep' \<Longrightarrow> failed rep = failed rep'"
  by (simp add: failed_def)

lemma finish_fields:
  assumes "finish env opt s = Inr (Inr rep, s')"
  shows "rsRec s' = rsRec s" and "rpAllPassed rep \<longleftrightarrow> \<not> failed (rsReport s)"
    and "rpChecks rep = rpChecks (rsReport s)" and "rpOpsTotal rep = length (recOps (rsRec s))"
    and "rpFaults rep = fEvents (rsFaults s)"
  using assms by (auto simp: finish_def Let_def failed_def split: option.splits prod.splits)

lemma Run_Inr:
  assumes "Run fuel env opt w = Inr (Inr rep, s)"
  obtains w1 where "rvMkdirAll env (roOutDir opt) w = (None, w1)"
    "run_phases fuel env opt ((start_state env opt w)\<lparr>rsWorld := w1\<rparr>) = Inr (Inr rep, s)"
  using assms by (auto simp: Run_def Let_def split: option.splits prod.splits)

text \<open>A run that passed got past the self-test and ended with the check of its history.\<close>

lemma run_phases_passed:
  assumes "run_phases fuel env opt s = Inr (Inr rep, s')" and "rpAllPassed rep"
  shows "crLinearizable (Check (rvPorcupine env) (recOps (rsRec s')) (300 * Second))"
    and "list_all rcPass (rpChecks rep)"
proof -
  from assms(1) obtain s1 where s1: "(if failed (rsReport s1) then finish env opt s1 else
       andThen (phaseReset fuel env opt) (\<lambda>_. andThen (phaseSmoke fuel env opt) (\<lambda>_.
       andThen (phaseCASContention fuel env opt) (\<lambda>_.
       andThen (if \<not> roSkipFaults opt then fault_phases fuel env opt else pure ()) (\<lambda>_.
       andThen (phaseLinearizability env opt) (\<lambda>_. finish env opt))))) s1) = Inr (Inr rep, s')"
    unfolding run_phases_def andThen_Inr by blast
  have "\<not> failed (rsReport s1)"
    using s1 assms(2) finish_fields(2) by force
  with s1 obtain s2 s3 where s2: "phaseLinearizability env opt s2 = Inr ((), s3)" and s3: "finish env opt s3 = Inr (Inr rep, s')"
    by (auto simp: andThen_Inr)
  show "crLinearizable (Check (rvPorcupine env) (recOps (rsRec s')) (300 * Second))"
    using linearizability_phase [OF s2] finish_fields [OF s3] assms(2) by simp
  show "list_all rcPass (rpChecks rep)"
    using finish_fields(2,3) [OF s3] assms(2) by (auto simp: failed_def list_all_iff list_ex_iff)
qed

text \<open>The recorded operations of a run that passed have one order that respects real time and that
  one run of the state machine explains, and no check of the report failed.\<close>

lemma Run_passed:
  assumes "porcupine_contract Model (rvPorcupine env)" and "Run fuel env opt w = Inr (Inr rep, s)"
    and "rpAllPassed rep" and "recordable (recOps (rsRec s))"
  shows "(\<exists>l. fsm_order (ToOperations (recOps (rsRec s))) l) \<and> list_all rcPass (rpChecks rep)"
proof -
  from Run_Inr [OF assms(2)] obtain w1 where
    "run_phases fuel env opt ((start_state env opt w)\<lparr>rsWorld := w1\<rparr>) = Inr (Inr rep, s)" by blast
  note ph = run_phases_passed [OF this assms(3)]
  have "linearizable Model (ToOperations (recOps (rsRec s)))"
    using Check_decides(1) [OF assms(1,4) ph(1)] .
  with ph(2) order_if_linearizable [OF ToOperations_well_formed [OF assms(4)]] show ?thesis
    by blast
qed

section \<open>A checker that does not work\<close>

lemma self_test:
  assumes "phaseCheckerSelfTest env opt s = Inr (u, s')"
  shows "rsRec s' = rsRec s \<and> rsFaults s' = rsFaults s"
    and "failed (rsReport s') \<longleftrightarrow> failed (rsReport s) \<or>
      (case read_fixture env opt ''known-bad-history.jsonl'' (rsWorld s) of
         (bad, Some err) \<Rightarrow> True
       | (bad, None) \<Rightarrow> crLinearizable (Check (rvPorcupine env) bad (60 * Second)) \<or>
           (case read_fixture env opt ''known-good-history.jsonl'' (rvChecking env (ToOperations bad) (60 * Second) (rsWorld s)) of
              (good, Some err) \<Rightarrow> True
            | (good, None) \<Rightarrow> \<not> crLinearizable (Check (rvPorcupine env) good (60 * Second))))"
  using assms
  by (auto simp: phaseCheckerSelfTest_def fixture_def timed_check_def on_world_Inr Let_def check_Inr andThen_Inr failed_def
      split: prod.splits option.splits)

lemma self_test_total: "\<exists>s'. phaseCheckerSelfTest env opt s = Inr ((), s')"
  by (auto simp: phaseCheckerSelfTest_def fixture_def timed_check_def on_world_def Let_def check_def andThen_def
      split: prod.splits option.splits)

text \<open>C32: A checker that accepts the known bad history, or whose fixture cannot be read, is found out
  before it can vouch for anything: the run does no operation and injects no fault, and its
  report does not say that everything passed.\<close>

theorem Run_broken_checker:
  assumes "Run fuel env opt w = Inr (Inr rep, s)"
    and "read_fixture env opt ''known-bad-history.jsonl'' (snd (rvMkdirAll env (roOutDir opt) w)) = (bad, err)"
    and "err = None \<longrightarrow> crLinearizable (Check (rvPorcupine env) bad (60 * Second))"
  shows "recOps (rsRec s) = [] \<and> rpOpsTotal rep = 0 \<and> rpFaults rep = [] \<and> \<not> rpAllPassed rep"
proof -
  from Run_Inr [OF assms(1)] obtain w1 where w1: "rvMkdirAll env (roOutDir opt) w = (None, w1)"
    and r: "run_phases fuel env opt ((start_state env opt w)\<lparr>rsWorld := w1\<rparr>) = Inr (Inr rep, s)" .
  let ?s = "(start_state env opt w)\<lparr>rsWorld := w1\<rparr>"
  obtain s1 where s1: "phaseCheckerSelfTest env opt ?s = Inr ((), s1)" using self_test_total by blast
  have f: "failed (rsReport s1)"
    using assms(2,3) w1 by (auto simp: self_test(2) [OF s1] split: option.splits)
  with r s1 have "finish env opt s1 = Inr (Inr rep, s)"
    by (simp add: run_phases_def andThen_def)
  from finish_fields [OF this] f self_test(1) [OF s1] show ?thesis by (simp add: start_state_def)
qed

section \<open>The history file\<close>

text \<open>A path in a directory ends with the file's name.\<close>

lemma split_on_snoc: "split_on c (s @ c # t) = split_on c s @ split_on c t"
proof (induction s)
  case (Cons x s)
  then show ?case by (cases "split_on c s") auto
qed simp

lemma clean_parts_snoc:
  "x \<noteq> '''' \<Longrightarrow> x \<noteq> ''.'' \<Longrightarrow> x \<noteq> ''..'' \<Longrightarrow> clean_parts rooted st (ps @ [x]) = clean_parts rooted st ps @ [x]"
  by (induction rooted st ps rule: clean_parts.induct) auto

lemma join_with_snoc: "\<exists>u. join_with sep (ps @ [x]) = u @ x"
proof (induction ps)
  case (Cons p ps)
  then obtain u where "join_with sep (ps @ [x]) = u @ x" ..
  then have "join_with sep ((p # ps) @ [x]) = (p @ sep @ u) @ x" by (cases ps) auto
  then show ?case ..
qed (auto intro: exI [of _ "[]"])

lemma join_path_ends:
  assumes "x \<noteq> ''''" and "x \<noteq> ''.''" and "x \<noteq> ''..''" and "CHR ''/'' \<notin> set x"
  shows "\<exists>u. join_path [dir, x] = u @ x"
proof -
  obtain d where d: "join_path [dir, x] = clean_path (d @ x)" and p: "\<exists>ps. split_on (CHR ''/'') (d @ x) = ps @ [x]"
  proof (cases "dir = ''''")
    case True
    then show ?thesis using that [of "''''"] assms by (simp add: join_path_def split_on_no_sep)
  next
    case False
    have "split_on (CHR ''/'') ((dir @ [CHR ''/'']) @ x) = split_on (CHR ''/'') dir @ [x]"
      using split_on_snoc [of "CHR ''/''" dir x] assms(4) by (simp add: split_on_no_sep)
    then show ?thesis using that [of "dir @ [CHR ''/'']"] False assms(1) by (auto simp: join_path_def)
  qed
  from p obtain ps where ps: "split_on (CHR ''/'') (d @ x) = ps @ [x]" ..
  obtain u where u: "join_with ''/'' (clean_parts (has_prefix (d @ x) ''/'') [] ps @ [x]) = u @ x"
    using join_with_snoc by blast
  have "clean_path (d @ x) = (if has_prefix (d @ x) ''/'' then CHR ''/'' # u else u) @ x"
    using assms(1) by (simp add: clean_path_def ps clean_parts_snoc [OF assms(1-3)] u)
  with d have "join_path [dir, x] = (if has_prefix (d @ x) ''/'' then CHR ''/'' # u else u) @ x" by simp
  then show ?thesis by (rule exI)
qed

lemma report_path_apart: "join_path [dir, ''history.jsonl''] \<noteq> join_path [dir, ''report.json'']"
proof
  assume eq: "join_path [dir, ''history.jsonl''] = join_path [dir, ''report.json'']"
  from join_path_ends [of "''history.jsonl''" dir] obtain u where u: "join_path [dir, ''history.jsonl''] = u @ ''history.jsonl''"
    by auto
  from join_path_ends [of "''report.json''" dir] obtain v where v: "join_path [dir, ''report.json''] = v @ ''report.json''"
    by auto
  from arg_cong [OF eq [unfolded u v], of last] show False by simp
qed

lemma finish_written:
  assumes "finish env opt s = Inr (Inr rep, s')"
  shows "\<exists>d. WriteFile (rvFile env (join_path [roOutDir opt, ''history.jsonl'']) (rsWorld s)) (recOps (rsRec s)) = (None, d) \<and>
    rvWriteFile env (join_path [roOutDir opt, ''report.json'']) (report_text (rvTimeText env) rep)
      (rvSetFile env (join_path [roOutDir opt, ''history.jsonl'']) d (rsWorld s)) = (None, rsWorld s') \<and>
    rpHistoryFile rep = join_path [roOutDir opt, ''history.jsonl'']"
proof -
  let ?W = "WriteFile (rvFile env (join_path [roOutDir opt, ''history.jsonl'']) (rsWorld s)) (recOps (rsRec s))"
  obtain e d where w: "?W = (e, d)" by (cases ?W)
  then show ?thesis
    using assms by (cases e) (auto simp: finish_def Let_def split: option.splits prod.splits)
qed

text \<open>Files of a run: what was stored at a path is there, and writing the report leaves the other
  files as they are.\<close>

locale run_files =
  fixes env :: "('w, 't, 'e, 'i) run_env"
  assumes file_stored: "dkFile (rvFile env p (rvSetFile env p d w)) = dkFile d"
    and file_written: "rvWriteFile env p b w = (None, w') \<Longrightarrow> dkFile (rvFile env p w') = Some b"
    and write_apart: "p \<noteq> q \<Longrightarrow> dkFile (rvFile env p (snd (rvWriteFile env q b w))) = dkFile (rvFile env p w)"
begin

lemma finish_history:
  assumes "finish env opt s = Inr (Inr rep, s')"
  shows "dkFile (rvFile env (rpHistoryFile rep) (rsWorld s')) = Some (concat (map history_line (recOps (rsRec s'))))"
proof -
  let ?h = "join_path [roOutDir opt, ''history.jsonl'']"
  from finish_written [OF assms] obtain d where d: "WriteFile (rvFile env ?h (rsWorld s)) (recOps (rsRec s)) = (None, d)"
    and w: "rvWriteFile env (join_path [roOutDir opt, ''report.json'']) (report_text (rvTimeText env) rep) (rvSetFile env ?h d (rsWorld s)) =
      (None, rsWorld s')" and h: "rpHistoryFile rep = ?h" by blast
  from write_apart [OF report_path_apart [of "roOutDir opt"], of "report_text (rvTimeText env) rep" "rvSetFile env ?h d (rsWorld s)"] w
  have "dkFile (rvFile env ?h (rsWorld s')) = dkFile (rvFile env ?h (rvSetFile env ?h d (rsWorld s)))" by simp
  with d h finish_fields(1) [OF assms] show ?thesis by (simp add: file_stored WriteFile_content)
qed

lemma finish_report:
  assumes "finish env opt s = Inr (Inr rep, s')"
  shows "dkFile (rvFile env (join_path [roOutDir opt, ''report.json'']) (rsWorld s')) = Some (report_text (rvTimeText env) rep)"
  using finish_written [OF assms] file_written by blast

end

text \<open>Every report comes from \<open>finish\<close>.\<close>

lemma Run_finishes:
  assumes "Run fuel env opt w = Inr (Inr rep, s)"
  shows "\<exists>s1. finish env opt s1 = Inr (Inr rep, s)"
proof -
  from Run_Inr [OF assms] obtain w1 where
    "run_phases fuel env opt ((start_state env opt w)\<lparr>rsWorld := w1\<rparr>) = Inr (Inr rep, s)" by blast
  then show ?thesis
    by (auto simp: run_phases_def andThen_Inr split: if_splits) 
qed

text \<open>The history can be checked again later: the file the report names reads back as the recorded
  operations, in every run that ends with a report. So does what the report counts.\<close>

theorem Run_history:
  assumes "run_files env" and "Run fuel env opt w = Inr (Inr rep, s)"
    and "list_all (\<lambda>op. length (history_line op) \<le> max_token) (recOps (rsRec s))"
  shows "ReadFile (rvFile env (rpHistoryFile rep) (rsWorld s)) = (map san_hop (recOps (rsRec s)), None) \<and>
    rpOpsTotal rep = length (recOps (rsRec s))"
proof -
  from Run_finishes [OF assms(2)] obtain s1 where f: "finish env opt s1 = Inr (Inr rep, s)" ..
  show ?thesis
    using run_files.finish_history [OF assms(1) f] finish_fields(1,4) [OF f] Read_history [OF assms(3)]
    by (simp add: ReadFile_def)
qed

section \<open>The self-test and the committed fixtures\<close>

text \<open>C39: The self-test is fair: with the committed fixtures in place when they are read (the second one after the
  first check), every checker that keeps Porcupine's contract passes it, unless its search for the known good
  history timed out.\<close>

theorem self_test_fair:
  assumes "porcupine_contract Model (rvPorcupine env)"
    and "dkFile (rvFile env (join_path [roFixturesDir opt, ''known-bad-history.jsonl'']) (rsWorld s)) = Some (file_of_lines bad_fixture)"
    and "dkFile (rvFile env (join_path [roFixturesDir opt, ''known-good-history.jsonl''])
      (rvChecking env (ToOperations known_bad) (60 * Second) (rsWorld s))) = Some (file_of_lines good_fixture)"
    and "fst (rvPorcupine env Model (ToOperations known_good) (60 * Second)) \<noteq> CheckUnknown"
    and "phaseCheckerSelfTest env opt s = Inr (u, s')"
  shows "failed (rsReport s') = failed (rsReport s)"
proof -
  let ?w = "rvChecking env (ToOperations known_bad) (60 * Second) (rsWorld s)"
  have bad: "read_fixture env opt ''known-bad-history.jsonl'' (rsWorld s) = (known_bad, None)"
    and good: "read_fixture env opt ''known-good-history.jsonl'' ?w = (known_good, None)"
    using assms(2,3) by (simp_all add: read_fixture_def ReadFile_def Read_fixtures)
  have "\<not> crLinearizable (Check (rvPorcupine env) known_bad (60 * Second))"
    using Check_decides(1) [OF assms(1) recordable_tests(1)] by auto
  moreover have "crLinearizable (Check (rvPorcupine env) known_good (60 * Second))"
    using Check_decides(2) [OF assms(1) recordable_tests(2) assms(4)] by simp
  ultimately show ?thesis
    using self_test(2) [OF assms(5)] by (simp add: bad good)
qed

section \<open>Starting from a used store\<close>

lemma accepts_deletes:
  assumes "list_all (\<lambda>a. iOp (opInput a) = OpDelete) ds" and "ds \<noteq> []"
  shows "accepts Model_Step st (ds @ l) = accepts Model_Step zero_state l"
  using assms
proof (induction ds arbitrary: st)
  case (Cons d ds)
  have d: "Model_Step st (opInput d) (opOutput d) = (True, zero_state)" for st
    using Cons.prems(1) by (simp add: Model_Step_def op_defs)
  show ?case
  proof (cases "ds = []")
    case False
    with Cons.IH Cons.prems show ?thesis by (simp add: d)
  qed (simp add: d)
qed simp

text \<open>C36: The reset works: node volumes keep what earlier runs wrote, and the checker's model starts
  empty, but once the deletes of the reset phase have been executed it makes no difference:
  whatever the store held before, a history that begins with them and goes on with
  operations on workload keys is explained by a run from there exactly if it is explained by
  a run from the empty store. The keys of all phases are among those that are deleted.\<close>

theorem reset_hides_past:
  assumes "list_all (\<lambda>a. iOp (opInput a) = OpDelete) dels" and "map op_key dels = reset_keys opt"
    and "set (map op_key l) \<subseteq> set (reset_keys opt)" and "fData f \<noteq> NilMap"
  shows "fsm_explains f (dels @ l) = fsm_explains NewFSM (dels @ l) \<and>
    {''smoke'', ''majority-live'', ''minority-probe''} \<union> set (chaos_keys opt) \<union>
      (\<Union>i < 3. {''durable-'' @ itoa i, ''cas-arena-'' @ itoa i}) = set (reset_keys opt)"
proof (rule conjI)
  have nn: "fData NewFSM \<noteq> NilMap" by (simp add: NewFSM_def)
  have keys: "set (reset_keys opt) = op_key ` set dels" using arg_cong [OF assms(2), of set] by simp
  have "accepts Model_Step (kv_at f k) (key_ops k (dels @ l)) = accepts Model_Step (kv_at NewFSM k) (key_ops k (dels @ l))" for k
  proof (cases "k \<in> set (reset_keys opt)")
    case True
    then have "key_ops k dels \<noteq> []"
      by (auto simp: key_ops_def filter_empty_conv keys)
    moreover have "list_all (\<lambda>a. iOp (opInput a) = OpDelete) (key_ops k dels)"
      using assms(1) by (simp add: key_ops_def list_all_iff)
    ultimately show ?thesis by (simp add: accepts_deletes key_ops_def)
  next
    case False
    then have "key_ops k (dels @ l) = []"
      using assms(3) unfolding key_ops_def filter_empty_conv keys by auto
    then show ?thesis by simp
  qed
  then show "fsm_explains f (dels @ l) = fsm_explains NewFSM (dels @ l)"
    using fsm_explains_keys [OF assms(4)] fsm_explains_keys [OF nn] by blast
next
  have "{..<3 :: nat} = set [0..<3]" by auto
  then show "{''smoke'', ''majority-live'', ''minority-probe''} \<union> set (chaos_keys opt) \<union>
      (\<Union>i < 3. {''durable-'' @ itoa i, ''cas-arena-'' @ itoa i}) = set (reset_keys opt)"
    unfolding reset_keys_def chaos_keys_def set_append set_concat set_map by simp
qed

section \<open>Contention\<close>

text \<open>The answers of a round agree with a log: the contenders that were told a result are among
  those executed, with that result; when no answer was unknown, they are all of them.\<close>

definition contention_log :: "string \<Rightarrow> string \<Rightarrow> command list \<Rightarrow> result list \<Rightarrow> hop list \<Rightarrow> bool" where
  "contention_log k base cs rs results \<longleftrightarrow>
     (let told = image_mset hOk (filter_mset (\<lambda>a. hOutcome a = OutcomeOK) (mset results));
          executed = mset (map (\<lambda>(c, r). rOk r) (filter (\<lambda>(c, r). contender k (Some base) c) (zip cs rs)))
      in told \<subseteq># executed \<and> (contention_unknowns results = 0 \<longrightarrow> told = executed \<and> executed \<noteq> {#}))"

lemma count_wins: "contention_wins results = count (image_mset hOk (filter_mset (\<lambda>a. hOutcome a = OutcomeOK) (mset results))) True"
  by (induction results) (auto simp: contention_wins_def)

lemma count_executed:
  assumes "length cs = length rs"
    and "list_all (\<lambda>c. contender k (Some base) c \<or> \<not> may_write k c) cs"
  shows "count (mset (map (\<lambda>(c, r). rOk r) (filter (\<lambda>(c, r). contender k (Some base) c) (zip cs rs)))) True = wins k cs rs"
  using assms
proof (induction cs rs rule: list_induct2)
  case (Cons c cs r rs)
  then show ?case by (auto simp: wins_def contender_def may_write_def)
qed (simp add: wins_def)

text \<open>C35: The contention check never blames a correct store: whatever order the log gave to the
  contenders, and to commands that do not write the key, and whichever of their answers were
  lost, the round passes.\<close>

theorem contention_fair:
  assumes "replay apply_command f cs = Inr (rs, f')" and "fData f \<noteq> NilMap" and "fsm_get f k = Some base"
    and "list_all (\<lambda>c. contender k (Some base) c \<or> \<not> may_write k c) cs"
    and "contention_log k base cs rs results"
  shows "round_ok results"
proof -
  let ?told = "image_mset hOk (filter_mset (\<lambda>a. hOutcome a = OutcomeOK) (mset results))"
  let ?ex = "mset (map (\<lambda>(c, r). rOk r) (filter (\<lambda>(c, r). contender k (Some base) c) (zip cs rs)))"
  have len: "length cs = length rs" using replay_length [OF assms(1)] by simp
  have w: "count ?ex True = (if list_ex (contender k (Some base)) cs then 1 else 0)"
    using count_executed [OF len assms(4)] replay_one_win [OF assms(1-4)] by simp
  have sub: "?told \<subseteq># ?ex" and all: "contention_unknowns results = 0 \<Longrightarrow> ?told = ?ex \<and> ?ex \<noteq> {#}"
    using assms(5) by (auto simp: contention_log_def Let_def)
  have le: "contention_wins results \<le> 1"
    using mset_subset_eq_count [OF sub, of True] w unfolding count_wins by (auto split: if_splits)
  show ?thesis
  proof (cases "contention_unknowns results = 0")
    case True
    with all have ex: "?told = ?ex" "?ex \<noteq> {#}" by auto
    then obtain c r where "(c, r) \<in> set (zip cs rs)" "contender k (Some base) c"
      by (auto simp: filter_empty_conv)
    then have "list_ex (contender k (Some base)) cs" by (auto simp: list_ex_iff dest: set_zip_leftD)
    with ex(1) w have "contention_wins results = 1" by (simp add: count_wins)
    with True show ?thesis by (simp add: round_ok_def)
  qed (use le in \<open>simp add: round_ok_def\<close>)
qed

section \<open>Faults are undone\<close>

text \<open>What a phase keeps.\<close>

definition keeps :: "('s \<Rightarrow> bool) \<Rightarrow> ('s, 'a) phase \<Rightarrow> bool" where
  "keeps P m \<longleftrightarrow> (\<forall>s a s'. P s \<longrightarrow> m s = Inr (a, s') \<longrightarrow> P s')"

lemma keepsI: "(\<And>s a s'. P s \<Longrightarrow> m s = Inr (a, s') \<Longrightarrow> P s') \<Longrightarrow> keeps P m"
  by (auto simp: keeps_def)

lemma keepsD: "keeps P m \<Longrightarrow> P s \<Longrightarrow> m s = Inr (a, s') \<Longrightarrow> P s'"
  by (auto simp: keeps_def)

lemma keeps_andThen: "keeps P m \<Longrightarrow> (\<And>a. keeps P (k a)) \<Longrightarrow> keeps P (andThen m k)"
  unfolding keeps_def andThen_Inr by blast

lemma keeps_pure: "keeps P (pure a)"
  by (auto simp: keeps_def pure_def)

lemma keeps_each: "(\<And>x a. keeps P (f x a)) \<Longrightarrow> keeps P (each f xs a)"
  by (induction xs arbitrary: a) (auto intro: keeps_pure keeps_andThen)

lemma keeps_poll:
  assumes "keeps P (now env)" and "\<And>a. keeps P (body a)"
  shows "keeps P (poll fuel env deadline body a)"
proof (induction fuel arbitrary: a)
  case (Suc fuel)
  then show ?case
    using assms by (auto intro!: keeps_andThen simp: keeps_pure split: prod.splits if_splits)
qed (simp add: keeps_def)

definition all_up :: "('w \<Rightarrow> string \<Rightarrow> bool) \<Rightarrow> ('w \<Rightarrow> string \<Rightarrow> string \<Rightarrow> string set) \<Rightarrow> node list \<Rightarrow> 'w \<Rightarrow> bool" where
  "all_up running drops ns w \<longleftrightarrow> (\<forall>n \<in> set ns. running w (nContainer n) \<and>
     drops w (nContainer n) ''INPUT'' = {} \<and> drops w (nContainer n) ''OUTPUT'' = {})"

text \<open>A harness on containers: docker keeps its contract, and nothing else the injector's loop
  does starts, stops or cuts off a container.\<close>

locale container_run = docker_contract "rvFault env" running drops
  for env :: "('w, 't, 'e, 'i) run_env" and running :: "'w \<Rightarrow> string \<Rightarrow> bool"
    and drops :: "'w \<Rightarrow> string \<Rightarrow> string \<Rightarrow> string set" +
  assumes now_apart: "running (snd (ceNow (rvClient env) w)) = running w \<and> drops (snd (ceNow (rvClient env) w)) = drops w"
    and sleep_apart: "running (ceSleep (rvClient env) d w) = running w \<and> drops (ceSleep (rvClient env) d w) = drops w"
    and intn_apart: "running (snd (rvFaultIntn env k w)) = running w \<and> drops (snd (rvFaultIntn env k w)) = drops w"
    and get_apart: "running (snd (fvGet (rvFault env) u w)) = running w \<and> drops (snd (fvGet (rvFault env) u w)) = drops w"
begin

text \<open>All containers but those of \<open>C\<close> run, and none drops packets.\<close>

definition up :: "string set \<Rightarrow> node list \<Rightarrow> ('w, 't) run_state \<Rightarrow> bool" where
  "up C ns s \<longleftrightarrow> fNodes (rsFaults s) = ns \<and>
     (\<forall>n \<in> set ns. (nContainer n \<in> C \<or> running (rsWorld s) (nContainer n)) \<and>
       drops (rsWorld s) (nContainer n) ''INPUT'' = {} \<and> drops (rsWorld s) (nContainer n) ''OUTPUT'' = {})"

lemma up_all_up: "up {} ns s \<longleftrightarrow> fNodes (rsFaults s) = ns \<and> all_up running drops ns (rsWorld s)"
  by (auto simp: up_def all_up_def)

lemma leader_id_apart: "running (snd (leader_id (rvFault env) ns w)) = running w \<and> drops (snd (leader_id (rvFault env) ns w)) = drops w"
proof (induction ns arbitrary: w)
  case (Cons n ns)
  obtain b w1 where g: "fvGet (rvFault env) (nURL n @ ''/healthz'') w = (b, w1)" by fastforce
  with get_apart [of "nURL n @ ''/healthz''" w] have "running w1 = running w \<and> drops w1 = drops w" by simp
  with Cons.IH [of w1] show ?case by (auto simp: g split: option.splits prod.splits)
qed simp

lemma keeps_now: "keeps (up C ns) (now env)"
  by (auto simp: keeps_def now_def on_world_Inr up_def now_apart)

lemma keeps_sleep: "keeps (up C ns) (sleep env d)"
  by (auto simp: keeps_def sleep_def on_world_Inr up_def sleep_apart)

lemma keeps_intn: "keeps (up C ns) (on_world (rvFaultIntn env k))"
  by (auto simp: keeps_def on_world_Inr up_def intn_apart)

lemma keeps_fault_sleep: "keeps (up C ns) (fault_sleep env base spread)"
  unfolding fault_sleep_def by (intro keeps_andThen keeps_intn keeps_sleep)

lemma keeps_find_leader: "keeps (up C ns) (find_leader env)"
  using leader_id_apart
  by (auto simp: keeps_def find_leader_def on_faults_def LeaderID_def up_def Let_def case_prod_beta)

lemma keeps_fault_target: "keeps (up C ns) (fault_target env opt mode)"
  unfolding fault_target_def
  by (intro keeps_andThen)
    (auto simp: random_node_def keeps_def [of _ "\<lambda>s. Inl _"] intro: keeps_find_leader keeps_pure keeps_andThen keeps_intn split: option.splits)

lemma heal_all_up: "heal_all env s = Inr (u, s') \<Longrightarrow> fNodes (rsFaults s') = fNodes (rsFaults s) \<and> up {} (fNodes (rsFaults s)) s'"
  using HealAll_heals [of "rsFaults s" "rsWorld s"]
  by (auto simp: heal_all_def on_faults_def up_def healed_def HealAll_def record_event_def Let_def)

lemma kill_up: "on_faults (Kill (rvFault env) n) s = Inr (r, s') \<Longrightarrow> up {} ns s \<Longrightarrow> up {nContainer n} ns s'"
  using kill_others [of "rsWorld s" _ n] kill_drops [of n "rsWorld s"]
  by (fastforce simp: on_faults_def Kill_def run_cmd_world case_prod_beta Let_def record_event_def up_def)

lemma start_up: "on_faults (Start (rvFault env) n) s = Inr (r, s') \<Longrightarrow> up {nContainer n} ns s \<Longrightarrow> up {} ns s'"
  using start_runs [of n "rsWorld s"] start_drops [of n "rsWorld s"]
  by (fastforce simp: on_faults_def Start_def run_cmd_world case_prod_beta Let_def record_event_def up_def)

lemma isolate_nodes: "on_faults (Isolate (rvFault env) n) s = Inr (r, s') \<Longrightarrow> fNodes (rsFaults s') = fNodes (rsFaults s)"
  by (auto simp: on_faults_def Isolate_def case_prod_beta Let_def record_event_def)

lemma sleep_nodes: "fault_sleep env base spread s = Inr (r, s') \<Longrightarrow> fNodes (rsFaults s') = fNodes (rsFaults s)"
  by (auto simp: fault_sleep_def sleep_def andThen_Inr on_world_Inr)

lemma keeps_inflict: "keeps (up {} ns) (inflict env mode target)"
proof (rule keepsI)
  fix s u s' assume s: "up {} ns s" and i: "inflict env mode target s = Inr (u, s')"
  show "up {} ns s'"
  proof (cases "mode mod 2 = 0")
    case True
    with i obtain r1 s1 s2 r2 where "on_faults (Kill (rvFault env) target) s = Inr (r1, s1)"
      "fault_sleep env 3000 5000 s1 = Inr ((), s2)" "on_faults (Start (rvFault env) target) s2 = Inr (r2, s')"
      by (auto simp: inflict_def andThen_Inr pure_Inr)
    with kill_up s start_up keepsD [OF keeps_fault_sleep] show ?thesis by metis
  next
    case False
    with i obtain r1 s1 s2 where 1: "on_faults (Isolate (rvFault env) target) s = Inr (r1, s1)"
      "fault_sleep env 5000 8000 s1 = Inr ((), s2)" "heal_all env s2 = Inr (u, s')"
      by (auto simp: inflict_def andThen_Inr)
    with isolate_nodes [OF 1(1)] sleep_nodes [OF 1(2)] heal_all_up [OF 1(3)] s show ?thesis by (simp add: up_def)
  qed
qed

lemma keeps_fault_round: "keeps (up {} ns) (fault_round env opt x)"
  unfolding fault_round_def
  by (intro keeps_andThen keeps_fault_sleep keeps_intn keeps_fault_target keeps_inflict keeps_pure)

lemma fault_loop_up: "keeps (up {} ns) (poll fuel env deadline (fault_round env opt) ())"
  by (intro keeps_poll keeps_now keeps_fault_round)

lemma keeps_nodes_target: "keeps (\<lambda>s. fNodes (rsFaults s) = ns) (fault_target env opt mode)"
  unfolding fault_target_def
  by (intro keeps_andThen)
    (auto simp: random_node_def find_leader_def on_faults_def Let_def case_prod_beta
      keeps_def andThen_Inr on_world_Inr pure_Inr split: option.splits if_splits)

lemma keeps_nodes_inflict: "keeps (\<lambda>s. fNodes (rsFaults s) = ns) (inflict env mode target)"
  using isolate_nodes sleep_nodes heal_all_up
  by (fastforce simp: keeps_def inflict_def andThen_Inr pure_Inr on_faults_def Kill_def Start_def case_prod_beta Let_def
      record_event_def split: if_splits)

lemma chaos_ends_up: "phaseChaos fuel env opt s = Inr (u, s') \<Longrightarrow> up {} (fNodes (rsFaults s)) s'"
proof -
  assume "phaseChaos fuel env opt s = Inr (u, s')"
  then obtain gs u1 s1 t s2 u2 s3 u3 s4 u4 s5 detail where a: "on_world (\<lambda>w. ((), rvTraffic env gs w)) s = Inr (u1, s1)"
    "now env s1 = Inr (t, s2)" "poll fuel env (t + roDuration opt) (fault_round env opt) () s2 = Inr (u2, s3)"
    "acting (rvJoin env) s3 = Inr (u3, s4)" "heal_all env s4 = Inr (u4, s5)" "check ''chaos-completed'' True detail s5 = Inr (u, s')"
    by (auto simp: phaseChaos_def andThen_Inr split: if_splits)
  then have 1: "fNodes (rsFaults s2) = fNodes (rsFaults s)" "fNodes (rsFaults s4) = fNodes (rsFaults s3)"
    "rsFaults s' = rsFaults s5" "rsWorld s' = rsWorld s5"
    by (auto simp: on_world_Inr now_def acting_Inr check_Inr)
  have "keeps (\<lambda>x. fNodes (rsFaults x) = fNodes (rsFaults s)) (poll fuel env (t + roDuration opt) (fault_round env opt) ())"
    unfolding fault_round_def
    by (intro keeps_poll keeps_andThen keeps_nodes_target keeps_nodes_inflict keeps_pure)
      (auto simp: keeps_def now_def fault_sleep_def sleep_def andThen_Inr on_world_Inr)
  from keepsD [OF this 1(1) a(3)] heal_all_up [OF a(5)] 1(2-4) show ?thesis by (simp add: up_def)
qed

end

text \<open>C11: One fault at a time, always healed before the next: when all containers run and none drops
  packets, a round of the fault loop ends with all of them so again, whatever it did in
  between; and whatever happened during the chaos phase, it ends with all of them so.\<close>

theorem chaos_heals:
  assumes "container_run env running drops"
  shows "(all_up running drops (fNodes (rsFaults s)) (rsWorld s) \<longrightarrow> fault_round env opt () s = Inr (r, s1) \<longrightarrow>
      all_up running drops (fNodes (rsFaults s)) (rsWorld s1)) \<and>
    (phaseChaos fuel env opt s = Inr (u, s2) \<longrightarrow> all_up running drops (fNodes (rsFaults s)) (rsWorld s2))"
proof (intro conjI impI)
  assume "all_up running drops (fNodes (rsFaults s)) (rsWorld s)" and r: "fault_round env opt () s = Inr (r, s1)"
  then have "container_run.up running drops {} (fNodes (rsFaults s)) s"
    by (simp add: container_run.up_all_up [OF assms])
  from keepsD [OF container_run.keeps_fault_round [OF assms] this r]
  show "all_up running drops (fNodes (rsFaults s)) (rsWorld s1)"
    by (simp add: container_run.up_all_up [OF assms])
next
  assume "phaseChaos fuel env opt s = Inr (u, s2)"
  from container_run.chaos_ends_up [OF assms this] show "all_up running drops (fNodes (rsFaults s)) (rsWorld s2)"
    by (simp add: container_run.up_all_up [OF assms])
qed

section \<open>Durability without a leader\<close>

text \<open>An operation is recorded as it returns, on the key and with the kind it was given.\<close>

lemma invoke_round_records:
  "(invoke_round env c overall np pin start attempt op rec w = Done iv w' \<longrightarrow>
      ivRec iv = add_op (ivOp iv) rec \<and> hOp (ivOp iv) = hOp op \<and> hKey (ivOp iv) = hKey op) \<and>
   (invoke_round env c overall np pin start attempt op rec w = Again op' w' \<longrightarrow> hOp op' = hOp op \<and> hKey op' = hKey op)"
  by (auto simp: invoke_round_def round_end_def Let_def case_prod_beta split: sum.splits if_splits)

lemma invoke_loop_records:
  "invoke_loop fuel env c overall np pin start attempt op rec w = Some (Inr (iv, w')) \<Longrightarrow>
   ivRec iv = add_op (ivOp iv) rec \<and> hOp (ivOp iv) = hOp op \<and> hKey (ivOp iv) = hKey op"
proof (induction fuel arbitrary: attempt op w)
  case (Suc fuel)
  then show ?case
    using invoke_round_records [of env c overall np pin start attempt op rec w]
    by (force split: round.splits)
qed simp

lemma invoke_records:
  assumes "invoke fuel env c op d np pin s = Inr ((op', c'), s')"
  shows "recOps (rsRec s') = recOps (rsRec s) @ [op'] \<and> hOp op' = hOp op \<and> hKey op' = hKey op \<and> rsReport s' = rsReport s"
proof -
  from assms obtain iv w where i: "Invoke fuel (rvClient env) c op d np pin (rsRec s) (rsWorld s) = Some (Inr (iv, w))"
    and op': "op' = ivOp iv" and s': "s' = s\<lparr>rsRec := ivRec iv, rsWorld := w\<rparr>"
    by (auto simp: invoke_def acting_Inr invoke_action_def split: option.splits sum.splits prod.splits)
  from i invoke_loop_records [of fuel "rvClient env" c _ np pin _ 0 op "rsRec s"]
  have "ivRec iv = add_op (ivOp iv) (rsRec s) \<and> hOp (ivOp iv) = hOp op \<and> hKey (ivOp iv) = hKey op"
    by (auto simp: Invoke_def Let_def case_prod_beta split: if_splits)
  then show ?thesis by (simp add: op' s' add_op_def)
qed

text \<open>The reads back are recorded; the last one decides.\<close>

lemma pausing_read:
  assumes "pausing env d (read_back fuel env cid key) (c, got0) s = Inr ((left, c1, g), s')"
  shows "\<exists>s2. invoke fuel env c (client_op cid ''get'' key '''') (5 * Second) False None s = Inr ((g, c1), s2) \<and>
    rsRec s' = rsRec s2 \<and> rsReport s' = rsReport s2"
proof -
  from assms obtain l x s2 where r: "read_back fuel env cid key (c, got0) s = Inr ((l, x), s2)"
    and p: "(if l then pure (True, x) else andThen (sleep env d) (\<lambda>_. pure (False, x))) s2 = Inr ((left, c1, g), s')"
    unfolding pausing_def andThen_Inr by auto
  from p have x: "x = (c1, g)" and s': "rsRec s' = rsRec s2 \<and> rsReport s' = rsReport s2"
    by (auto simp: andThen_Inr pure_Inr sleep_def on_world_Inr split: if_splits)
  from r have "invoke fuel env c (client_op cid ''get'' key '''') (5 * Second) False None s = Inr ((g, c1), s2)"
    unfolding read_back_def by (auto simp: andThen_Inr pure_Inr x)
  with s' show ?thesis by blast
qed

lemma read_back_records:
  assumes "poll n env dl (pausing env d (read_back fuel env cid key)) (c, got0) s = Inr ((c', got), s')"
  shows "\<exists>gs. recOps (rsRec s') = recOps (rsRec s) @ gs \<and> list_all (\<lambda>g. hOp g = ''get'' \<and> hKey g = key) gs \<and>
    got = last (got0 # gs) \<and> rsReport s' = rsReport s"
  using assms
proof (induction n arbitrary: c got0 s)
  case (Suc n)
  from Suc.prems obtain t s1 where now: "now env s = Inr (t, s1)"
    and rest: "(if \<not> sint t < sint dl then pure (c, got0)
      else andThen (pausing env d (read_back fuel env cid key) (c, got0)) (\<lambda>(left, a').
        if left then pure a' else poll n env dl (pausing env d (read_back fuel env cid key)) a')) s1 = Inr ((c', got), s')"
    by (auto simp: andThen_Inr)
  have s1: "rsRec s1 = rsRec s" "rsReport s1 = rsReport s" using now by (auto simp: now_def on_world_Inr)
  show ?case
  proof (cases "sint t < sint dl")
    case True
    with rest obtain left a' s3 where p: "pausing env d (read_back fuel env cid key) (c, got0) s1 = Inr ((left, a'), s3)"
      and more: "(if left then pure a' else poll n env dl (pausing env d (read_back fuel env cid key)) a') s3 = Inr ((c', got), s')"
      by (auto simp: andThen_Inr)
    obtain c1 g where a': "a' = (c1, g)" by (cases a')
    from pausing_read [OF p [unfolded a']] obtain s2 where
      inv: "invoke fuel env c (client_op cid ''get'' key '''') (5 * Second) False None s1 = Inr ((g, c1), s2)"
      and s3: "rsRec s3 = rsRec s2" "rsReport s3 = rsReport s2" by blast
    note more = more [unfolded a']
    from invoke_records [OF inv] have g: "recOps (rsRec s2) = recOps (rsRec s1) @ [g]" "hOp g = ''get''" "hKey g = key"
        "rsReport s2 = rsReport s1"
      by (simp_all add: client_op_def zero_hop_def)
    show ?thesis
    proof (cases left)
      case True
      with more g s1 s3 show ?thesis by (intro exI [of _ "[g]"]) (simp add: pure_Inr)
    next
      case False
      with more have "poll n env dl (pausing env d (read_back fuel env cid key)) (c1, g) s3 = Inr ((c', got), s')" by simp
      from Suc.IH [OF this] obtain gs where "recOps (rsRec s') = recOps (rsRec s3) @ gs"
        "list_all (\<lambda>g. hOp g = ''get'' \<and> hKey g = key) gs" "got = last (g # gs)" "rsReport s' = rsReport s3" by blast
      with g s1 s3 show ?thesis by (intro exI [of _ "g # gs"]) simp
    qed
  qed (use rest s1 in \<open>auto simp: pure_Inr\<close>)
qed simp

text \<open>What a round of the phase asks of the operations it recorded: its \<open>put\<close> was acknowledged, and the last
  of its reads found the value.\<close>

definition acked_and_read :: "nat \<Rightarrow> hop list \<Rightarrow> bool" where
  "acked_and_read i ops \<longleftrightarrow>
     (let mine = filter (\<lambda>op. hKey op = ''durable-'' @ itoa i) ops; gets = filter (\<lambda>op. hOp op = ''get'') mine in
      list_ex (\<lambda>op. hOp op = ''put'' \<and> hOutcome op = OutcomeOK) mine \<and> gets \<noteq> [] \<and> durable (''precious-'' @ itoa i) (last gets))"

lemma on_faults_quiet: "on_faults f s = Inr (l, s') \<Longrightarrow> rsRec s' = rsRec s \<and> rsReport s' = rsReport s"
  by (auto simp: on_faults_def case_prod_beta)

lemma durability_round_records:
  assumes "durability_round fuel env opt i (allPass, detail, later) s = Inr ((allPass', detail', later'), s')"
  shows "\<exists>ops. recOps (rsRec s') = recOps (rsRec s) @ ops \<and> list_all (\<lambda>op. hKey op = ''durable-'' @ itoa i) ops \<and>
    (allPass' \<longleftrightarrow> allPass \<and> acked_and_read i ops) \<and> rsReport s' = rsReport s"
proof -
  let ?key = "''durable-'' @ itoa i" and ?val = "''precious-'' @ itoa i"
  from assms obtain w c s1 where
    put: "invoke fuel env (NewClient (200 + of_nat i) (roNodes opt)) (client_op (200 + of_nat i) ''put'' ?key ?val) (20 * Second) False None s =
      Inr ((w, c), s1)"
    by (auto simp: durability_round_def Let_def andThen_Inr)
  from invoke_records [OF put] have w: "recOps (rsRec s1) = recOps (rsRec s) @ [w]" "hOp w = ''put''" "hKey w = ?key"
      "rsReport s1 = rsReport s"
    by (simp_all add: client_op_def zero_hop_def)
  show ?thesis
  proof (cases "hOutcome w = OutcomeOK")
    case False
    with assms put have "allPass' = False" "s' = s1"
      by (auto simp: durability_round_def Let_def andThen_Inr pure_Inr)
    with w False show ?thesis by (intro exI [of _ "[w]"]) (simp add: acked_and_read_def)
  next
    case True
    from True assms put obtain leader s2 later2 s3 t s4 c2 got s5 s6 s7 where
      2: "find_leader env s1 = Inr (leader, s2)" and 3: "kill_leader env leader later s2 = Inr (later2, s3)"
      and 4: "now env s3 = Inr (t, s4)"
      and 5: "poll fuel env (t + 45 * Second) (pausing env (500 * Millisecond) (read_back fuel env (200 + of_nat i) ?key)) (c, zero_hop) s4 =
        Inr ((c2, got), s5)"
      and 6: "heal_all env s5 = Inr ((), s6)" and 7: "sleep env (3 * Second) s6 = Inr ((), s7)"
      and 8: "s' = s7" "allPass' = (if durable ?val got then allPass else False)"
      by (auto simp: durability_round_def Let_def andThen_Inr pure_Inr)
    have "rsRec s4 = rsRec s1 \<and> rsReport s4 = rsReport s1"
      using 2 3 4 by (auto simp: find_leader_def kill_leader_def now_def on_world_Inr andThen_Inr pure_Inr
        dest!: on_faults_quiet split: option.splits)
    moreover have "rsRec s7 = rsRec s5 \<and> rsReport s7 = rsReport s5"
      using 6 7 by (auto simp: heal_all_def sleep_def on_world_Inr dest!: on_faults_quiet)
    moreover from read_back_records [OF 5] obtain gs where gs: "recOps (rsRec s5) = recOps (rsRec s4) @ gs"
      "list_all (\<lambda>g. hOp g = ''get'' \<and> hKey g = ?key) gs" "got = last (zero_hop # gs)" "rsReport s5 = rsReport s4" by blast
    moreover from gs(2) have "filter (\<lambda>op. hKey op = ?key) gs = gs" "filter (\<lambda>op. hOp op = ''get'') gs = gs"
      by (simp_all add: filter_id_conv list_all_iff)
    then have "acked_and_read i (w # gs) \<longleftrightarrow> durable ?val got"
      using w True gs(3) by (cases "gs = []") (auto simp: acked_and_read_def Let_def durable_def zero_hop_def OutcomeOK_def)
    ultimately show ?thesis
      using w 8 by (intro exI [of _ "w # gs"]) (auto simp: list_all_iff)
  qed
qed

lemma durability_keys_differ: "i < 3 \<Longrightarrow> j < 3 \<Longrightarrow> itoa i = itoa j \<Longrightarrow> i = j"
  by (auto simp: itoa_def nat_dec.simps digit_char_def less_Suc_eq numeral_3_eq_3)

lemma acked_and_read_apart:
  assumes "list_all (\<lambda>op. hKey op = ''durable-'' @ itoa j) xs" and "i < 3" and "j < 3" and "i \<noteq> j"
  shows "acked_and_read i (xs @ ys) = acked_and_read i ys" and "acked_and_read i (ys @ xs) = acked_and_read i ys"
proof -
  have "filter (\<lambda>op. hKey op = ''durable-'' @ itoa i) xs = []"
    using assms durability_keys_differ [of i j] by (auto simp: filter_empty_conv list_all_iff)
  then show "acked_and_read i (xs @ ys) = acked_and_read i ys" and "acked_and_read i (ys @ xs) = acked_and_read i ys"
    by (simp_all add: acked_and_read_def)
qed

lemma durability_phase_records:
  assumes "phaseLeaderKillDurability fuel env opt s = Inr (u, s')"
  shows "\<exists>ops c. recOps (rsRec s') = recOps (rsRec s) @ ops \<and> rpChecks (rsReport s') = rpChecks (rsReport s) @ [c] \<and>
    rcName c = ''acked-write-survives-leader-kill'' \<and> (rcPass c \<longleftrightarrow> (\<forall>i < 3. acked_and_read i ops))"
proof -
  have three: "[0..<3] = [0, 1, 2 :: nat]" by (simp add: upt_rec)
  from assms obtain p0 d0 l0 s0 p1 d1 l1 s1 p2 d2 l2 s2 s3 where
    r: "durability_round fuel env opt 0 (True, '''', []) s = Inr ((p0, d0, l0), s0)"
    "durability_round fuel env opt 1 (p0, d0, l0) s0 = Inr ((p1, d1, l1), s1)"
    "durability_round fuel env opt 2 (p1, d1, l1) s1 = Inr ((p2, d2, l2), s2)"
    and chk: "check ''acked-write-survives-leader-kill'' p2 d2 s2 = Inr ((), s3)"
    and later: "each (start_later env) l2 () s3 = Inr (u, s')"
    unfolding phaseLeaderKillDurability_def three by (auto simp: andThen_Inr pure_Inr)
  from durability_round_records [OF r(1)] obtain o0 where 0: "recOps (rsRec s0) = recOps (rsRec s) @ o0"
    "list_all (\<lambda>op. hKey op = ''durable-'' @ itoa 0) o0" "p0 \<longleftrightarrow> acked_and_read 0 o0" "rsReport s0 = rsReport s" by auto
  from durability_round_records [OF r(2)] obtain o1 where 1: "recOps (rsRec s1) = recOps (rsRec s0) @ o1"
    "list_all (\<lambda>op. hKey op = ''durable-'' @ itoa 1) o1" "p1 \<longleftrightarrow> p0 \<and> acked_and_read 1 o1" "rsReport s1 = rsReport s0" by auto
  from durability_round_records [OF r(3)] obtain o2 where 2: "recOps (rsRec s2) = recOps (rsRec s1) @ o2"
    "list_all (\<lambda>op. hKey op = ''durable-'' @ itoa 2) o2" "p2 \<longleftrightarrow> p1 \<and> acked_and_read 2 o2" "rsReport s2 = rsReport s1" by auto
  have "keeps (\<lambda>x. rsRec x = rsRec s3 \<and> rsReport x = rsReport s3) (each (start_later env) l2 ())"
    by (intro keeps_each) (auto simp: keeps_def start_later_def on_world_Inr)
  from keepsD [OF this _ later] have s': "rsRec s' = rsRec s3" "rsReport s' = rsReport s3" by auto
  let ?ops = "o0 @ o1 @ o2"
  have "acked_and_read 0 ?ops = acked_and_read 0 o0" "acked_and_read 1 ?ops = acked_and_read 1 o1" "acked_and_read 2 ?ops = acked_and_read 2 o2"
    using acked_and_read_apart [OF 0(2), of 1 "o1 @ o2"] acked_and_read_apart [OF 0(2), of 2 "o1 @ o2"]
      acked_and_read_apart [OF 1(2), of 0 o0] acked_and_read_apart [OF 1(2), of 2 o2]
      acked_and_read_apart [OF 2(2), of 0 "o0 @ o1"] acked_and_read_apart [OF 2(2), of 1 o1]
    by simp_all
  moreover have "(\<forall>i < (3 :: nat). P i) \<longleftrightarrow> P 0 \<and> P 1 \<and> P 2" for P
    by (auto simp: less_Suc_eq numeral_3_eq_3 numeral_2_eq_2)
  ultimately show ?thesis
    using 0 1 2 s' chk
    by (intro exI [of _ ?ops] exI [of _ "\<lparr>rcName = ''acked-write-survives-leader-kill'', rcPass = p2, rcDetail = d2\<rparr>"])
      (auto simp: check_Inr)
qed

text \<open>C40: When no node names a leader, the durability phase kills nobody: every event it adds is a heal. Its check
  \<open>acked-write-survives-leader-kill\<close> can pass all the same, since it asks of the operations alone: it is recorded
  as passed exactly if in each of the three rounds the \<open>put\<close> was acknowledged and the last read found its value.\<close>

theorem durability_without_leader:
  fixes env :: "('w, 't, 'e, 'i) run_env"
  assumes "\<forall>f w. fst (LeaderID (rvFault env) f w) = ''''" and "\<forall>n \<in> set (fNodes (rsFaults s)). nID n \<noteq> ''''"
    and "phaseLeaderKillDurability fuel env opt s = Inr (u, s')"
    and "list_all (\<lambda>e. feAction e = ''heal'') (fEvents (rsFaults s))"
  shows "list_all (\<lambda>e. feAction e = ''heal'') (fEvents (rsFaults s')) \<and>
    (\<exists>ops c. recOps (rsRec s') = recOps (rsRec s) @ ops \<and> rpChecks (rsReport s') = rpChecks (rsReport s) @ [c] \<and>
      rcName c = ''acked-write-survives-leader-kill'' \<and> (rcPass c \<longleftrightarrow> (\<forall>i < 3. acked_and_read i ops)))"
proof -
  let ?P = "\<lambda>x. fNodes (rsFaults x) = fNodes (rsFaults s) \<and> list_all (\<lambda>e. feAction e = ''heal'') (fEvents (rsFaults x))"
  have nobody: "l = None \<and> rsFaults s1 = rsFaults x" if "find_leader env x = Inr (l, s1)" "?P x" for x l s1
    using that assms(1,2) by (auto simp: find_leader_def on_faults_def Let_def case_prod_beta NodeByID_def find_None_iff)
  have kl: "keeps ?P (andThen (find_leader env) (\<lambda>leader. andThen (kill_leader env leader later) k))"
    if "\<And>x. keeps ?P (k x)" for later and k :: "node list \<Rightarrow> (('w, 't) run_state, bool \<times> string \<times> node list) phase"
  proof (rule keepsI)
    fix x a s'' assume P: "?P x" and "andThen (find_leader env) (\<lambda>leader. andThen (kill_leader env leader later) k) x = Inr (a, s'')"
    then obtain l s1 later' s2 where 1: "find_leader env x = Inr (l, s1)" "kill_leader env l later s1 = Inr (later', s2)"
      "k later' s2 = Inr (a, s'')" unfolding andThen_Inr by blast
    from nobody [OF 1(1) P] have "l = None" "rsFaults s1 = rsFaults x" by auto
    with 1(2) P have "?P s2" by (simp add: kill_leader_def pure_Inr)
    from keepsD [OF that this 1(3)] show "?P s''" .
  qed
  have others: "keeps ?P (invoke fuel env c op d np pin)" "keeps ?P (now env)" "keeps ?P (sleep env dur)"
    "keeps ?P (heal_all env)" "keeps ?P (check nm ps dt)" "keeps ?P (start_later env n x)" for c op d np pin dur nm ps dt n x
    by (auto simp: keeps_def invoke_def acting_Inr now_def sleep_def on_world_Inr heal_all_def on_faults_def HealAll_def
        record_event_def check_Inr start_later_def Let_def)
  have rb: "keeps ?P (pausing env (500 * Millisecond) (read_back fuel env cid key) a)" for cid key a
    unfolding pausing_def read_back_def
    by (auto intro!: keeps_andThen keeps_pure others split: prod.splits)
  have round: "keeps ?P (durability_round fuel env opt i a)" for i a
    unfolding durability_round_def Let_def
    by (auto intro!: keeps_andThen keeps_pure others kl keeps_poll rb split: prod.splits)
  have "keeps ?P (phaseLeaderKillDurability fuel env opt)"
    unfolding phaseLeaderKillDurability_def
    by (auto intro!: keeps_andThen keeps_each others round split: prod.splits)
  from keepsD [OF this _ assms(3)] assms(4) durability_phase_records [OF assms(3)] show ?thesis by simp
qed

section \<open>Convergence\<close>

lemma strmap_depth: "jdepth (strmap_json g) \<le> 1"
proof -
  have "foldr max (map (\<lambda>(k, v). jdepth v) (map (\<lambda>(k, v). (k, JStr v)) es)) 0 = 0" for es :: "(string \<times> string) list"
    by (induction es) auto
  then show ?thesis by (cases g) (simp_all add: strmap_json_def del: map_map)
qed

lemma state_decodes:
  assumes "fsm_ok (raCell api (snFSM n) v)"
  shows "decode_stream (dec_struct state_field) (rsBody (handle_state api n v)) zero_node_state =
    (\<lparr>nsNode = to_valid (cfgNodeID (snCfg n)), nsLastApplied = to_valid (raStats api (snRaft n) v ''applied_index''),
      nsData = Dump (raCell api (snFSM n) v)\<rparr>, None)"
proof -
  let ?d = "Dump (raCell api (snFSM n) v)"
  obtain m where m: "?d = GoMap m" by (simp add: Dump_eq)
  have pred: "fmpred (\<lambda>k v. valid_utf8 k \<and> valid_utf8 v) m"
    using fsm_ok_get [OF assms] m by (auto simp: fmpred_iff Dump_eq fsm_get_def gomap_get_def)
  show ?thesis
    unfolding handle_state_def Let_def writeJSON_def response.simps m
    by (subst decode_stream_jprint)
      (use strmap_text(1) [of "GoMap m"] strmap_depth [of "GoMap m"] in \<open>auto simp: jsan_strmap [OF pred] dec_strmap_strmap max_depth_def zero_node_state_def
        state_field_def key_is_def split: prod.splits\<close>)
qed

text \<open>A node answers with the state of one of the replicas of a cluster.\<close>

definition shows_replica :: "('w, 't, 'e, 'i) run_env \<Rightarrow> 'w \<Rightarrow> node \<Rightarrow> fsm replica \<Rightarrow> bool" where
  "shows_replica env w n rep \<longleftrightarrow> (\<exists>(api :: (unit, unit, unit) raft_api) sn.
     rvGet env (nURL n @ ''/internal/state'') w = (Some (rsBody (handle_state api sn ())), w) \<and>
     raCell api (snFSM sn) () = rState rep \<and> raStats api (snRaft sn) () ''applied_index'' = nat_dec (rApplied rep))"

lemma fetch_replica:
  assumes "shows_replica env w n rep" and "fsm_ok (rState rep)"
  shows "\<exists>name. fetch_states env (n # ns) st w = fetch_states env ns
    (st @ [\<lparr>nsNode = name, nsLastApplied = nat_dec (rApplied rep), nsData = Dump (rState rep)\<rparr>]) w"
proof -
  from assms(1) obtain api :: "(unit, unit, unit) raft_api" and sn where
    "rvGet env (nURL n @ ''/internal/state'') w = (Some (rsBody (handle_state api sn ())), w)"
    "raCell api (snFSM sn) () = rState rep" "raStats api (snRaft sn) () ''applied_index'' = nat_dec (rApplied rep)"
    by (auto simp: shows_replica_def)
  then show ?thesis
    using state_decodes [of api sn "()"] assms(2) to_valid_plain [OF nat_dec_plain]
    by (intro exI [of _ "to_valid (cfgNodeID (snCfg sn))"]) simp
qed

text \<open>C10: The convergence check is exact: when three nodes show replicas of a cluster, a round of the
  check passes exactly if the three have applied the same number of entries, and then, by the
  agreement of replicas, it saw the same contents on all of them.\<close>

theorem convergence_exact:
  assumes "cluster_reachable NewFSM Apply fsm_snap Restore c" and "roNodes opt = [n0, n1, n2]"
    and "shows_replica env (rsWorld s) n0 (clNode c i)" and "shows_replica env (rsWorld s) n1 (clNode c j)"
    and "shows_replica env (rsWorld s) n2 (clNode c k)"
  shows "\<exists>conv detail s'. convergence_round env opt a s = Inr ((conv, conv, detail), s') \<and>
    failed (rsReport s') = failed (rsReport s) \<and>
    (conv \<longleftrightarrow> rApplied (clNode c i) = rApplied (clNode c j) \<and> rApplied (clNode c j) = rApplied (clNode c k)) \<and>
    (conv \<longleftrightarrow> length (rpChecks (rsReport s')) = Suc (length (rpChecks (rsReport s))))"
proof -
  have ok: "fsm_ok (rState (clNode c x))" for x
    using kv.at_prefix_ok kv.reachable_inv [OF assms(1), of x] by (auto simp: kv.replica_inv_def)
  from fetch_replica [OF assms(3) ok] obtain a0 where a0: "fetch_states env [n0, n1, n2] [] (rsWorld s) = fetch_states env [n1, n2]
      ([] @ [\<lparr>nsNode = a0, nsLastApplied = nat_dec (rApplied (clNode c i)), nsData = Dump (rState (clNode c i))\<rparr>]) (rsWorld s)"
    by blast
  from fetch_replica [OF assms(4) ok] obtain a1 where a1: "fetch_states env [n1, n2] st (rsWorld s) = fetch_states env [n2]
      (st @ [\<lparr>nsNode = a1, nsLastApplied = nat_dec (rApplied (clNode c j)), nsData = Dump (rState (clNode c j))\<rparr>]) (rsWorld s)"
    if "st = [\<lparr>nsNode = a0, nsLastApplied = nat_dec (rApplied (clNode c i)), nsData = Dump (rState (clNode c i))\<rparr>]" for st
    by blast
  from fetch_replica [OF assms(5) ok] obtain a2 where a2: "fetch_states env [n2] st (rsWorld s) = fetch_states env []
      (st @ [\<lparr>nsNode = a2, nsLastApplied = nat_dec (rApplied (clNode c k)), nsData = Dump (rState (clNode c k))\<rparr>]) (rsWorld s)"
    if "st = [\<lparr>nsNode = a0, nsLastApplied = nat_dec (rApplied (clNode c i)), nsData = Dump (rState (clNode c i))\<rparr>,
      \<lparr>nsNode = a1, nsLastApplied = nat_dec (rApplied (clNode c j)), nsData = Dump (rState (clNode c j))\<rparr>]" for st
    by blast
  have f: "fetch_states env (roNodes opt) [] (rsWorld s) =
     ([\<lparr>nsNode = a0, nsLastApplied = nat_dec (rApplied (clNode c i)), nsData = Dump (rState (clNode c i))\<rparr>,
       \<lparr>nsNode = a1, nsLastApplied = nat_dec (rApplied (clNode c j)), nsData = Dump (rState (clNode c j))\<rparr>,
       \<lparr>nsNode = a2, nsLastApplied = nat_dec (rApplied (clNode c k)), nsData = Dump (rState (clNode c k))\<rparr>], rsWorld s)"
    by (simp add: assms(2) a0 a1 a2 del: fetch_states.simps(2))
  have inj: "nat_dec x = nat_dec y \<longleftrightarrow> x = y" for x y by (metis digits_val_nat_dec)
  have same: "rState (clNode c x) = rState (clNode c y)" if "rApplied (clNode c x) = rApplied (clNode c y)" for x y
    using kv.replicas_agree [OF assms(1) that] .
  show ?thesis
    using same [of i j] same [of j k]
    by (cases a) (auto simp: convergence_round_def andThen_def on_world_def f identical_def inj check_def failed_def pure_def)
qed

section \<open>Loops that end\<close>

lemma deadline_bound: "0 \<le> sint a \<Longrightarrow> 0 \<le> sint b \<Longrightarrow> sint (a + b) \<le> sint a + sint b" for a b :: int64
  by (simp add: sint_word_ariths signed_take_bit_int_less_eq_self_iff)

text \<open>Time goes on in a run: clients, commands, requests and the fault schedule take no negative
  time, and the schedule's random numbers are below their bound.\<close>

locale timed_run = monotonic_clock "rvClient env" time
  for env :: "('w, 't, 'e, 'i) run_env" and time :: "'w \<Rightarrow> int" +
  assumes exec_takes: "time w \<le> time (snd (fvExec (rvFault env) cmd w))"
    and ask_takes: "time w \<le> time (snd (fvGet (rvFault env) u w))"
    and get_takes: "time w \<le> time (snd (rvGet env u w))"
    and fault_intn: "time w \<le> time (snd (rvFaultIntn env k w)) \<and> (0 < k \<longrightarrow> fst (rvFaultIntn env k w) < k)"
begin

text \<open>A phase that always comes to an end, after at least \<open>d\<close> nanoseconds.\<close>

definition takes :: "int \<Rightarrow> (('w, 't) run_state, 'a) phase \<Rightarrow> bool" where
  "takes d m \<longleftrightarrow> (\<forall>s. \<exists>a s'. m s = Inr (a, s') \<and> time (rsWorld s) + d \<le> time (rsWorld s'))"

lemma takes_andThen: "takes d m \<Longrightarrow> (\<And>a. takes e (k a)) \<Longrightarrow> takes (d + e) (andThen m k)"
  unfolding takes_def
proof
  fix s :: "('w, 't) run_state"
  assume m: "\<forall>s. \<exists>a s'. m s = Inr (a, s') \<and> time (rsWorld s) + d \<le> time (rsWorld s')"
    and k: "\<And>a. \<forall>s. \<exists>b s'. k a s = Inr (b, s') \<and> time (rsWorld s) + e \<le> time (rsWorld s')"
  from m obtain a s1 where 1: "m s = Inr (a, s1)" "time (rsWorld s) + d \<le> time (rsWorld s1)" by blast
  from k obtain b s2 where "k a s1 = Inr (b, s2)" "time (rsWorld s1) + e \<le> time (rsWorld s2)" by blast
  with 1 show "\<exists>b s'. andThen m k s = Inr (b, s') \<and> time (rsWorld s) + (d + e) \<le> time (rsWorld s')"
    by (simp add: andThen_def)
qed

lemma takes_then: "takes d m \<Longrightarrow> (\<And>a. takes 0 (k a)) \<Longrightarrow> takes d (andThen m k)"
  using takes_andThen [of d m 0 k] by simp

lemma takes_pure: "takes 0 (pure a)"
  by (simp add: takes_def pure_def)

lemma takes_now: "takes 0 (now env)"
  by (auto simp: takes_def now_def on_world_Inr now_monotonic)

lemma takes_sleep: "takes (sint d) (sleep env d)"
  by (auto simp: takes_def sleep_def on_world_Inr sleep_advances)

lemma takes_check: "takes 0 (check name pass detail)"
  by (auto simp: takes_def check_Inr)

lemma run_cmd_takes: "time w \<le> time (snd (run_cmd (rvFault env) cmd w))"
  using exec_takes by (simp add: run_cmd_def case_prod_beta)

lemma run_all_takes: "time w \<le> time (run_all (rvFault env) cmds w)"
proof (induction cmds arbitrary: w)
  case (Cons c cs)
  from run_cmd_takes [of w c] Cons.IH [of "snd (run_cmd (rvFault env) c w)"] show ?case by simp
qed simp

lemma takes_heal_all: "takes 0 (heal_all env)"
  using run_all_takes by (auto simp: takes_def heal_all_def on_faults_def HealAll_def Let_def)

lemma poll_takes:
  assumes "\<And>a s. \<exists>left a' s'. body a s = Inr ((left, a'), s') \<and> (\<not> left \<longrightarrow> time (rsWorld s) + d \<le> time (rsWorld s')) \<and>
      time (rsWorld s) \<le> time (rsWorld s')"
    and "sint deadline < time (rsWorld s) + d * int fuel"
  shows "\<exists>a' s'. poll (Suc fuel) env deadline body a s = Inr (a', s') \<and> time (rsWorld s) \<le> time (rsWorld s')"
  using assms(2)
proof (induction fuel arbitrary: a s)
  case 0
  have "sint deadline \<le> max_int64" using sint64_bounds [of deadline] by simp
  with 0 have "\<not> sint (fst (ceNow (rvClient env) (rsWorld s))) < sint deadline" by (simp add: now_reads)
  then show ?case using now_monotonic [of "rsWorld s"] by (simp add: andThen_def now_def on_world_def case_prod_beta pure_def)
next
  case (Suc fuel)
  let ?s1 = "s\<lparr>rsWorld := snd (ceNow (rvClient env) (rsWorld s))\<rparr>"
  have n: "now env s = Inr (fst (ceNow (rvClient env) (rsWorld s)), ?s1)" by (simp add: now_def on_world_def case_prod_beta)
  have t1: "time (rsWorld s) \<le> time (rsWorld ?s1)" using now_monotonic [of "rsWorld s"] by simp
  show ?case
  proof (cases "sint (fst (ceNow (rvClient env) (rsWorld s))) < sint deadline")
    case False
    then show ?thesis unfolding poll.simps(2) [of "Suc fuel"] using t1 by (simp add: andThen_def n pure_def)
  next
    case True
    from assms(1) [of a ?s1] obtain left a' s2 where b: "body a ?s1 = Inr ((left, a'), s2)"
      "\<not> left \<Longrightarrow> time (rsWorld ?s1) + d \<le> time (rsWorld s2)" "time (rsWorld ?s1) \<le> time (rsWorld s2)" by blast
    show ?thesis
    proof (cases left)
      case l: True
      show ?thesis unfolding poll.simps(2) [of "Suc fuel"] using t1 b l True by (simp add: andThen_def n pure_def)
    next
      case l: False
      have "sint deadline < time (rsWorld s2) + d * int fuel"
        using Suc.prems b(2) [OF l] t1 by (simp add: algebra_simps)
      from Suc.IH [OF this, of a'] b(2) [OF l] t1 b(3) show ?thesis
        unfolding poll.simps(2) [of "Suc fuel"] using True b(1) l by (fastforce simp: andThen_def n)
    qed
  qed
qed

lemma takes_faults:
  "takes 0 (on_faults (Kill (rvFault env) n))" "takes 0 (on_faults (Start (rvFault env) n))"
  using run_cmd_takes by (simp_all add: takes_def on_faults_def Kill_def Start_def case_prod_beta Let_def)

lemma isolate_takes: "time w \<le> time (snd (isolate_peers (rvFault env) n ps e w))"
proof -
  have run: "time w \<le> time (snd (isolate_run (rvFault env) cs e w))" for cs e w
  proof (induction cs arbitrary: e w)
    case (Cons c cs)
    let ?r = "run_cmd (rvFault env) c w"
    from run_cmd_takes [of w c] Cons.IH [of "snd ?r" "case snd (fst ?r) of Some x \<Rightarrow>
        if e = None then Some (IsolateErr c (fst (fst ?r)) x) else e | None \<Rightarrow> e"]
    show ?case by (simp add: case_prod_beta Let_def)
  qed simp
  show ?thesis
  proof (induction ps arbitrary: e w)
    case (Cons p ps)
    let ?r = "isolate_run (rvFault env) (isolate_cmds n p) e w"
    from run [of w "isolate_cmds n p" e] Cons.IH [of "snd ?r" "fst ?r"] Cons.IH [of w e]
    show ?case by (simp add: case_prod_beta Let_def)
  qed simp
qed

lemma takes_isolate: "takes 0 (on_faults (Isolate (rvFault env) n))"
  using isolate_takes by (simp add: takes_def on_faults_def Isolate_def case_prod_beta Let_def)

lemma leader_id_takes: "time w \<le> time (snd (leader_id (rvFault env) ns w))"
proof (induction ns arbitrary: w)
  case (Cons n ns)
  obtain b w1 where g: "fvGet (rvFault env) (nURL n @ ''/healthz'') w = (b, w1)" by fastforce
  with ask_takes [of w "nURL n @ ''/healthz''"] have "time w \<le> time w1" by simp
  with Cons.IH [of w1] show ?case by (auto simp: g split: option.splits prod.splits)
qed simp

lemma takes_find_leader: "takes 0 (find_leader env)"
  using leader_id_takes by (simp add: takes_def find_leader_def on_faults_def LeaderID_def case_prod_beta Let_def)

lemma takes_intn: "takes 0 (on_world (rvFaultIntn env k))"
  using fault_intn by (auto simp: takes_def on_world_Inr)

lemma millis: "n \<le> 20000 \<Longrightarrow> sint (of_nat n * Millisecond :: int64) = int n * 1000000"
proof -
  assume n: "n \<le> 20000"
  have "of_nat n * Millisecond = (word_of_int (int n * 1000000) :: int64)" by (simp add: Millisecond_def)
  then show ?thesis by (simp only:) (rule sint64_of_int, use n in simp_all)
qed

lemma takes_fault_sleep:
  assumes "0 < spread" and "base + spread \<le> 20000"
  shows "takes (int base * 1000000) (fault_sleep env base spread)"
  unfolding takes_def fault_sleep_def
proof
  fix s :: "('w, 't) run_state"
  let ?k = "fst (rvFaultIntn env spread (rsWorld s))" and ?w = "snd (rvFaultIntn env spread (rsWorld s))"
  have "sint (of_nat (base + ?k) * Millisecond :: int64) = int (base + ?k) * 1000000"
    using fault_intn [of "rsWorld s" spread] assms by (intro millis) simp
  then have "time ?w + int base * 1000000 \<le> time (ceSleep (rvClient env) (of_nat (base + ?k) * Millisecond) ?w)"
    using sleep_advances [of ?w "of_nat (base + ?k) * Millisecond"] by simp
  then show "\<exists>a s'. andThen (on_world (rvFaultIntn env spread)) (\<lambda>k. sleep env (of_nat (base + k) * Millisecond)) s = Inr (a, s') \<and>
      time (rsWorld s) + int base * 1000000 \<le> time (rsWorld s')"
    using fault_intn [of "rsWorld s" spread] by (simp add: andThen_def on_world_def sleep_def case_prod_beta)
qed

lemma takes_fault_target: "roNodes opt \<noteq> [] \<Longrightarrow> takes 0 (fault_target env opt mode)"
  unfolding fault_target_def
  by (rule takes_then) (auto simp: random_node_def intro: takes_find_leader takes_pure takes_then takes_intn split: option.splits)

lemma takes_weaken: "takes d m \<Longrightarrow> 0 \<le> d \<Longrightarrow> takes 0 m"
  unfolding takes_def by fastforce

lemma takes_inflict: "takes 0 (inflict env mode target)"
  unfolding inflict_def
  by (auto intro!: takes_then takes_faults takes_isolate takes_pure takes_heal_all takes_weaken [OF takes_fault_sleep])

lemma takes_fault_round: "roNodes opt \<noteq> [] \<Longrightarrow> takes 2000000000 (fault_round env opt x)"
  unfolding fault_round_def
  by (rule takes_then)
    (auto intro!: takes_then takes_intn takes_fault_target takes_inflict takes_pure takes_weaken [OF takes_fault_sleep]
      intro: takes_fault_sleep [of 3000 2000, simplified])

lemma fault_loop_ends:
  assumes "roNodes opt \<noteq> []" and "sint deadline < time (rsWorld s) + 2000000000 * int n"
  shows "\<exists>s'. poll (Suc n) env deadline (fault_round env opt) () s = Inr ((), s')"
proof -
  have "\<exists>left a' s'. fault_round env opt x s = Inr ((left, a'), s') \<and>
      (\<not> left \<longrightarrow> time (rsWorld s) + 2000000000 \<le> time (rsWorld s')) \<and> time (rsWorld s) \<le> time (rsWorld s')" for x s
    using takes_fault_round [OF assms(1), of x] unfolding takes_def by fastforce
  from poll_takes [where body = "fault_round env opt", OF this assms(2)] show ?thesis by (metis old.unit.exhaust)
qed

lemma fetch_takes: "time w \<le> time (snd (fetch_states env ns st w))"
proof (induction ns arbitrary: st w)
  case (Cons n ns)
  obtain b w1 where g: "rvGet env (nURL n @ ''/internal/state'') w = (b, w1)" by fastforce
  with get_takes [of w "nURL n @ ''/internal/state''"] have "time w \<le> time w1" by simp
  with Cons.IH [of w1] show ?case by (auto simp: g intro: order_trans split: option.splits prod.splits)
qed simp

lemma takes_convergence_round: "takes 0 (convergence_round env opt a)"
proof -
  have "takes 0 (on_world (fetch_states env (roNodes opt) []))"
    using fetch_takes by (auto simp: takes_def on_world_Inr)
  then show ?thesis
    unfolding convergence_round_def by (cases a) (auto intro!: takes_then takes_check takes_pure)
qed

lemma convergence_body:
  "\<exists>left a' s'. pausing env (2 * Second) (convergence_round env opt) a s = Inr ((left, a'), s') \<and>
    (\<not> left \<longrightarrow> time (rsWorld s) + 2000000000 \<le> time (rsWorld s')) \<and> time (rsWorld s) \<le> time (rsWorld s')"
proof -
  from takes_convergence_round obtain left a' s1 where c: "convergence_round env opt a s = Inr ((left, a'), s1)"
    "time (rsWorld s) \<le> time (rsWorld s1)" unfolding takes_def by (metis add.right_neutral surj_pair)
  have "sint (2 * Second) = 2000000000" by (simp add: Second_def Millisecond_def)
  with takes_sleep [of "2 * Second"] obtain u s2 where "sleep env (2 * Second) s1 = Inr (u, s2)"
    "time (rsWorld s1) + 2000000000 \<le> time (rsWorld s2)" unfolding takes_def by metis
  with c show ?thesis
    by (intro exI [of _ left] exI [of _ a'] exI [of _ "if left then s1 else s2"]) (auto simp: pausing_def andThen_def pure_def)
qed

lemma convergence_phase_ends:
  assumes "0 \<le> time (rsWorld s)" and "47 \<le> fuel"
  shows "\<exists>s'. phaseConvergence fuel env opt s = Inr ((), s')"
proof -
  from takes_heal_all obtain u s1 where h: "heal_all env s = Inr (u, s1)" "time (rsWorld s) \<le> time (rsWorld s1)"
    unfolding takes_def by fastforce
  let ?t = "fst (ceNow (rvClient env) (rsWorld s1))" and ?s2 = "s1\<lparr>rsWorld := snd (ceNow (rvClient env) (rsWorld s1))\<rparr>"
  have n: "now env s1 = Inr (?t, ?s2)" by (simp add: now_def on_world_def case_prod_beta)
  have secs: "sint (90 * Second) = 90000000000" by (simp add: Second_def Millisecond_def)
  have t: "0 \<le> sint ?t" "sint ?t \<le> time (rsWorld s1)" using assms(1) h(2) by (simp_all add: now_reads)
  then have "sint (?t + 90 * Second) \<le> time (rsWorld ?s2) + 90000000000"
    using deadline_bound [of ?t "90 * Second"] now_monotonic [of "rsWorld s1"] secs by simp
  moreover obtain k where k: "fuel = Suc k" "46 \<le> k" using assms(2) by (cases fuel) auto
  ultimately have dl: "sint (?t + 90 * Second) < time (rsWorld ?s2) + 2000000000 * int k" by simp
  from poll_takes [where body = "pausing env (2 * Second) (convergence_round env opt)" and a = "(False, '''')",
      OF convergence_body dl] obtain r s3 where
    "poll fuel env (?t + 90 * Second) (pausing env (2 * Second) (convergence_round env opt)) (False, '''') ?s2 = Inr (r, s3)"
    unfolding k by blast
  then show ?thesis
    by (cases r) (simp add: phaseConvergence_def andThen_def h(1) n pure_def check_def)
qed

end

text \<open>The loops end. When time goes on, the convergence phase ends within 47 rounds, whatever the
  nodes answer, and the fault loop within a round for every two seconds of its duration and
  one more.\<close>

theorem loops_end:
  assumes "timed_run env time" and "0 \<le> time (rsWorld s)" and "roNodes opt \<noteq> []"
  shows "(47 \<le> fuel \<longrightarrow> (\<exists>s'. phaseConvergence fuel env opt s = Inr ((), s'))) \<and>
    (sint deadline < time (rsWorld s) + 2000000000 * int n \<longrightarrow>
      (\<exists>s'. poll (Suc n) env deadline (fault_round env opt) () s = Inr ((), s')))"
  using timed_run.convergence_phase_ends [OF assms(1,2)] timed_run.fault_loop_ends [OF assms(1,3)] by blast

section \<open>The rig keeps the contracts\<close>

text \<open>A rig whose clock moves when somebody sleeps.\<close>

definition ticking :: "string \<Rightarrow> (rig, nat, unit, unit) run_env" where
  "ticking leader = (rig_env leader)\<lparr>rvClient := rig_client\<lparr>ceSleep := (\<lambda>d w. w\<lparr>rgTime := rgTime w + nat (sint d)\<rparr>)\<rparr>,
     rvChecking := (\<lambda>ops t w. w\<lparr>rgTime := rgTime w + nat (sint t)\<rparr>)\<rparr>"

lemma ticking_clock: "monotonic_clock (rvClient (ticking l)) (\<lambda>w. int (rgTime w))"
proof
  show "int (rgTime w) \<le> int (rgTime w')" if "ceDo (rvClient (ticking l)) ctx q w = (out, w')" for ctx q w out w'
    using that by (auto simp: ticking_def rig_client_def rig_do_def split: option.splits sum.splits)
qed (simp_all add: ticking_def rig_client_def sint64_of_int)

interpretation ticking: timed_run "ticking l" "\<lambda>w. int (rgTime w)" for l
  by (rule timed_run.intro [OF ticking_clock])
    (unfold_locales, auto simp: ticking_def rig_env_def rig_fault_def case_prod_beta)

lemma rig_docker: "docker_contract (rig_fault l) (\<lambda>w. hostRuns (rgHost w)) (\<lambda>w. hostDrops (rgHost w))"
  by unfold_locales
    (auto simp: rig_fault_def host_exec_def start_cmd_def kill_cmd_def drop_cmd_def flush_cmd_def case_prod_beta)

lemma rig_containers: "container_run (ticking l) (\<lambda>w. hostRuns (rgHost w)) (\<lambda>w. hostDrops (rgHost w))"
proof -
  have "rvFault (ticking l) = rig_fault l" by (simp add: ticking_def rig_env_def)
  then have "docker_contract (rvFault (ticking l)) (\<lambda>w. hostRuns (rgHost w)) (\<lambda>w. hostDrops (rgHost w))"
    using rig_docker by simp
  then show ?thesis
    by (rule container_run.intro) (unfold_locales, auto simp: ticking_def rig_env_def rig_client_def rig_fault_def)
qed

interpretation containers: container_run "ticking l" "\<lambda>w. hostRuns (rgHost w)" "\<lambda>w. hostDrops (rgHost w)" for l
  by (rule rig_containers)

interpretation files: run_files "rig_env l" for l
  by unfold_locales (auto simp: rig_env_def rig_file_def)

section \<open>Witnesses\<close>

definition gullible :: "(rig, nat, unit, unit) run_env" where
  "gullible = (rig_env '''')\<lparr>rvPorcupine := (\<lambda>_ _ _. (CheckOk, ()))\<rparr>"

theorem Run_broken_checker_witness:
  "\<exists>rep s. Run 1 gullible rig_opts rig_world = Inr (Inr rep, s) \<and> \<not> rpAllPassed rep \<and> recOps (rsRec s) = []"
proof -
  have fix1: "read_fixture gullible rig_opts nm w = read_fixture (rig_env '''') rig_opts nm w" for nm w
    by (simp add: gullible_def read_fixture_def)
  have acc: "crLinearizable (Check (rvPorcupine gullible) ops t)" for ops t
    by (simp add: gullible_def Check_def Let_def)
  let ?s = "(start_state gullible rig_opts rig_world)\<lparr>rsWorld := rig_world\<rparr>"
  obtain s1 where s1: "phaseCheckerSelfTest gullible rig_opts ?s = Inr ((), s1)" using self_test_total by blast
  have f: "failed (rsReport s1)" and s1': "recOps (rsRec s1) = []"
    using self_test(2) [OF s1] self_test(1) [OF s1] by (simp_all add: fix1 rig_fixtures acc start_state_def)
  have w: "WriteFile (rig_file p (rsWorld s1)) [] = (None, (rig_file p (rsWorld s1))\<lparr>dkFile := Some [],
      dkFree := dkFree (rig_file p (rsWorld s1)) + (case dkFile (rig_file p (rsWorld s1)) of None \<Rightarrow> 0 | Some b \<Rightarrow> length b)\<rparr>)" for p
    by (simp add: WriteFile_def os_Create_def rig_file_def bw_Flush_def)
  obtain rep s where fin: "finish gullible rig_opts s1 = Inr (Inr rep, s)"
    by (simp add: finish_def Let_def s1' gullible_def rig_env_def w)
  have mkdir: "rvMkdirAll gullible p w = (None, w)" for p w by (simp add: gullible_def rig_env_def)
  have "run_phases 1 gullible rig_opts ?s = Inr (Inr rep, s)"
    using s1 f fin by (simp add: run_phases_def andThen_def)
  then have r: "Run 1 gullible rig_opts rig_world = Inr (Inr rep, s)"
    by (simp add: Run_def mkdir)
  have mk: "snd (rvMkdirAll gullible (roOutDir rig_opts) rig_world) = rig_world" by (simp add: mkdir)
  have "read_fixture gullible rig_opts ''known-bad-history.jsonl'' (snd (rvMkdirAll gullible (roOutDir rig_opts) rig_world)) = (known_bad, None)"
    unfolding mk by (simp add: fix1 rig_fixtures)
  from Run_broken_checker [OF r this] acc r show ?thesis by blast
qed

lemma served_lines: "served ops f \<Longrightarrow> list_all (\<lambda>op. length (history_line op) \<le> 1000) ops"
  by (induction rule: served.induct) (simp_all add: line_length)

theorem Run_history_witness:
  "\<exists>rep s ops. Run 1 (rig_env ''node1'') rig_opts rig_world = Inr (Inr rep, s) \<and>
     ReadFile (rvFile (rig_env ''node1'') (rpHistoryFile rep) (rsWorld s)) = (ops, None)"
proof -
  from rig_run [of 0 "''node1''"] obtain rep s where r: "Run 1 (rig_env ''node1'') rig_opts rig_world = Inr (Inr rep, s)" "rig_ok s"
    by auto
  from r(2) have "served (recOps (rsRec s)) (rgStore (rsWorld s))" by (simp add: rig_ok_def)
  from served_lines [OF this] have "list_all (\<lambda>op. length (history_line op) \<le> max_token) (recOps (rsRec s))"
    by (rule list.pred_mono_strong) (simp add: max_token_def)
  from Run_history [OF files.run_files_axioms r(1) this] r(1) show ?thesis by blast
qed

theorem self_test_fair_witness:
  "\<exists>s'. phaseCheckerSelfTest (rig_env '''') rig_opts (start_state (rig_env '''') rig_opts rig_world) = Inr ((), s') \<and>
    \<not> failed (rsReport s')"
proof -
  let ?s = "start_state (rig_env '''') rig_opts rig_world"
  obtain s1 where s1: "phaseCheckerSelfTest (rig_env '''') rig_opts ?s = Inr ((), s1)" using self_test_total by blast
  have paths: "join_path [''fixtures'', ''known-bad-history.jsonl''] = ''fixtures/known-bad-history.jsonl''"
    "join_path [''fixtures'', ''known-good-history.jsonl''] = ''fixtures/known-good-history.jsonl''"
    by code_simp+
  have porc: "rvPorcupine (rig_env '''') = search_check" by (simp add: rig_env_def)
  have "failed (rsReport s1) = failed (rsReport ?s)"
    by (rule self_test_fair [OF _ _ _ _ s1])
      (simp_all add: porc search_check_contract paths, simp_all add: search_check_def rig_env_def rig_file_def rig_world_def start_state_def)
  with s1 show ?thesis by (simp add: start_state_def failed_def)
qed

definition delete_of :: "string \<Rightarrow> kvop" where
  "delete_of k = \<lparr>opClientId = 999, opInput = \<lparr>iOp = OpDelete, iKey = k, iVal = '''', iExpect = None\<rparr>, opCall = 0,
     opOutput = \<lparr>oUnknown = False, oOk = True, oPresent = True, oVal = ''''\<rparr>, opReturn = 0\<rparr>"

theorem reset_hides_past_witness:
  "fsm_explains \<lparr>fData = GoMap (fmupd ''smoke'' ''old'' fmempty)\<rparr> (map delete_of (reset_keys rig_opts)) =
   fsm_explains NewFSM (map delete_of (reset_keys rig_opts))"
  using reset_hides_past [of "map delete_of (reset_keys rig_opts)" rig_opts "[]" "\<lparr>fData = GoMap (fmupd ''smoke'' ''old'' fmempty)\<rparr>"]
  by (simp add: delete_of_def list_all_iff comp_def)

theorem contention_fair_witness:
  "round_ok [(answered (hd default_nodes) (swap_op 0 0 ''k'' ''b'') NewFSM)\<lparr>hOk := True\<rparr>,
     (answered (hd default_nodes) (swap_op 1 0 ''k'' ''b'') NewFSM)\<lparr>hOutcome := OutcomeUnknown\<rparr>]"
proof -
  let ?f = "\<lparr>fData = GoMap (fmupd ''k'' ''b'' fmempty)\<rparr>"
  let ?c = "\<lambda>v. \<lparr>cOp = OpCAS, cKey = ''k'', cValue = v, cExpect = Some ''b''\<rparr>"
  obtain rs f' where r: "replay apply_command ?f [?c ''w0'', ?c ''w1''] = Inr (rs, f')" and rs: "map rOk rs = [True, False]"
    by (simp add: apply_command_def op_defs gomap_get_def Let_def)
  then obtain r0 r1 where rs2: "rs = [r0, r1]" "rOk r0" "\<not> rOk r1" by (auto simp: map_eq_Cons_conv)
  show ?thesis
    by (rule contention_fair [OF r, of "''k''" "''b''"])
      (simp_all add: fsm_get_def gomap_get_def contender_def contention_log_def contention_unknowns_def Let_def rs2
        answered_fields outcome_defs)
qed

theorem chaos_heals_witness:
  "\<exists>s2. phaseChaos 47 (ticking ''node2'') rig_opts
      (start_state (ticking ''node2'') rig_opts (rig_world\<lparr>rgHost := calm_host\<lparr>hostRuns := (\<lambda>_. False)\<rparr>\<rparr>)) = Inr ((), s2) \<and>
    all_up (\<lambda>w. hostRuns (rgHost w)) (\<lambda>w. hostDrops (rgHost w)) default_nodes (rsWorld s2)"
proof -
  let ?s = "start_state (ticking ''node2'') rig_opts (rig_world\<lparr>rgHost := calm_host\<lparr>hostRuns := (\<lambda>_. False)\<rparr>\<rparr>)"
  let ?dl = "0 + roDuration rig_opts"
  have "sint ?dl < int (rgTime (rsWorld ?s)) + 2000000000 * int 46"
    by (simp add: rig_opts_def Second_def Millisecond_def)
  with ticking.fault_loop_ends [of rig_opts ?dl ?s 46 "''node2''"] obtain s1 where
    p: "poll 47 (ticking ''node2'') ?dl (fault_round (ticking ''node2'') rig_opts) () ?s = Inr ((), s1)"
    by (auto simp: default_nodes_def)
  have now: "now (ticking ''node2'') ?s = Inr (0, ?s)"
    by (simp add: now_def on_world_def ticking_def rig_client_def start_state_def rig_world_def)
  have env: "rvTraffic (ticking l) gs w = w" "rvJoin (ticking l) r w = Inr ((), r, w)" for l gs w r
    by (simp_all add: ticking_def rig_env_def)
  have keys: "\<not> roNumKeys rig_opts < 0" by (simp add: rig_opts_def)
  obtain s2 where s2: "heal_all (ticking ''node2'') s1 = Inr ((), s2)"
    by (auto simp: heal_all_def on_faults_def case_prod_beta)
  have "?s\<lparr>rsWorld := rsWorld ?s\<rparr> = ?s" "s1\<lparr>rsRec := rsRec s1, rsWorld := rsWorld s1\<rparr> = s1" by simp_all
  then obtain s3 where c: "phaseChaos 47 (ticking ''node2'') rig_opts ?s = Inr ((), s3)"
    using p now s2 keys
    by (simp only: phaseChaos_def andThen_def on_world_def acting_def env sum.case prod.case check_def if_False) simp
  from conjunct2 [OF chaos_heals [OF rig_containers, of ?s]] c
  have "all_up (\<lambda>w. hostRuns (rgHost w)) (\<lambda>w. hostDrops (rgHost w)) (fNodes (rsFaults ?s)) (rsWorld s3)" by blast
  with c show ?thesis by (auto simp: start_state_def)
qed

theorem loops_end_witness:
  "\<exists>s'. phaseConvergence 47 (ticking '''') rig_opts (start_state (ticking '''') rig_opts rig_world) = Inr ((), s')"
  using loops_end [OF ticking.timed_run_axioms, of "start_state (ticking '''') rig_opts rig_world" rig_opts 47 "''''"]
  by (simp add: start_state_def rig_world_def default_nodes_def)

text \<open>Three nodes that have applied nothing.\<close>

definition blank_api :: "(unit, unit, unit) raft_api" where
  "blank_api = follower_api\<lparr>raStats := (\<lambda>_ _ _. ''0'')\<rparr>"

definition blank_env :: "(rig, nat, unit, unit) run_env" where
  "blank_env = (rig_env '''')\<lparr>rvGet := (\<lambda>u w. (Some (rsBody (handle_state blank_api node1 ())), w))\<rparr>"

theorem convergence_exact_witness:
  "\<exists>detail s'. convergence_round blank_env rig_opts (False, '''') (start_state blank_env rig_opts rig_world) =
     Inr ((True, True, detail), s')"
proof -
  let ?c = "\<lparr>clLog = [], clNode = (\<lambda>_. fresh_replica NewFSM)\<rparr>"
  have "cluster_reachable NewFSM Apply fsm_snap Restore ?c" by (rule cluster_start)
  moreover have "shows_replica blank_env w n (clNode ?c i)" for w n i
    unfolding shows_replica_def
    by (intro exI [of _ blank_api] exI [of _ node1])
      (simp add: blank_env_def blank_api_def follower_api_def fresh_replica_def nat_dec.simps digit_char_def)
  moreover have "roNodes rig_opts = [default_nodes ! 0, default_nodes ! 1, default_nodes ! 2]" by (simp add: default_nodes_def)
  ultimately show ?thesis
    using convergence_exact [of ?c rig_opts "default_nodes ! 0" "default_nodes ! 1" "default_nodes ! 2" blank_env
        "start_state blank_env rig_opts rig_world" 0 1 2 "(False, '''')"] by fastforce
qed

text \<open>The rig when no node names a leader: the durability phase passes all the same.\<close>

lemma rig_nobody: "leader_id (rig_fault '''') ns w = ('''', w)"
proof (induction ns)
  case (Cons n ns)
  have "decode_stream (dec_struct health_field) (jprint (JObj [(''leader_id'', JStr '''')])) '''' = ('''', None)"
    using decode_stream_jprint [of "JObj [(''leader_id'', JStr '''')]" "[]" "dec_struct health_field" "''''"]
    by (simp add: max_depth_def health_field_def key_is_def num_end_def del: jprint.simps)
  with Cons show ?case by (simp add: rig_fault_def del: jprint.simps)
qed simp

definition calm :: "bool \<times> string \<times> node list \<Rightarrow> (rig, nat) run_state \<Rightarrow> bool" where
  "calm = (\<lambda>(allPass, detail, later) s. rig_ok s \<and> allPass \<and> later = [] \<and> fNodes (rsFaults s) = default_nodes)"

lemma rig_durability_round:
  assumes "i < 10"
  shows "ends_in (calm a) (durability_round (Suc fuel) (rig_env '''') rig_opts i a) calm"
  unfolding ends_in_def
proof (intro allI impI)
  fix s assume "calm a s"
  then obtain detail where a: "a = (True, detail, [])" and s: "rig_ok s" "fNodes (rsFaults s) = default_nodes"
    by (auto simp: calm_def split: prod.splits)
  let ?key = "''durable-'' @ itoa i" and ?val = "''precious-'' @ itoa i" and ?c = "200 + of_nat i :: int64"
  note itoa = plain_itoa [OF assms]
  have plain: "plain_text ?key" "plain_key ?key" "plain_text ?val" "plain_text ''''"
    using itoa by (simp_all add: plain_text_def plain_key_def plain_char_def)
  have ops: "plain_op (client_op ?c ''put'' ?key ?val)" "plain_op (client_op ?c ''get'' ?key '''')"
    using plain_client_op [OF plain(2,1,3), of "''put''"] plain_client_op [OF plain(2,1,4), of "''get''"] by blast+
  have nodes: "clNodes (NewClient ?c (roNodes rig_opts)) = default_nodes" by (simp add: NewClient_def)
  from rig_invoke [OF ops(1) _ s(1) nodes, where pin = None and fuel = fuel and l = "''''" and d = "20 * Second" and np = False] obtain n c1 s1 where
    1: "invoke (Suc fuel) (rig_env '''') (NewClient ?c (roNodes rig_opts)) (client_op ?c ''put'' ?key ?val) (20 * Second) False None s =
      Inr ((answered n (client_op ?c ''put'' ?key ?val) (rgStore (rsWorld s)), c1), s1)" "clNodes c1 = default_nodes" "rig_ok s1"
    "fsm_get (rgStore (rsWorld s1)) = spec_update (hop_command (client_op ?c ''put'' ?key ?val)) (fsm_get (rgStore (rsWorld s)))"
    by blast
  from rig_invoke [OF ops(2) _ 1(3,2), where pin = None and fuel = fuel and l = "''''" and d = "5 * Second" and np = False] obtain m c2 s2 where
    2: "invoke (Suc fuel) (rig_env '''') c1 (client_op ?c ''get'' ?key '''') (5 * Second) False None s1 =
      Inr ((answered m (client_op ?c ''get'' ?key '''') (rgStore (rsWorld s1)), c2), s2)" "rig_ok s2"
    by blast
  let ?got = "answered m (client_op ?c ''get'' ?key '''') (rgStore (rsWorld s1))"
  have ok: "hOutcome ?got = OutcomeOK" "durable ?val ?got"
    by (simp_all add: durable_def answered_fields client_op_command 1(4) spec_result_def spec_update_def op_defs)
  have nodes2: "fNodes (rsFaults s1) = default_nodes" "fNodes (rsFaults s2) = default_nodes"
    using 1(1) 2(1) s(2) by (auto simp: invoke_def acting_Inr)
  have leader: "find_leader (rig_env '''') s1 = Inr (None, s1)"
    using nodes2(1)
    by (simp add: find_leader_def on_faults_def LeaderID_def rig_env_def rig_nobody NodeByID_def default_nodes_def)
  have now: "now (rig_env '''') s1 = Inr (0, s1)"
    using 1(3) by (simp add: now_def on_world_def rig_env_def rig_client_def rig_ok_def)
  have read: "poll (Suc fuel) (rig_env '''') (0 + 45 * Second) (pausing (rig_env '''') (500 * Millisecond)
      (read_back (Suc fuel) (rig_env '''') ?c ?key)) (c1, zero_hop) s1 = Inr ((c2, ?got), s2)"
  proof -
    have dl: "sint (0 :: int64) < sint (0 + 45 * Second)" by (simp add: Second_def Millisecond_def)
    have "pausing (rig_env '''') (500 * Millisecond) (read_back (Suc fuel) (rig_env '''') ?c ?key) (c1, zero_hop) s1 =
        Inr ((True, c2, ?got), s2)"
      using 2(1) ok(1) by (simp add: andThen_def pausing_def read_back_def pure_def)
    with dl now show ?thesis by (simp add: andThen_def pure_def)
  qed
  obtain s3 where heal: "heal_all (rig_env '''') s2 = Inr ((), s3)" and s3: "rig_ok s3" "fNodes (rsFaults s3) = default_nodes"
  proof -
    obtain f w where h: "HealAll (rvFault (rig_env '''')) (rsFaults s2) (rsWorld s2) = (f, w)" by fastforce
    have "\<exists>hst. run_all (rig_fault '''') cs w0 = w0\<lparr>rgHost := hst\<rparr>" for cs w0
    proof (induction cs arbitrary: w0)
      case Nil
      show ?case by (intro exI [of _ "rgHost w0"]) simp
    next
      case (Cons c cs)
      obtain h1 where c: "snd (run_cmd (rig_fault '''') c w0) = w0\<lparr>rgHost := h1\<rparr>"
        by (auto simp: run_cmd_def rig_fault_def case_prod_beta)
      from Cons.IH [of "w0\<lparr>rgHost := h1\<rparr>"] show ?case by (auto simp: c)
    qed
    with h nodes2(2) obtain hst where w: "w = (rsWorld s2)\<lparr>rgHost := hst\<rparr>" "fNodes f = default_nodes"
      by (fastforce simp: HealAll_def rig_env_def Let_def record_event_def)
    then have "rig_ok (s2\<lparr>rsFaults := f, rsWorld := w\<rparr>)"
      using 2(2) by (simp add: rig_ok_def)
    with that \<open>fNodes f = default_nodes\<close> show thesis by (simp add: heal_all_def on_faults_def h)
  qed
  have "sleep (rig_env '''') (3 * Second) s3 = Inr ((), s3)"
    by (simp add: sleep_def on_world_def rig_env_def rig_client_def)
  then show "\<exists>b s'. durability_round (Suc fuel) (rig_env '''') rig_opts i a s = Inr (b, s') \<and> calm b s'"
    using 1(1) leader now read ok(2) heal s3
    by (simp add: durability_round_def a Let_def andThen_def answered_fields kill_leader_def pure_def calm_def del: poll.simps)
qed

theorem durability_without_leader_witness:
  "\<exists>s'. phaseLeaderKillDurability 1 (rig_env '''') rig_opts (start_state (rig_env '''') rig_opts rig_world) = Inr ((), s') \<and>
    \<not> failed (rsReport s') \<and> list_all (\<lambda>e. feAction e = ''heal'') (fEvents (rsFaults s'))"
proof -
  let ?s = "start_state (rig_env '''') rig_opts rig_world"
  have start: "calm (True, '''', []) ?s" and nodes: "fNodes (rsFaults ?s) = default_nodes" "fEvents (rsFaults ?s) = []"
    using served_none
    by (simp_all add: calm_def start_state_def rig_ok_def rig_world_def failed_def plain_store_def NewFSM_def fsm_get_def gomap_get_def)
  have "ends_in (calm (True, '''', [])) (phaseLeaderKillDurability (Suc 0) (rig_env '''') rig_opts) (\<lambda>_. rig_ok)"
    unfolding phaseLeaderKillDurability_def
  proof (rule ends_loop [where I = calm])
    fix i a assume "i \<in> set [0..<3]"
    then have "i < 10" by simp
    then show "ends_in (calm a) (durability_round (Suc 0) (rig_env '''') rig_opts i a) calm" by (rule rig_durability_round)
  next
    fix a
    show "ends_in (calm a) (case a of (allPass, detail, later) \<Rightarrow>
        andThen (check ''acked-write-survives-leader-kill'' allPass detail) (\<lambda>_. each (start_later (rig_env '''')) later ())) (\<lambda>_. rig_ok)"
      by (auto simp: ends_in_def calm_def andThen_def check_def pure_def rig_ok_def failed_def split: prod.splits)
  qed
  from ends_inD [OF this start] obtain s' where
    r: "phaseLeaderKillDurability (Suc 0) (rig_env '''') rig_opts ?s = Inr ((), s')" "rig_ok s'" by auto
  have "\<forall>f w. fst (LeaderID (rvFault (rig_env '''')) f w) = ''''" by (simp add: LeaderID_def rig_env_def rig_nobody)
  moreover have "\<forall>n \<in> set (fNodes (rsFaults ?s)). nID n \<noteq> ''''" by (simp add: nodes default_nodes_def)
  ultimately have "list_all (\<lambda>e. feAction e = ''heal'') (fEvents (rsFaults s'))"
    using durability_without_leader [OF _ _ r(1)] nodes(2) by simp
  with r show ?thesis by (simp add: rig_ok_def)
qed

end
