(* ===== verification/Ends.thy ===== *)
theory Ends
  imports Verdict
begin

text \<open>
  A run of the harness comes to an end. In a world where every call returns in time, each
  operation, each phase and the whole run return within a bound that is computed from the
  options, with the fuel of the loops large enough; no client panics. The locale
  \<open>prompt_clock\<close> states what a client needs of its clock and transport, \<open>punctual_run\<close> what a
  run needs besides.
\<close>

section \<open>An operation ends in time\<close>

text \<open>Calls that only read or compute take at most \<open>slack\<close>; a sleep is over \<open>slack\<close> after its time, and a request
  when its context's deadline cancels it.\<close>

locale prompt_clock = monotonic_clock env time
  for env :: "'w client_env" and time :: "'w \<Rightarrow> int" +
  fixes slack :: int
  assumes slack_nonneg: "0 \<le> slack"
    and now_prompt: "time (snd (ceNow env w)) \<le> time w + slack"
    and intn_prompt: "time (snd (ceIntn env k w)) \<le> time w + slack \<and> (0 < k \<longrightarrow> fst (ceIntn env k w) < k)"
    and float_prompt: "time w \<le> time (snd (ceFloat64 env w)) \<and> time (snd (ceFloat64 env w)) \<le> time w + slack"
    and sleep_prompt: "time (ceSleep env d w) \<le> time w + max 0 (sint d) + slack"
    and do_prompt: "ceDo env ctx q w = (out, w') \<Longrightarrow> time w' \<le> max (time w) (sint ctx) + slack"

text \<open>An operation whose requests can be built and sent to the nodes \<open>ns\<close>.\<close>

definition sendable :: "'w client_env \<Rightarrow> node list \<Rightarrow> hop \<Rightarrow> bool" where
  "sendable env ns op \<longleftrightarrow> hOp op \<in> set [''put'', ''get'', ''delete'', ''cas''] \<and>
     list_all (\<lambda>n. ceURLOk env (nURL n @ ''/kv/'' @ hKey op) \<and> ceURLOk env (nURL n @ ''/kv/'' @ hKey op @ ''/cas'')) ns"

definition invoke_bound :: "int \<Rightarrow> int \<Rightarrow> int" where
  "invoke_bound slack d = d + 4150000000 + 6 * slack"

lemma sendable_request:
  assumes "sendable env ns op" and "n \<in> set ns"
  obtains q where "build_request n (op\<lparr>hNode := x, hStartNs := t\<rparr>) np = Inr q" "ceURLOk env (hrURL q)"
  using assms by (auto simp: sendable_def build_request_def Let_def list_all_iff)

lemma four_seconds: "sint (4 * Second) = 4000000000" "sint (150 * Millisecond) = 150000000"
  by (simp_all add: Second_def Millisecond_def)

lemma build_request_keeps:
  "sendable env ns op \<Longrightarrow> sendable env ns (op\<lparr>hNode := x, hStartNs := t, hEndNs := t'\<rparr>)"
  by (simp add: sendable_def)

context prompt_clock begin

lemma round_in_time:
  assumes "sendable env ns op" and "clNodes c \<noteq> []" and "set (clNodes c) \<subseteq> set ns"
    and "\<forall>p. pin = Some p \<longrightarrow> p \<in> set ns" and "0 \<le> sint overall" and "sint overall < max_int64"
  shows "(\<exists>iv w'. invoke_round env c overall np pin start attempt op rec w = Done iv w' \<and> time w \<le> time w' \<and>
      time w' \<le> max (time w + slack) (sint overall + 4000000000) + 3 * slack) \<or>
    (\<exists>op' w'. invoke_round env c overall np pin start attempt op rec w = Again op' w' \<and> sendable env ns op' \<and>
      time w \<le> time w' \<and> time w' \<le> sint overall + 150000000 + 2 * slack)"
proof -
  define n where "n = (case pin of Some p \<Rightarrow> p | None \<Rightarrow> clNodes c ! ((start + attempt) mod length (clNodes c)))"
  have n: "n \<in> set ns"
    using assms(2-4) by (auto simp: n_def split: option.splits intro!: subsetD [OF assms(3)] nth_mem)
  let ?w1 = "snd (ceNow env w)" and ?op1 = "op\<lparr>hNode := nID n, hStartNs := fst (ceNow env w)\<rparr>"
  from sendable_request [OF assms(1) n] obtain q where q: "build_request n ?op1 np = Inr q" "ceURLOk env (hrURL q)" .
  let ?do = "ceDo env (overall + 4 * Second) q ?w1"
  let ?w2 = "snd ?do" and ?res = "classify (fst ?do)"
  have at: "doAttempt env (overall + 4 * Second) n ?op1 np ?w1 = Inr (?res, ?w2)"
    by (simp add: doAttempt_def q case_prod_beta)
  let ?op2 = "?op1\<lparr>hEndNs := fst (ceNow env ?w2)\<rparr>" and ?w3 = "snd (ceNow env ?w2)"
  have r: "invoke_round env c overall np pin start attempt op rec w = round_end env c overall pin ?res ?op2 rec ?w3"
    by (simp add: invoke_round_def n_def [symmetric] case_prod_beta at Let_def)
  have "sint (overall + 4 * Second) \<le> sint overall + 4000000000"
    using deadline_bound [of overall "4 * Second"] assms(5) by (simp add: four_seconds)
  then have t2: "time ?w1 \<le> time ?w2" "time ?w2 \<le> max (time w + slack) (sint overall + 4000000000) + slack"
    using do_monotonic [of "overall + 4 * Second" q ?w1] do_prompt [of "overall + 4 * Second" q ?w1] now_prompt [of w]
    by (force simp: prod_eq_iff)+
  have t3: "time w \<le> time ?w3" "time ?w3 \<le> max (time w + slack) (sint overall + 4000000000) + 2 * slack"
    using t2 now_monotonic [of w] now_monotonic [of ?w2] now_prompt [of ?w2] by linarith+
  have cl: "arClass ?res \<in> {''ok'', ''unknown'', ''fail''}" by (rule doAttempt_class [OF at])
  show ?thesis
  proof (cases "round_end env c overall pin ?res ?op2 rec ?w3")
    case (Panic p)
    then show ?thesis by (auto simp: round_end_def Let_def case_prod_beta split: if_splits)
  next
    case (Done iv w')
    from round_end_Done [OF Done] t3 now_monotonic [of ?w3] now_prompt [of ?w3] slack_nonneg
    have "time w \<le> time w'" "time w' \<le> max (time w + slack) (sint overall + 4000000000) + 3 * slack"
      by (elim conjE disjE; simp)+
    with Done show ?thesis by (simp add: r)
  next
    case (Again op' w')
    note a = round_end_Again [OF Again cl]
    then have "time ?w3 \<le> sint overall" using assms(6) by (simp add: now_reads min_def split: if_splits)
    then have "time w \<le> time w'" "time w' \<le> sint overall + 150000000 + 2 * slack"
      using a t3 now_monotonic [of ?w3] now_prompt [of ?w3] sleep_prompt [of "150 * Millisecond" "snd (ceNow env ?w3)"]
        sleep_advances [of "snd (ceNow env ?w3)" "150 * Millisecond"] by (auto simp: four_seconds)
    with Again a show ?thesis by (simp add: r build_request_keeps [OF assms(1)])
  qed
qed

lemma loop_in_time:
  assumes "clNodes c \<noteq> []" and "set (clNodes c) \<subseteq> set ns" and "\<forall>p. pin = Some p \<longrightarrow> p \<in> set ns"
    and "0 \<le> sint overall" and "sint overall < max_int64"
  shows "sendable env ns op \<Longrightarrow> time w \<le> sint overall + 150000000 + 2 * slack \<Longrightarrow>
    invoke_loop fuel env c overall np pin start attempt op rec w \<noteq> None \<Longrightarrow>
    \<exists>iv w'. invoke_loop fuel env c overall np pin start attempt op rec w = Some (Inr (iv, w')) \<and> time w \<le> time w' \<and>
      time w' \<le> sint overall + 4150000000 + 6 * slack"
proof (induction fuel arbitrary: attempt op w)
  case (Suc fuel)
  from round_in_time [OF Suc.prems(1) assms, of np start attempt rec w] consider
      (ended) iv w' where "invoke_round env c overall np pin start attempt op rec w = Done iv w'" "time w \<le> time w'"
        "time w' \<le> max (time w + slack) (sint overall + 4000000000) + 3 * slack"
    | (again) op' w' where "invoke_round env c overall np pin start attempt op rec w = Again op' w'" "sendable env ns op'"
        "time w \<le> time w'" "time w' \<le> sint overall + 150000000 + 2 * slack" by blast
  then show ?case
  proof cases
    case ended
    with Suc.prems(2) slack_nonneg show ?thesis by simp
  next
    case again
    with Suc.prems(3) have "invoke_loop fuel env c overall np pin start (attempt + 1) op' rec w' \<noteq> None" by simp
    from Suc.IH [OF again(2,4) this] again(1,3) show ?thesis by fastforce
  qed
qed simp

lemma Invoke_in_time:
  assumes "sendable env ns op" and "clNodes c \<noteq> []" and "set (clNodes c) \<subseteq> set ns" and "\<forall>p. pin = Some p \<longrightarrow> p \<in> set ns"
    and "0 \<le> time w" and "0 \<le> sint d" and "time w + invoke_bound slack (sint d) < max_int64"
    and "nat (sint d div 150000000) + 2 \<le> fuel"
  shows "\<exists>iv w'. Invoke fuel env c op d np pin rec w = Some (Inr (iv, w')) \<and> time w \<le> time w' \<and>
    time w' \<le> time w + invoke_bound slack (sint d)"
proof -
  let ?w1 = "snd (ceNow env w)" and ?o = "fst (ceNow env w) + d"
  let ?w2 = "snd (ceIntn env (length (clNodes c)) ?w1)"
  have t: "sint (fst (ceNow env w)) = time w" using assms(5-7) slack_nonneg by (simp add: now_reads invoke_bound_def)
  have ov: "sint ?o = time w + sint d"
    using t assms(5-7) slack_nonneg by (subst sint64_add) (auto simp: invoke_bound_def)
  have w2: "time w \<le> time ?w2" "time ?w2 \<le> sint ?o + 150000000 + 2 * slack"
    using now_monotonic [of w] now_prompt [of w] intn_monotonic [of ?w1 "length (clNodes c)"]
      intn_prompt [of "length (clNodes c)" ?w1] ov assms(6) by auto
  have i: "Invoke fuel env c op d np pin rec w = invoke_loop fuel env c ?o np pin (fst (ceIntn env (length (clNodes c)) ?w1)) 0 op rec ?w2"
    using assms(2) by (simp add: Invoke_def Let_def case_prod_beta)
  have "time ?w1 + sint d < max_int64" using now_prompt [of w] assms(7) slack_nonneg by (simp add: invoke_bound_def)
  from invoke_returns [OF assms(5,6) this assms(8)]
  have "Invoke fuel env c op d np pin rec w \<noteq> None" by blast
  from loop_in_time [OF assms(2-4) _ _ assms(1) w2(2) this [unfolded i]] ov assms(5-7) slack_nonneg w2(1)
  show ?thesis unfolding i by (fastforce simp: invoke_bound_def)
qed

end


section \<open>Phases that end in time\<close>

text \<open>Rounds of a goroutine and actions that end within \<open>B\<close> (\<open>time\<close> reads the world's time).\<close>

definition action_within :: "('w \<Rightarrow> int) \<Rightarrow> int \<Rightarrow> ('a \<Rightarrow> bool) \<Rightarrow> ('w, 'a) action \<Rightarrow> bool" where
  "action_within time B R f \<longleftrightarrow> (\<forall>r w. 0 \<le> time w \<longrightarrow> time w + B < max_int64 \<longrightarrow>
     (\<exists>a r' w'. f r w = Inr (a, r', w') \<and> R a \<and> time w \<le> time w' \<and> time w' \<le> time w + B))"

definition rounds_within :: "('w \<Rightarrow> int) \<Rightarrow> int \<Rightarrow> client \<Rightarrow> (client \<Rightarrow> ('w, client) action) \<Rightarrow> bool" where
  "rounds_within time B c body \<longleftrightarrow> (\<exists>I. I c \<and> (\<forall>c. I c \<longrightarrow> action_within time B I (body c)))"

text \<open>
  A run in such a world. Commands take at most \<open>slack\<close>; a GET has the timeout the code gives it
  (2 s for \<open>LeaderID\<close>, 3 s for the convergence check), and Porcupine gives up a search when its timeout, if it has
  one, is over (its documentation: a timeout of 0 is none). \<open>stopping\<close> is what the goroutines that are running
  may still need once they are told to stop: at most a round.
\<close>

locale punctual_run = timed_run env time + prompt_clock "rvClient env" time slack
  for env :: "('w, 't, 'e, 'i) run_env" and time :: "'w \<Rightarrow> int" and slack :: int +
  fixes stopping :: "'w \<Rightarrow> int"
  assumes exec_prompt: "time (snd (fvExec (rvFault env) cmd w)) \<le> time w + slack"
    and ask_prompt: "time (snd (fvGet (rvFault env) u w)) \<le> time w + 2000000000 + slack"
    and get_prompt: "time (snd (rvGet env u w)) \<le> time w + 3000000000 + slack"
    and fault_intn_prompt: "time (snd (rvFaultIntn env k w)) \<le> time w + slack"
    and mkdir_prompt: "time w \<le> time (snd (rvMkdirAll env p w)) \<and> time (snd (rvMkdirAll env p w)) \<le> time w + slack"
    and visualize_prompt: "time w \<le> time (snd (rvVisualize env p i w)) \<and> time (snd (rvVisualize env p i w)) \<le> time w + slack"
    and file_prompt: "time w \<le> time (rvSetFile env p dk w) \<and> time (rvSetFile env p dk w) \<le> time w + slack"
    and write_prompt: "time w \<le> time (snd (rvWriteFile env p b w)) \<and> time (snd (rvWriteFile env p b w)) \<le> time w + slack"
    and checking_prompt: "0 < sint t \<Longrightarrow> time w \<le> time (rvChecking env pops t w) \<and>
      time (rvChecking env pops t w) \<le> time w + sint t + slack"
    and contend_ends: "0 \<le> B \<Longrightarrow> \<forall>f \<in> set fs. action_within time B (\<lambda>_. True) f \<Longrightarrow>
      action_within time (int (length fs) * B + slack) (\<lambda>_. True) (rvContend env fs)"
    and traffic_starts: "0 \<le> B \<Longrightarrow> \<forall>(c, body) \<in> set gs. rounds_within time B c body \<Longrightarrow>
      time w \<le> time (rvTraffic env gs w) \<and> time (rvTraffic env gs w) \<le> time w + slack \<and> stopping (rvTraffic env gs w) \<le> B"
    and join_ends: "0 \<le> time w \<Longrightarrow> time w + max 0 (stopping w) + slack < max_int64 \<Longrightarrow>
      \<exists>r' w'. rvJoin env r w = Inr ((), r', w') \<and> stopping w' \<le> 0 \<and> time w \<le> time w' \<and> time w' \<le> time w + max 0 (stopping w) + slack"
    and now_goes_on: "stopping (snd (ceNow (rvClient env) w)) = stopping w"
    and sleep_goes_on: "stopping (ceSleep (rvClient env) d w) = stopping w"
    and exec_goes_on: "stopping (snd (fvExec (rvFault env) cmd w)) = stopping w"
    and ask_goes_on: "stopping (snd (fvGet (rvFault env) u w)) = stopping w"
    and get_goes_on: "stopping (snd (rvGet env u w)) = stopping w"
    and fault_intn_goes_on: "stopping (snd (rvFaultIntn env k w)) = stopping w"
begin

text \<open>The states a phase starts from: the injector's nodes are \<open>ns\<close>, the time is past \<open>T\<close>, and if goroutines
  are running (\<open>b\<close>), what they may still need is bounded.\<close>

definition st :: "node list \<Rightarrow> int option \<Rightarrow> int \<Rightarrow> ('w, 't) run_state \<Rightarrow> bool" where
  "st ns b T s \<longleftrightarrow> fNodes (rsFaults s) = ns \<and> (\<forall>B. b = Some B \<longrightarrow> stopping (rsWorld s) \<le> B) \<and>
     0 \<le> T \<and> T \<le> time (rsWorld s)"

definition within :: "node list \<Rightarrow> int option \<Rightarrow> int \<Rightarrow> int \<Rightarrow> int \<Rightarrow> ('a \<Rightarrow> bool) \<Rightarrow> (('w, 't) run_state, 'a) phase \<Rightarrow> bool" where
  "within ns b T lo hi R m \<longleftrightarrow> 0 \<le> lo \<and> lo \<le> hi \<and>
     (\<forall>s. st ns b T s \<longrightarrow> time (rsWorld s) + hi < max_int64 \<longrightarrow>
       (\<exists>a s'. m s = Inr (a, s') \<and> R a \<and> st ns b T s' \<and> time (rsWorld s) + lo \<le> time (rsWorld s') \<and>
          time (rsWorld s') \<le> time (rsWorld s) + hi))"

lemma withinI:
  assumes "0 \<le> lo" and "lo \<le> hi"
    and "\<And>s. st ns b T s \<Longrightarrow> time (rsWorld s) + hi < max_int64 \<Longrightarrow>
      \<exists>a s'. m s = Inr (a, s') \<and> R a \<and> st ns b T s' \<and> time (rsWorld s) + lo \<le> time (rsWorld s') \<and>
        time (rsWorld s') \<le> time (rsWorld s) + hi"
  shows "within ns b T lo hi R m"
  using assms by (auto simp: within_def)

lemma withinE:
  assumes "within ns b T lo hi R m" and "st ns b T s" and "time (rsWorld s) + hi < max_int64"
  obtains a s' where "m s = Inr (a, s')" "R a" "st ns b T s'" "time (rsWorld s) + lo \<le> time (rsWorld s')"
    "time (rsWorld s') \<le> time (rsWorld s) + hi"
  using assms unfolding within_def by blast

text \<open>The budget of a sequence is spent from the front.\<close>

lemma within_sum:
  assumes "within ns b T l1 h1 R1 m" and "h1 + l2 \<le> h" and "0 \<le> l2"
    and "\<And>a. R1 a \<Longrightarrow> within ns b T l2 (h - h1) R (k a)"
  shows "within ns b T (l1 + l2) h R (andThen m k)"
proof (rule withinI)
  show "0 \<le> l1 + l2" "l1 + l2 \<le> h" using assms(1-3) by (auto simp: within_def)
  fix s assume s: "st ns b T s" "time (rsWorld s) + h < max_int64"
  from assms(2,3) s(2) have "time (rsWorld s) + h1 < max_int64" by simp
  from withinE [OF assms(1) s(1) this] obtain a s1 where 1: "m s = Inr (a, s1)" "R1 a" "st ns b T s1"
    "time (rsWorld s) + l1 \<le> time (rsWorld s1)" "time (rsWorld s1) \<le> time (rsWorld s) + h1" .
  from 1(5) s(2) have "time (rsWorld s1) + (h - h1) < max_int64" by simp
  from withinE [OF assms(4) [OF 1(2)] 1(3) this] obtain x s2 where "k a s1 = Inr (x, s2)" "R x" "st ns b T s2"
    "time (rsWorld s1) + l2 \<le> time (rsWorld s2)" "time (rsWorld s2) \<le> time (rsWorld s1) + (h - h1)" .
  with 1 show "\<exists>x s'. andThen m k s = Inr (x, s') \<and> R x \<and> st ns b T s' \<and> time (rsWorld s) + (l1 + l2) \<le> time (rsWorld s') \<and>
      time (rsWorld s') \<le> time (rsWorld s) + h"
    by (simp add: andThen_def)
qed

lemma within_seq:
  assumes "within ns b T lo h1 R1 m" and "h1 \<le> h" and "\<And>a. R1 a \<Longrightarrow> within ns b T 0 (h - h1) R (k a)"
  shows "within ns b T lo h R (andThen m k)"
  using within_sum [OF assms(1) _ _ assms(3)] assms(2) by simp

lemma within_mono:
  "within ns b T lo h R m \<Longrightarrow> h \<le> h' \<Longrightarrow> (\<And>a. R a \<Longrightarrow> R' a) \<Longrightarrow> within ns b T 0 h' R' m"
  unfolding within_def by fastforce

lemma within_pure: "0 \<le> h \<Longrightarrow> R a \<Longrightarrow> within ns b T 0 h R (pure a)"
  by (simp add: within_def pure_def)

lemma within_if: "within ns b T 0 h R m \<Longrightarrow> within ns b T 0 h R m' \<Longrightarrow> within ns b T 0 h R (if c then m else m')"
  by simp

lemma within_prod: "(\<And>x y. p = (x, y) \<Longrightarrow> within ns b T 0 h R (f x y)) \<Longrightarrow> within ns b T 0 h R (case p of (x, y) \<Rightarrow> f x y)"
  by (cases p) simp

lemma within_check: "0 \<le> h \<Longrightarrow> R () \<Longrightarrow> within ns b T 0 h R (check name pass detail)"
  by (simp add: within_def check_def st_def)

lemma within_each_counted:
  assumes "\<And>x a j. x \<in> set xs \<Longrightarrow> I j a \<Longrightarrow> within ns b T 0 h (I (Suc j)) (f x a)" and "0 \<le> h" and "I j a"
  shows "within ns b T 0 (int (length xs) * h) (I (j + length xs)) (each f xs a)"
  using assms(1,3)
proof (induction xs arbitrary: a j)
  case (Cons x xs)
  have "within ns b T 0 (int (length (x # xs)) * h) (I (j + length (x # xs))) (andThen (f x a) (each f xs))"
  proof (rule within_seq [OF Cons.prems(1)])
    show "x \<in> set (x # xs)" "I j a" by (simp, rule Cons.prems(2))
    show "h \<le> int (length (x # xs)) * h" using assms(2) by (simp add: algebra_simps)
    show "within ns b T 0 (int (length (x # xs)) * h - h) (I (j + length (x # xs))) (each f xs a')" if "I (Suc j) a'" for a'
      using Cons.IH [OF Cons.prems(1) that] by (simp add: algebra_simps)
  qed
  then show ?case by simp
qed (simp add: within_pure)

lemma within_each:
  assumes "\<And>x a. x \<in> set xs \<Longrightarrow> I a \<Longrightarrow> within ns b T 0 h I (f x a)" and "0 \<le> h" and "I a"
  shows "within ns b T 0 (int (length xs) * h) I (each f xs a)"
  using within_each_counted [where I = "\<lambda>_. I", OF assms] .

text \<open>Reading the clock: later states are past what it read.\<close>

lemma within_now:
  assumes "\<And>t. 0 \<le> sint t \<Longrightarrow> within ns b (sint t) 0 (h - slack) R (k t)" and "slack \<le> h"
  shows "within ns b T 0 h R (andThen (now env) k)"
proof (rule withinI)
  show "(0::int) \<le> 0" "0 \<le> h" using assms(2) slack_nonneg by simp_all
  fix s assume s: "st ns b T s" "time (rsWorld s) + h < max_int64"
  let ?t = "fst (ceNow (rvClient env) (rsWorld s))" and ?s1 = "s\<lparr>rsWorld := snd (ceNow (rvClient env) (rsWorld s))\<rparr>"
  have t: "sint ?t = time (rsWorld s)" using s(2) assms(2) slack_nonneg by (simp add: now_reads)
  have 1: "st ns b (sint ?t) ?s1" "time (rsWorld s) \<le> time (rsWorld ?s1)" "time (rsWorld ?s1) \<le> time (rsWorld s) + slack"
    using s(1) now_monotonic [of "rsWorld s"] now_prompt [of "rsWorld s"] by (auto simp: t st_def now_goes_on)
  have T: "T \<le> sint ?t" "0 \<le> sint ?t" using s(1) t by (simp_all add: st_def)
  have "time (rsWorld ?s1) + (h - slack) < max_int64" using 1(3) s(2) by linarith
  from withinE [OF assms(1) [OF T(2)] 1(1) this] obtain x s2 where 2: "k ?t ?s1 = Inr (x, s2)" "R x" "st ns b (sint ?t) s2"
    "time (rsWorld ?s1) + 0 \<le> time (rsWorld s2)" "time (rsWorld s2) \<le> time (rsWorld ?s1) + (h - slack)" .
  have "st ns b T s2" using 2(3) s(1) T(1) by (auto simp: st_def)
  with 1 2 show "\<exists>x s'. andThen (now env) k s = Inr (x, s') \<and> R x \<and> st ns b T s' \<and>
      time (rsWorld s) + 0 \<le> time (rsWorld s') \<and> time (rsWorld s') \<le> time (rsWorld s) + h"
    by (simp add: andThen_def now_def on_world_def case_prod_beta)
qed

end

context punctual_run begin

text \<open>A round of a loop: it ends within \<open>h\<close> and, unless it leaves the loop, takes at least \<open>d\<close>.\<close>

definition tick :: "node list \<Rightarrow> int option \<Rightarrow> int \<Rightarrow> int \<Rightarrow> int \<Rightarrow> ('a \<Rightarrow> bool) \<Rightarrow>
    ('a \<Rightarrow> (('w, 't) run_state, bool \<times> 'a) phase) \<Rightarrow> bool" where
  "tick ns b T d h I body \<longleftrightarrow> 0 \<le> d \<and> d \<le> h \<and>
     (\<forall>a s. I a \<longrightarrow> st ns b T s \<longrightarrow> time (rsWorld s) + h < max_int64 \<longrightarrow>
       (\<exists>left a' s'. body a s = Inr ((left, a'), s') \<and> I a' \<and> st ns b T s' \<and>
          (\<not> left \<longrightarrow> time (rsWorld s) + d \<le> time (rsWorld s')) \<and> time (rsWorld s) \<le> time (rsWorld s') \<and>
          time (rsWorld s') \<le> time (rsWorld s) + h))"

lemma tickE:
  assumes "tick ns b T d h I body" and "I a" and "st ns b T s" and "time (rsWorld s) + h < max_int64"
  obtains left a' s' where "body a s = Inr ((left, a'), s')" "I a'" "st ns b T s'"
    "\<not> left \<Longrightarrow> time (rsWorld s) + d \<le> time (rsWorld s')" "time (rsWorld s) \<le> time (rsWorld s')"
    "time (rsWorld s') \<le> time (rsWorld s) + h"
  using assms unfolding tick_def by blast

lemma tick_within:
  assumes "\<And>a. I a \<Longrightarrow> within ns b T d h (\<lambda>(left, a'). I a') (body a)" and "0 \<le> d" and "d \<le> h"
  shows "tick ns b T d h I body"
  unfolding tick_def
proof (intro conjI allI impI)
  fix a s assume "I a" and s: "st ns b T s" "time (rsWorld s) + h < max_int64"
  from withinE [OF assms(1) [OF \<open>I a\<close>] s] obtain r s' where "body a s = Inr (r, s')" "case r of (left, a') \<Rightarrow> I a'"
    "st ns b T s'" "time (rsWorld s) + d \<le> time (rsWorld s')" "time (rsWorld s') \<le> time (rsWorld s) + h" .
  then show "\<exists>left a' s'. body a s = Inr ((left, a'), s') \<and> I a' \<and> st ns b T s' \<and>
      (\<not> left \<longrightarrow> time (rsWorld s) + d \<le> time (rsWorld s')) \<and> time (rsWorld s) \<le> time (rsWorld s') \<and>
      time (rsWorld s') \<le> time (rsWorld s) + h"
    using assms(2) by (cases r) auto
qed (use assms(2,3) in auto)

lemma within_sleep: "0 \<le> sint d \<Longrightarrow> within ns b T (sint d) (sint d + slack) (\<lambda>_. True) (sleep env d)"
proof (rule withinI)
  fix s assume "0 \<le> sint d" "st ns b T s"
  then show "\<exists>a s'. sleep env d s = Inr (a, s') \<and> True \<and> st ns b T s' \<and> time (rsWorld s) + sint d \<le> time (rsWorld s') \<and>
      time (rsWorld s') \<le> time (rsWorld s) + (sint d + slack)"
    using sleep_prompt [of d "rsWorld s"] sleep_advances [of "rsWorld s" d]
    by (simp add: sleep_def on_world_def st_def sleep_goes_on)
qed (use slack_nonneg in auto)

lemma within_pause: "sint d = D \<Longrightarrow> 0 \<le> D \<Longrightarrow> within ns b T 0 (D + slack) (\<lambda>_. True) (sleep env d)"
  by (rule within_mono [OF within_sleep]) auto

lemma tick_pausing:
  assumes "\<And>a. I a \<Longrightarrow> within ns b T 0 h (\<lambda>(left, a'). I a') (body a)" and "0 \<le> sint d" and "0 \<le> h"
  shows "tick ns b T (sint d) (h + sint d + slack) I (pausing env d body)"
  unfolding tick_def
proof (intro conjI allI impI)
  fix a s assume a: "I a" and s: "st ns b T s" "time (rsWorld s) + (h + sint d + slack) < max_int64"
  from s(2) assms(2) slack_nonneg have "time (rsWorld s) + h < max_int64" by simp
  from withinE [OF assms(1) [OF a] s(1) this] obtain r s1 where 1: "body a s = Inr (r, s1)" "case r of (left, a') \<Rightarrow> I a'"
    "st ns b T s1" "time (rsWorld s) + 0 \<le> time (rsWorld s1)" "time (rsWorld s1) \<le> time (rsWorld s) + h" .
  have "time (rsWorld s1) + (sint d + slack) < max_int64" using 1(5) s(2) by simp
  from withinE [OF within_sleep [OF assms(2)] 1(3) this] obtain u s2 where 2: "sleep env d s1 = Inr (u, s2)" "st ns b T s2"
    "time (rsWorld s1) + sint d \<le> time (rsWorld s2)" "time (rsWorld s2) \<le> time (rsWorld s1) + (sint d + slack)" .
  show "\<exists>left a' s'. pausing env d body a s = Inr ((left, a'), s') \<and> I a' \<and> st ns b T s' \<and>
      (\<not> left \<longrightarrow> time (rsWorld s) + sint d \<le> time (rsWorld s')) \<and> time (rsWorld s) \<le> time (rsWorld s') \<and>
      time (rsWorld s') \<le> time (rsWorld s) + (h + sint d + slack)"
    using 1 2 assms(2) slack_nonneg
    by (intro exI [of _ "fst r"] exI [of _ "snd r"] exI [of _ "if fst r then s1 else s2"])
      (auto simp: pausing_def andThen_def pure_def split: prod.splits)
qed (use assms(2,3) slack_nonneg in auto)

text \<open>A loop until a deadline \<open>D\<close> after \<open>T\<close>: enough fuel is a round for each \<open>d\<close> and one more.\<close>

lemma within_poll:
  assumes "tick ns b T d h I body" and "sint deadline \<le> T + D" and "0 \<le> D" and "D < d * int n" and "I a"
  shows "within ns b T 0 (D + h + 2 * slack) I (poll (Suc n) env deadline body a)"
proof (rule withinI)
  have h: "0 \<le> h" using assms(1) by (auto simp: tick_def)
  then show "(0::int) \<le> 0" "0 \<le> D + h + 2 * slack" using assms(3) slack_nonneg by auto
  let ?stop = "\<lambda>x. max x (T + D + slack + h) + slack"
  have loop: "\<exists>a' s'. poll (Suc n) env deadline body a s = Inr (a', s') \<and> I a' \<and> st ns b T s' \<and>
      time (rsWorld s) \<le> time (rsWorld s') \<and> time (rsWorld s') \<le> ?stop (time (rsWorld s))"
    if "I a" "st ns b T s" "sint deadline < time (rsWorld s) + d * int n" "?stop (time (rsWorld s)) < max_int64" for n a s
    using that
  proof (induction n arbitrary: a s)
    case (0 a s)
    let ?t = "fst (ceNow (rvClient env) (rsWorld s))" and ?w = "snd (ceNow (rvClient env) (rsWorld s))"
    have "sint ?t = time (rsWorld s)" using 0(4) slack_nonneg by (simp add: now_reads)
    then have "poll (Suc 0) env deadline body a s = Inr (a, s\<lparr>rsWorld := ?w\<rparr>)"
      using 0(3) by (simp add: andThen_def now_def on_world_def case_prod_beta pure_def)
    then show ?case
      using 0 now_monotonic [of "rsWorld s"] now_prompt [of "rsWorld s"] by (auto simp: st_def now_goes_on)
  next
    case (Suc n a s)
    let ?t = "fst (ceNow (rvClient env) (rsWorld s))"
    define s1 where "s1 = s\<lparr>rsWorld := snd (ceNow (rvClient env) (rsWorld s))\<rparr>"
    have now: "now env s = Inr (?t, s1)" by (simp add: now_def on_world_def case_prod_beta s1_def)
    have t: "sint ?t = time (rsWorld s)" using Suc.prems(4) slack_nonneg by (simp add: now_reads)
    have 1: "st ns b T s1" "time (rsWorld s) \<le> time (rsWorld s1)" "time (rsWorld s1) \<le> time (rsWorld s) + slack"
      using Suc.prems(2) now_monotonic [of "rsWorld s"] now_prompt [of "rsWorld s"] by (auto simp: s1_def st_def now_goes_on)
    show ?case
    proof (cases "time (rsWorld s) < sint deadline")
      case False
      then have "poll (Suc (Suc n)) env deadline body a s = Inr (a, s1)"
        by (simp add: poll.simps(2) [of "Suc n"] andThen_def now t pure_def del: poll.simps)
      with 1 Suc.prems(1) show ?thesis by auto
    next
      case True
      with 1(3) assms(2) Suc.prems(4) slack_nonneg have "time (rsWorld s1) + h < max_int64" by simp
      from tickE [OF assms(1) Suc.prems(1) 1(1) this] obtain left a' s2 where 2: "body a s1 = Inr ((left, a'), s2)" "I a'"
        "st ns b T s2" "\<not> left \<Longrightarrow> time (rsWorld s1) + d \<le> time (rsWorld s2)" "time (rsWorld s1) \<le> time (rsWorld s2)"
        "time (rsWorld s2) \<le> time (rsWorld s1) + h" by blast
      have e: "time (rsWorld s2) \<le> T + D + slack + h" using 2(6) 1(3) True assms(2) by simp
      have p: "poll (Suc (Suc n)) env deadline body a s = (if left then Inr (a', s2) else poll (Suc n) env deadline body a' s2)"
        using True by (simp add: poll.simps(2) [of "Suc n"] andThen_def now t 2(1) pure_def del: poll.simps)
      show ?thesis
      proof (cases left)
        case True
        with p 2 1 e slack_nonneg show ?thesis by auto
      next
        case False
        have "sint deadline < time (rsWorld s2) + d * int n"
          using Suc.prems(3) 2(4) [OF False] 1(2) by (simp add: algebra_simps)
        from Suc.IH [OF 2(2,3) this] e Suc.prems(4) False p 1(2) 2(5) show ?thesis by fastforce
      qed
    qed
  qed
  fix s assume s: "st ns b T s" "time (rsWorld s) + (D + h + 2 * slack) < max_int64"
  then have "T \<le> time (rsWorld s)" by (simp add: st_def)
  then have "?stop (time (rsWorld s)) \<le> time (rsWorld s) + (D + h + 2 * slack)"
    "sint deadline < time (rsWorld s) + d * int n" using assms(2-4) h slack_nonneg by auto
  with loop [OF assms(5) s(1), of n] s(2) show "\<exists>a' s'. poll (Suc n) env deadline body a s = Inr (a', s') \<and> I a' \<and> st ns b T s' \<and>
      time (rsWorld s) + 0 \<le> time (rsWorld s') \<and> time (rsWorld s') \<le> time (rsWorld s) + (D + h + 2 * slack)"
    by fastforce
qed

lemma within_poll_fuel:
  assumes "tick ns b T d h I body" and "sint deadline \<le> T + D" and "0 \<le> D" and "D < d * (int fuel - 1)" and "I a"
    and "D + h + 2 * slack \<le> h'"
  shows "within ns b T 0 h' I (poll fuel env deadline body a)"
proof -
  have "0 \<le> d" using assms(1) by (simp add: tick_def)
  with assms(3,4) have "0 < d * (int fuel - 1)" by linarith
  with \<open>0 \<le> d\<close> obtain n where n: "fuel = Suc n" by (cases fuel) (auto simp: zero_less_mult_iff)
  from within_poll [OF assms(1-3) _ assms(5)] assms(4) show ?thesis
    unfolding n by (intro within_mono [OF _ assms(6)]) auto
qed

end

context punctual_run begin

text \<open>Calls on the world that end in time and do not stop the goroutines.\<close>

definition prompt :: "int \<Rightarrow> ('w \<Rightarrow> 'w) \<Rightarrow> bool" where
  "prompt h f \<longleftrightarrow> (\<forall>w. time w \<le> time (f w) \<and> time (f w) \<le> time w + h \<and> stopping (f w) = stopping w)"

lemma promptD: "prompt h f \<Longrightarrow> time w \<le> time (f w) \<and> time (f w) \<le> time w + h \<and> stopping (f w) = stopping w"
  by (simp add: prompt_def)

lemma prompt_id: "0 \<le> h \<Longrightarrow> prompt h (\<lambda>w. w)"
  by (simp add: prompt_def)

lemma prompt_comp: "prompt h f \<Longrightarrow> prompt h' g \<Longrightarrow> prompt (h + h') (\<lambda>w. g (f w))"
  unfolding prompt_def by (smt (verit))

lemma prompt_mono: "prompt h f \<Longrightarrow> h \<le> h' \<Longrightarrow> prompt h' f"
  unfolding prompt_def by (meson add_left_mono order_trans)

lemma prompt_nonneg: "prompt h f \<Longrightarrow> 0 \<le> h"
  using promptD [of h f undefined] by linarith

lemma prompt_run_cmd: "prompt slack (\<lambda>w. snd (run_cmd (rvFault env) c w))"
  using exec_takes exec_prompt exec_goes_on by (simp add: prompt_def run_cmd_def case_prod_beta)

lemma prompt_run_all: "prompt (int (length cs) * slack) (run_all (rvFault env) cs)"
proof (induction cs)
  case (Cons c cs)
  from prompt_comp [OF prompt_run_cmd [of c] Cons] show ?case by (simp add: algebra_simps)
qed (simp add: prompt_id)

lemma prompt_isolate_run: "prompt (int (length cs) * slack) (\<lambda>w. snd (isolate_run (rvFault env) cs e w))"
proof (induction cs arbitrary: e)
  case (Cons c cs)
  show ?case unfolding prompt_def
  proof
    fix w
    let ?r = "run_cmd (rvFault env) c w"
    let ?e = "case snd (fst ?r) of Some x \<Rightarrow> if e = None then Some (IsolateErr c (fst (fst ?r)) x) else e | None \<Rightarrow> e"
    show "time w \<le> time (snd (isolate_run (rvFault env) (c # cs) e w)) \<and>
        time (snd (isolate_run (rvFault env) (c # cs) e w)) \<le> time w + int (length (c # cs)) * slack \<and>
        stopping (snd (isolate_run (rvFault env) (c # cs) e w)) = stopping w"
      using promptD [OF prompt_run_cmd, of w c] promptD [OF Cons [of ?e], of "snd ?r"]
      by (simp add: case_prod_beta Let_def algebra_simps)
  qed
qed (simp add: prompt_id)

lemma prompt_isolate: "prompt (int (length ps) * (4 * slack)) (\<lambda>w. snd (isolate_peers (rvFault env) n ps e w))"
proof (induction ps arbitrary: e)
  case (Cons p ps)
  show ?case unfolding prompt_def
  proof
    fix w
    let ?r = "isolate_run (rvFault env) (isolate_cmds n p) e w"
    have 4: "length (isolate_cmds n p) = 4" by (simp add: isolate_cmds_def)
    show "time w \<le> time (snd (isolate_peers (rvFault env) n (p # ps) e w)) \<and>
        time (snd (isolate_peers (rvFault env) n (p # ps) e w)) \<le> time w + int (length (p # ps)) * (4 * slack) \<and>
        stopping (snd (isolate_peers (rvFault env) n (p # ps) e w)) = stopping w"
      using promptD [OF prompt_isolate_run [of "isolate_cmds n p" e], of w] promptD [OF Cons [of "fst ?r"], of "snd ?r"]
        promptD [OF Cons [of e], of w] slack_nonneg
      by (auto simp: case_prod_beta Let_def algebra_simps 4)
  qed
qed (simp add: prompt_id)

lemma prompt_leader_id: "prompt (int (length ns) * (2000000000 + slack)) (\<lambda>w. snd (leader_id (rvFault env) ns w))"
proof (induction ns)
  case (Cons n ns)
  show ?case unfolding prompt_def
  proof
    fix w
    obtain r w1 where g: "fvGet (rvFault env) (nURL n @ ''/healthz'') w = (r, w1)" by fastforce
    have "0 \<le> int (length ns) * (2000000000 + slack)" using slack_nonneg by simp
    then show "time w \<le> time (snd (leader_id (rvFault env) (n # ns) w)) \<and>
        time (snd (leader_id (rvFault env) (n # ns) w)) \<le> time w + int (length (n # ns)) * (2000000000 + slack) \<and>
        stopping (snd (leader_id (rvFault env) (n # ns) w)) = stopping w"
      using ask_takes [of w "nURL n @ ''/healthz''"] ask_prompt [of "nURL n @ ''/healthz''" w]
        ask_goes_on [of "nURL n @ ''/healthz''" w] promptD [OF Cons, of w1]
      by (simp add: g algebra_simps split: option.splits prod.splits)
  qed
qed (simp add: prompt_id)

text \<open>The steps of a phase.\<close>

lemma within_on_world:
  assumes "prompt h (\<lambda>w. snd (f w))" and "\<And>w. R (fst (f w))"
  shows "within ns b T 0 h R (on_world f)"
  using prompt_nonneg [OF assms(1)] promptD [OF assms(1)] assms(2)
  by (intro withinI) (auto simp: on_world_Inr st_def dest: order_trans)

lemma within_on_faults:
  assumes "prompt h (\<lambda>w. snd (snd (f fl0 w)))" and "\<And>fl w. fNodes fl = ns \<Longrightarrow> snd (snd (f fl w)) = snd (snd (f fl0 w))"
    and "\<And>fl w. fNodes fl = ns \<Longrightarrow> fNodes (fst (snd (f fl w))) = ns \<and> R (fst (f fl w))"
  shows "within ns b T 0 h R (on_faults f)"
proof (rule withinI)
  fix s assume s: "st ns b T s"
  then have "fNodes (rsFaults s) = ns" by (simp add: st_def)
  then show "\<exists>a s'. on_faults f s = Inr (a, s') \<and> R a \<and> st ns b T s' \<and> time (rsWorld s) + 0 \<le> time (rsWorld s') \<and>
      time (rsWorld s') \<le> time (rsWorld s) + h"
    using s promptD [OF assms(1), of "rsWorld s"] assms(2,3) [of "rsFaults s" "rsWorld s"]
    by (auto simp: on_faults_def case_prod_beta st_def)
qed (use prompt_nonneg [OF assms(1)] in auto)

lemma within_kill: "within ns b T 0 slack (\<lambda>_. True) (on_faults (Kill (rvFault env) n))"
  by (rule within_on_faults [where ?fl0.0 = undefined])
    (use prompt_run_cmd in \<open>auto simp: Kill_def case_prod_beta Let_def record_event_def\<close>)

lemma within_start: "within ns b T 0 slack (\<lambda>_. True) (on_faults (Start (rvFault env) n))"
  by (rule within_on_faults [where ?fl0.0 = undefined])
    (use prompt_run_cmd in \<open>auto simp: Start_def case_prod_beta Let_def record_event_def\<close>)

lemma within_isolate: "within ns b T 0 (4 * (int (length ns) * slack)) (\<lambda>_. True) (on_faults (Isolate (rvFault env) n))"
  by (rule within_on_faults [where ?fl0.0 = "\<lparr>fNodes = ns, fEvents = []\<rparr>"])
    (use prompt_isolate [of ns n None] in \<open>auto simp: Isolate_def case_prod_beta Let_def record_event_def algebra_simps\<close>)

lemma within_heal_all: "within ns b T 0 (3 * (int (length ns) * slack)) (\<lambda>_. True) (heal_all env)"
proof -
  have "length (concat (map heal_cmds ns)) = 3 * length ns"
    by (induction ns) (simp_all add: heal_cmds_def)
  with prompt_run_all [of "concat (map heal_cmds ns)"] show ?thesis
    unfolding heal_all_def
    by (intro within_on_faults [where ?fl0.0 = "\<lparr>fNodes = ns, fEvents = []\<rparr>"])
      (auto simp: HealAll_def case_prod_beta Let_def record_event_def algebra_simps)
qed

lemma within_find_leader:
  "within ns b T 0 (2000000000 * int (length ns) + int (length ns) * slack) (\<lambda>l. \<forall>n. l = Some n \<longrightarrow> n \<in> set ns) (find_leader env)"
  unfolding find_leader_def
  by (rule within_on_faults [where ?fl0.0 = "\<lparr>fNodes = ns, fEvents = []\<rparr>"])
    (use prompt_leader_id [of ns] in \<open>auto simp: LeaderID_def NodeByID_def case_prod_beta Let_def find_Some_iff algebra_simps\<close>)

lemma within_intn: "0 < k \<Longrightarrow> within ns b T 0 slack (\<lambda>i. i < k) (on_world (rvFaultIntn env k))"
  by (rule within_on_world) (use fault_intn fault_intn_prompt fault_intn_goes_on in \<open>auto simp: prompt_def\<close>)

lemma within_fault_sleep:
  assumes "0 < spread" and "base + spread \<le> 20000"
  shows "within ns b T (int base * 1000000) (int (base + spread) * 1000000 + 2 * slack) (\<lambda>_. True) (fault_sleep env base spread)"
proof -
  have "within ns b T (int base * 1000000) (int (base + spread) * 1000000 + slack) (\<lambda>_. True) (sleep env (of_nat (base + k) * Millisecond))"
    if "k < spread" for k
  proof -
    have m: "sint (of_nat (base + k) * Millisecond :: int64) = int (base + k) * 1000000"
      using assms that by (intro millis) simp
    have "within ns b T (int (base + k) * 1000000) (int (base + k) * 1000000 + slack) (\<lambda>_. True) (sleep env (of_nat (base + k) * Millisecond))"
      using within_sleep [of "of_nat (base + k) * Millisecond" ns b T] unfolding m by simp
    then show ?thesis
      using that unfolding within_def by (fastforce simp: algebra_simps)
  qed
  then have "within ns b T (0 + int base * 1000000) (int (base + spread) * 1000000 + 2 * slack) (\<lambda>_. True) (fault_sleep env base spread)"
    unfolding fault_sleep_def using slack_nonneg
    by (intro within_sum [OF within_intn [OF assms(1)]]) (auto simp: algebra_simps)
  then show ?thesis by simp
qed

end

section \<open>How long a run may take\<close>

text \<open>
  The bounds of the phases, for \<open>n\<close> nodes, in nanoseconds of the world's time: each is the sum of the
  deadlines, the pauses and the timeouts of the calls, and the slack of every call.
\<close>

definition reset_bound :: "int \<Rightarrow> run_options \<Rightarrow> int" where
  "reset_bound slack opt = int (length (reset_keys opt)) * invoke_bound slack 20000000000"

definition smoke_bound :: "int \<Rightarrow> run_options \<Rightarrow> int" where
  "smoke_bound slack opt = int (length (roNodes opt)) * (2 * invoke_bound slack 20000000000)"

definition contention_bound :: "int \<Rightarrow> int" where
  "contention_bound slack = 3 * (7 * invoke_bound slack 20000000000 + slack)"

definition durability_bound :: "int \<Rightarrow> int \<Rightarrow> int" where
  "durability_bound slack n = 3 * (invoke_bound slack 20000000000 + invoke_bound slack 5000000000 + 2000000000 * n +
     4 * (n * slack) + 48500000000 + 6 * slack) + 3 * slack"

definition minority_bound :: "int \<Rightarrow> int \<Rightarrow> int" where
  "minority_bound slack n = 4 * invoke_bound slack 4000000000 + 2 * invoke_bound slack 6000000000 + 2000000000 * n +
     8 * (n * slack) + 76000000000 + 9 * slack"

definition client_round_bound :: "int \<Rightarrow> int" where
  "client_round_bound slack = invoke_bound slack 8000000000 + 39000000 + 6 * slack"

definition chaos_bound :: "int \<Rightarrow> int \<Rightarrow> int64 \<Rightarrow> int" where
  "chaos_bound slack n d = max 0 (sint d) + 2000000000 * n + 21000000000 + 11 * (n * slack) + client_round_bound slack + 15 * slack"

definition convergence_bound :: "int \<Rightarrow> int \<Rightarrow> int" where
  "convergence_bound slack n = 92000000000 + 3000000000 * n + 4 * (n * slack) + 4 * slack"

definition run_bound :: "int \<Rightarrow> run_options \<Rightarrow> int" where
  "run_bound slack opt = (let n = int (length (roNodes opt)) in
     reset_bound slack opt + smoke_bound slack opt + contention_bound slack +
     (if roSkipFaults opt then 0
      else durability_bound slack n + minority_bound slack n + chaos_bound slack n (roDuration opt) + convergence_bound slack n) +
     420000000000 + 7 * slack)"

text \<open>
  Options under which no client panics: there are nodes, each with another one of a different name, the
  workload has keys if it has clients, and the requests for the keys of the run have valid URLs.
\<close>

definition runnable :: "'w client_env \<Rightarrow> run_options \<Rightarrow> bool" where
  "runnable env opt \<longleftrightarrow> roNodes opt \<noteq> [] \<and>
     list_all (\<lambda>n. list_ex (\<lambda>m. nID m \<noteq> nID n) (roNodes opt)) (roNodes opt) \<and>
     0 \<le> roNumKeys opt \<and> (0 < roNumClients opt \<longrightarrow> 0 < roNumKeys opt) \<and>
     list_all (\<lambda>k. list_all (\<lambda>n. ceURLOk env (nURL n @ ''/kv/'' @ k) \<and> ceURLOk env (nURL n @ ''/kv/'' @ k @ ''/cas''))
       (roNodes opt)) (reset_keys opt)"

lemma runnable_op:
  assumes "runnable env opt" and "k \<in> set (reset_keys opt)" and "op \<in> set [''put'', ''get'', ''delete'', ''cas'']"
    and "hOp h = op" and "hKey h = k"
  shows "sendable env (roNodes opt) h"
  using assms by (auto simp: runnable_def sendable_def list_all_iff)

lemma used_keys:
  "''smoke'' \<in> set (reset_keys opt)" "''majority-live'' \<in> set (reset_keys opt)" "''minority-probe'' \<in> set (reset_keys opt)"
  "i < 3 \<Longrightarrow> ''durable-'' @ itoa i \<in> set (reset_keys opt)" "i < 3 \<Longrightarrow> ''cas-arena-'' @ itoa i \<in> set (reset_keys opt)"
  "set (chaos_keys opt) \<subseteq> set (reset_keys opt)"
  by (auto simp: reset_keys_def chaos_keys_def)

lemma client_op_fields: "hOp (client_op c op k v) = op" "hKey (client_op c op k v) = k"
  by (simp_all add: client_op_def)

lemma seconds: "sint (20 * Second) = 20000000000" "sint (4 * Second) = 4000000000" "sint (5 * Second) = 5000000000"
  "sint (6 * Second) = 6000000000" "sint (8 * Second) = 8000000000" "sint (45 * Second) = 45000000000"
  "sint (30 * Second) = 30000000000" "sint (2 * Second) = 2000000000" "sint (3 * Second) = 3000000000"
  "sint (90 * Second) = 90000000000" "sint (500 * Millisecond) = 500000000"
  by (simp_all add: Second_def Millisecond_def)

lemma deadline_le: "0 \<le> sint a \<Longrightarrow> sint (a + b) \<le> sint a + max 0 (sint b)" for a b :: int64
proof -
  assume "0 \<le> sint a"
  then have "sint (a + b) \<le> sint a + sint b"
    using sint64_bounds [of b] by (simp add: sint_word_ariths signed_take_bit_int_less_eq_self_iff)
  then show ?thesis by simp
qed

context punctual_run begin

text \<open>Client operations, while no goroutines are running.\<close>

lemma invoke_action_within:
  assumes "sendable (rvClient env) ns op" and "clNodes c = ns'" and "ns' \<noteq> []" and "set ns' \<subseteq> set ns"
    and "\<forall>p. pin = Some p \<longrightarrow> p \<in> set ns" and "sint d = D" and "0 \<le> D" and "nat (D div 150000000) + 2 \<le> fuel"
  shows "action_within time (invoke_bound slack D) (\<lambda>(op', c'). clNodes c' = ns') (invoke_action fuel env c op d np pin)"
  unfolding action_within_def
proof (intro allI impI)
  fix r w assume "0 \<le> time w" "time w + invoke_bound slack D < max_int64"
  with assms Invoke_in_time [OF assms(1), of c pin w d fuel np r] obtain iv w' where
    "Invoke fuel (rvClient env) c op d np pin r w = Some (Inr (iv, w'))" "time w \<le> time w'" "time w' \<le> time w + invoke_bound slack D"
    by auto
  then show "\<exists>a r' w'. invoke_action fuel env c op d np pin r w = Inr (a, r', w') \<and> (case a of (op', c') \<Rightarrow> clNodes c' = ns') \<and>
      time w \<le> time w' \<and> time w' \<le> time w + invoke_bound slack D"
    using assms(2) by (simp add: invoke_action_def)
qed

lemma within_acting: "action_within time h R f \<Longrightarrow> 0 \<le> h \<Longrightarrow> within ns None T 0 h R (acting f)"
proof (rule withinI)
  fix s assume a: "action_within time h R f" and s: "st ns None T s" "time (rsWorld s) + h < max_int64"
  then have "0 \<le> time (rsWorld s)" by (simp add: st_def)
  with a s(2) obtain x r' w' where "f (rsRec s) (rsWorld s) = Inr (x, r', w')" "R x" "time (rsWorld s) \<le> time w'"
    "time w' \<le> time (rsWorld s) + h" unfolding action_within_def by blast
  then show "\<exists>a s'. acting f s = Inr (a, s') \<and> R a \<and> st ns None T s' \<and> time (rsWorld s) + 0 \<le> time (rsWorld s') \<and>
      time (rsWorld s') \<le> time (rsWorld s) + h"
    using s(1) by (auto simp: acting_def st_def)
qed auto

lemma invoke_bound_nonneg: "0 \<le> d \<Longrightarrow> 0 \<le> invoke_bound slack d"
  using slack_nonneg by (simp add: invoke_bound_def)

lemma within_invoke:
  assumes "sendable (rvClient env) ns op" and "clNodes c = ns'" and "ns' \<noteq> []" and "set ns' \<subseteq> set ns"
    and "\<forall>p. pin = Some p \<longrightarrow> p \<in> set ns" and "sint d = D" and "0 \<le> D" and "nat (D div 150000000) + 2 \<le> fuel"
  shows "within ns None T 0 (invoke_bound slack D) (\<lambda>(op', c'). clNodes c' = ns') (invoke fuel env c op d np pin)"
  unfolding invoke_def by (intro within_acting invoke_action_within [OF assms] invoke_bound_nonneg assms(7))

end

section \<open>The phases end\<close>

context punctual_run begin

lemma reset_in_time:
  assumes "runnable (rvClient env) opt" and "135 \<le> fuel"
  shows "within (roNodes opt) None T 0 (reset_bound slack opt) (\<lambda>_. True) (phaseReset fuel env opt)"
proof -
  let ?ns = "roNodes opt" and ?I = "\<lambda>(c :: client, f :: nat). clNodes c = roNodes opt"
  have ns: "?ns \<noteq> []" using assms(1) by (simp add: runnable_def)
  have loop: "within ?ns None T 0 (reset_bound slack opt) ?I
     (each (\<lambda>k (c, failed).
          andThen (invoke fuel env c (client_op 999 ''delete'' k '''') (20 * Second) False None) (\<lambda>(op, c').
          pure (c', if hOutcome op \<noteq> OutcomeOK then failed + 1 else failed)))
        (reset_keys opt) (NewClient 999 ?ns, 0 :: nat))"
    unfolding reset_bound_def
  proof (rule within_each)
    fix k a assume "k \<in> set (reset_keys opt)" "?I a"
    then have "within ?ns None T 0 (invoke_bound slack 20000000000) (\<lambda>(op', c'). clNodes c' = ?ns)
        (invoke fuel env (fst a) (client_op 999 ''delete'' k '''') (20 * Second) False None)"
      using assms ns by (intro within_invoke runnable_op [OF assms(1)]) (auto simp: client_op_fields seconds)
    then show "within ?ns None T 0 (invoke_bound slack 20000000000) ?I ((\<lambda>(c, failed).
          andThen (invoke fuel env c (client_op 999 ''delete'' k '''') (20 * Second) False None) (\<lambda>(op, c').
          pure (c', if hOutcome op \<noteq> OutcomeOK then failed + 1 else failed))) a)"
      by (auto intro!: within_seq within_pure split: prod.splits)
  qed (auto simp: NewClient_def invoke_bound_nonneg)
  show ?thesis
    unfolding phaseReset_def Let_def
    by (rule within_seq [OF loop order_refl]) (auto intro!: within_check split: prod.splits)
qed

end

context punctual_run begin

lemma smoke_in_time:
  assumes "runnable (rvClient env) opt" and "135 \<le> fuel"
  shows "within (roNodes opt) None T 0 (smoke_bound slack opt) (\<lambda>_. True) (phaseSmoke fuel env opt)"
proof -
  let ?ns = "roNodes opt" and ?B = "invoke_bound slack 20000000000"
  let ?I = "\<lambda>(c :: client, ok :: bool, detail :: string). clNodes c = roNodes opt"
  have ns: "?ns \<noteq> []" using assms(1) by (simp add: runnable_def)
  have B: "0 \<le> ?B" by (simp add: invoke_bound_nonneg)
  have inv: "within ?ns None T 0 ?B (\<lambda>(op', c'). clNodes c' = ?ns)
      (invoke fuel env c (client_op 0 op ''smoke'' val) (20 * Second) False (Some n))"
    if "clNodes c = ?ns" "n \<in> set ?ns" "op \<in> set [''put'', ''get'']" for c n op val
    using that assms(2) ns
    by (intro within_invoke runnable_op [OF assms(1) used_keys(1)]) (auto simp: client_op_fields seconds)
  have node: "within ?ns None T 0 (2 * ?B) ?I (smoke_node fuel env x a)"
    if "x \<in> set (zip [0..<length ?ns] ?ns)" "?I a" for x a
  proof -
    obtain i n c ok detail where x: "x = (i, n)" "a = (c, ok, detail)" by (cases x, cases a)
    then have n: "n \<in> set ?ns" "clNodes c = ?ns" using that by (auto dest: set_zip_rightD)
    show ?thesis
      unfolding x smoke_node_def prod.case Let_def
      by (intro within_prod within_seq [OF inv] within_if within_pure)
        (use n B in auto)
  qed
  have "within ?ns None T 0 (int (length (zip [0..<length ?ns] ?ns)) * (2 * ?B)) ?I
      (each (smoke_node fuel env) (zip [0..<length ?ns] ?ns) (NewClient 0 ?ns, True, ''''))"
    by (rule within_each [OF node]) (use B in \<open>auto simp: NewClient_def\<close>)
  then have loop: "within ?ns None T 0 (smoke_bound slack opt) ?I
      (each (smoke_node fuel env) (zip [0..<length ?ns] ?ns) (NewClient 0 ?ns, True, ''''))"
    by (simp add: smoke_bound_def)
  show ?thesis
    unfolding phaseSmoke_def by (rule within_seq [OF loop order_refl]) (auto intro!: within_check split: prod.splits)
qed

lemma action_within_fst:
  assumes "action_within time B R f"
  shows "action_within time B (\<lambda>_. True) (\<lambda>r w. case f r w of Inl e \<Rightarrow> Inl e | Inr ((x, y), r', w') \<Rightarrow> Inr (x, r', w'))"
  unfolding action_within_def
proof (intro allI impI)
  fix r w assume "0 \<le> time w" "time w + B < max_int64"
  with assms obtain a r' w' where "f r w = Inr (a, r', w')" "time w \<le> time w'" "time w' \<le> time w + B"
    unfolding action_within_def by blast
  then show "\<exists>a r' w'. (case f r w of Inl e \<Rightarrow> Inl e | Inr ((x, y), r', w') \<Rightarrow> Inr (x, r', w')) = Inr (a, r', w') \<and> True \<and>
      time w \<le> time w' \<and> time w' \<le> time w + B"
    by (cases a) simp
qed

lemma contention_in_time:
  assumes "runnable (rvClient env) opt" and "135 \<le> fuel"
  shows "within (roNodes opt) None T 0 (contention_bound slack) (\<lambda>_. True) (phaseCASContention fuel env opt)"
proof -
  let ?ns = "roNodes opt" and ?B = "invoke_bound slack 20000000000"
  have ns: "?ns \<noteq> []" using assms(1) by (simp add: runnable_def)
  have B: "0 \<le> ?B" by (simp add: invoke_bound_nonneg)
  have round: "within ?ns None T 0 (7 * ?B + slack) (\<lambda>_. True) (contention_round fuel env opt i a)" if i: "i \<in> set [0..<3]" for i a
  proof -
    let ?key = "''cas-arena-'' @ itoa i" and ?base = "''base-'' @ itoa i"
    have key: "?key \<in> set (reset_keys opt)" using i by (intro used_keys(5)) simp
    have put: "within ?ns None T 0 ?B (\<lambda>(op', c'). clNodes c' = ?ns)
        (invoke fuel env (NewClient 100 ?ns) (client_op 100 ''put'' ?key ?base) (20 * Second) False None)"
      using assms(2) ns
      by (intro within_invoke runnable_op [OF assms(1) key]) (auto simp: client_op_fields seconds NewClient_def)
    have "action_within time ?B (\<lambda>_. True) (contender_body fuel env opt i ?key ?base j)" for j
    proof -
      have "action_within time ?B (\<lambda>(op', c'). clNodes c' = ?ns) (invoke_action fuel env (NewClient (101 + of_nat j) ?ns)
          ((client_op (101 + of_nat j) ''cas'' ?key (''winner-'' @ itoa i @ ''-'' @ itoa j))\<lparr>hExpect := Some ?base\<rparr>) (20 * Second) False None)"
        using assms(2) ns
        by (intro invoke_action_within [where ns = ?ns] runnable_op [OF assms(1) key])
          (auto simp: client_op_def seconds NewClient_def)
      then show ?thesis unfolding contender_body_def by (rule action_within_fst)
    qed
    then have "action_within time (int (length (map (contender_body fuel env opt i ?key ?base) [0..<6])) * ?B + slack) (\<lambda>_. True)
        (rvContend env (map (contender_body fuel env opt i ?key ?base) [0..<6]))"
      by (intro contend_ends [OF B]) simp
    then have all: "within ?ns None T 0 (6 * ?B + slack) (\<lambda>_. True)
        (acting (rvContend env (map (contender_body fuel env opt i ?key ?base) [0..<6])))"
      by (intro within_acting) (use B slack_nonneg in simp_all)
    show ?thesis
      unfolding contention_round_def Let_def
      by (intro within_prod within_seq [OF put] within_if within_pure within_seq [OF all] TrueI)
        (use B slack_nonneg in simp_all)
  qed
  have loop: "within ?ns None T 0 (contention_bound slack) (\<lambda>_. True) (each (contention_round fuel env opt) [0..<3] (True, ''''))"
  proof -
    have "within ?ns None T 0 (int (length [0..<3::nat]) * (7 * ?B + slack)) (\<lambda>_. True) (each (contention_round fuel env opt) [0..<3] (True, ''''))"
      by (rule within_each) (use round B slack_nonneg in auto)
    then show ?thesis by (simp add: contention_bound_def del: each.simps)
  qed
  show ?thesis
    unfolding phaseCASContention_def by (rule within_seq [OF loop order_refl]) (auto intro!: within_check split: prod.splits)
qed

end

lemma deadline_after: "0 \<le> sint t \<Longrightarrow> sint d = D \<Longrightarrow> 0 \<le> D \<Longrightarrow> sint (t + d) \<le> sint t + D" for t d :: int64
  using deadline_le [of t d] by simp

context punctual_run begin

lemma crew_nonneg: "0 \<le> int (length ns) * slack"
  using slack_nonneg by simp

text \<open>A loop that polls the store with one operation a round.\<close>

lemma tick_op:
  assumes "sint p = P" and "0 \<le> P" and "0 \<le> D"
    and "\<And>a. I a \<Longrightarrow> within ns None T 0 (invoke_bound slack D) (\<lambda>(left, a'). I a') (body a)"
  shows "tick ns None T P (invoke_bound slack D + P + slack) I (pausing env p body)"
  using tick_pausing [OF assms(4), where d = p] assms(1-3) invoke_bound_nonneg [of D] by simp

lemma pause3: "within ns b T 0 (3000000000 + slack) (\<lambda>_. True) (sleep env (3 * Second))"
  by (rule within_pause) (simp_all add: seconds)

lemma pause2: "within ns b T 0 (2000000000 + slack) (\<lambda>_. True) (sleep env (2 * Second))"
  by (rule within_pause) (simp_all add: seconds)

lemma durability_round_in_time:
  assumes "runnable (rvClient env) opt" and "135 \<le> fuel" and "i < 3" and "ns = roNodes opt" and "n = int (length ns)"
  shows "(\<lambda>(_, _, later). length later \<le> j) a \<Longrightarrow>
    within ns None T 0 (invoke_bound slack 20000000000 + invoke_bound slack 5000000000 + 2000000000 * n +
      4 * (n * slack) + 48500000000 + 6 * slack) (\<lambda>(_, _, later). length later \<le> Suc j) (durability_round fuel env opt i a)"
proof -
  assume j: "(\<lambda>(_, _, later). length later \<le> j) a"
  have ns: "ns \<noteq> []" using assms(1,4) by (simp add: runnable_def)
  have key: "''durable-'' @ itoa i \<in> set (reset_keys opt)" using assms(3) by (rule used_keys)
  note send = runnable_op [OF assms(1) key, folded assms(4)]
  have B: "0 \<le> invoke_bound slack 20000000000" "0 \<le> invoke_bound slack 5000000000" "0 \<le> n" "0 \<le> n * slack"
    using crew_nonneg [of ns] by (simp_all add: invoke_bound_nonneg assms(5))
  have inv: "within ns None T 0 (invoke_bound slack D) (\<lambda>(op', c'). clNodes c' = ns)
      (invoke fuel env c (client_op cid op (''durable-'' @ itoa i) val) d False None)"
    if "clNodes c = ns" "op \<in> set [''put'', ''get'']" "sint d = D" "D \<le> 20000000000" "0 \<le> D" for c cid op val d D T
    using that assms(2) ns
    by (intro within_invoke send) (auto simp: client_op_fields seconds intro!: order_trans [OF _ assms(2)])
  have tick: "tick ns None T 500000000 (invoke_bound slack 5000000000 + 500000000 + slack) (\<lambda>(c, _). clNodes c = ns)
      (pausing env (500 * Millisecond) (read_back fuel env cid (''durable-'' @ itoa i)))" for cid T
    unfolding read_back_def
    by (intro tick_op within_prod within_seq [OF inv] within_pure) (auto simp: seconds)
  have put: "within ns None T 0 (invoke_bound slack 20000000000) (\<lambda>(op', c'). clNodes c' = ns)
      (invoke fuel env c (client_op cid ''put'' (''durable-'' @ itoa i) val) (20 * Second) False None)"
    if "clNodes c = ns" for c cid val T
    using that by (intro inv) (auto simp: seconds)
  have poll: "within ns None (sint t) 0 (45000000000 + (invoke_bound slack 5000000000 + 500000000 + slack) + 2 * slack)
      (\<lambda>(c, _). clNodes c = ns) (poll fuel env (t + 45 * Second) (pausing env (500 * Millisecond)
        (read_back fuel env cid (''durable-'' @ itoa i))) (c, z))"
    if "0 \<le> sint t" "clNodes c = ns" for t cid c z
    using that assms(2) by (intro within_poll_fuel [OF tick deadline_after _ _ _ order_refl]) (auto simp: seconds)
  have kill: "within ns None T 0 slack (\<lambda>l. length l \<le> Suc (length later)) (kill_leader env leader later)" for leader later T
    using slack_nonneg
    by (cases leader) (auto simp: kill_leader_def intro!: within_pure within_seq [OF within_kill])
  show ?thesis
    unfolding durability_round_def Let_def
    by (intro within_prod within_seq [OF put] within_if within_pure within_seq [OF within_find_leader] within_seq [OF kill]
        within_now within_seq [OF poll] within_seq [OF within_heal_all] within_seq [OF pause3])
      (use B j slack_nonneg in \<open>auto simp: assms(4,5) seconds NewClient_def\<close>)
qed

lemma durability_in_time:
  assumes "runnable (rvClient env) opt" and "135 \<le> fuel" and "ns = roNodes opt" and "n = int (length ns)"
  shows "within ns None T 0 (durability_bound slack n) (\<lambda>_. True) (phaseLeaderKillDurability fuel env opt)"
proof -
  let ?B = "invoke_bound slack 20000000000 + invoke_bound slack 5000000000 + 2000000000 * n + 4 * (n * slack) + 48500000000 + 6 * slack"
  let ?I = "\<lambda>j (allPass :: bool, detail :: string, later :: node list). length later \<le> j"
  have B: "0 \<le> ?B" using crew_nonneg [of ns] slack_nonneg by (simp add: invoke_bound_nonneg assms(4))
  have round: "within ns None T 0 ?B (?I (Suc j)) (durability_round fuel env opt i a)" if "i \<in> set [0..<3]" "?I j a" for i j a
    using that by (intro durability_round_in_time [OF assms(1,2) _ assms(3,4)]) auto
  have "within ns None T 0 (int (length [0..<3::nat]) * ?B) (?I (0 + length [0..<3::nat])) (each (durability_round fuel env opt) [0..<3] (True, '''', []))"
    by (rule within_each_counted [where I = ?I]) (use round B in auto)
  then have rounds: "within ns None T 0 (3 * ?B) (?I 3) (each (durability_round fuel env opt) [0..<3] (True, '''', []))"
    by (simp del: each.simps)
  have start: "within ns None T 0 (3 * slack) (\<lambda>_. True) (each (start_later env) later ())" if "length later \<le> 3" for later
  proof -
    have "within ns None T 0 slack (\<lambda>_. True) (start_later env x a)" for x a
      unfolding start_later_def by (intro within_on_world) (use prompt_run_cmd in auto)
    then have "within ns None T 0 (int (length later) * slack) (\<lambda>_. True) (each (start_later env) later ())"
      by (intro within_each slack_nonneg) auto
    then show ?thesis by (rule within_mono) (use that slack_nonneg in \<open>auto intro: mult_right_mono\<close>)
  qed
  show ?thesis
    unfolding phaseLeaderKillDurability_def durability_bound_def
    by (intro within_seq [OF rounds] within_prod within_seq [OF within_check [OF order_refl TrueI]]) (use slack_nonneg start in auto)
qed

end

context punctual_run begin

lemma probes_in_time:
  assumes "runnable (rvClient env) opt" and "135 \<le> fuel" and "ns = roNodes opt" and "l \<in> set ns"
  shows "within ns None T 0 (4 * invoke_bound slack 4000000000) (\<lambda>_. True) (each (minority_probe fuel env l) [0..<4] (NewClient 300 ns, 0))"
proof -
  let ?K = "\<lambda>(c :: client, y :: nat). clNodes c = ns"
  have put: "within ns None T 0 (invoke_bound slack 4000000000) (\<lambda>(op', c'). clNodes c' = ns)
      (invoke fuel env c (client_op 300 ''put'' ''minority-probe'' val) (4 * Second) True (Some l))" if "clNodes c = ns" for c val T
    using that assms(2,4)
    by (intro within_invoke runnable_op [OF assms(1) used_keys(3), folded assms(3)]) (auto simp: client_op_fields seconds)
  have "within ns None T 0 (invoke_bound slack 4000000000) ?K (minority_probe fuel env l i a)" if "?K a" for i a
    using that unfolding minority_probe_def by (intro within_prod within_seq [OF put] within_pure) auto
  then have "within ns None T 0 (int (length [0..<4::nat]) * invoke_bound slack 4000000000) ?K
      (each (minority_probe fuel env l) [0..<4] (NewClient 300 ns, 0))"
    by (rule within_each) (simp_all add: invoke_bound_nonneg NewClient_def)
  then show ?thesis by (rule within_mono) (simp_all add: invoke_bound_nonneg)
qed

lemma majority_in_time:
  assumes "runnable (rvClient env) opt" and "135 \<le> fuel" and "ns = roNodes opt" and "l \<in> set ns" and "0 \<le> sint t"
    and "clNodes c = majority ns l"
  shows "within ns None (sint t) 0 (30000000000 + (invoke_bound slack 6000000000 + 500000000 + slack) + 2 * slack)
      (\<lambda>(c, _, _). clNodes c = majority ns l)
      (poll fuel env (t + 30 * Second) (pausing env (500 * Millisecond) (majority_write fuel env)) (c, i, x))"
    and "within ns None (sint t) 0 (40000000000 + (invoke_bound slack 6000000000 + 500000000 + slack) + 2 * slack)
      (\<lambda>(c, _). clNodes c = majority ns l)
      (poll fuel env (t + 30 * Second + 10 * Second) (pausing env (500 * Millisecond) (majority_read fuel env)) (c, x))"
proof -
  have maj: "majority ns l \<noteq> []" "set (majority ns l) \<subseteq> set ns"
    using assms(1,3,4) by (auto simp: runnable_def majority_def list_all_iff list_ex_iff filter_empty_conv)
  have inv: "within ns None T 0 (invoke_bound slack 6000000000) (\<lambda>(op', c'). clNodes c' = majority ns l)
      (invoke fuel env c (client_op 301 op ''majority-live'' val) (6 * Second) False None)"
    if "clNodes c = majority ns l" "op \<in> set [''put'', ''get'']" for c val op T
    using that assms(2) maj
    by (intro within_invoke runnable_op [OF assms(1) used_keys(2), folded assms(3)]) (auto simp: client_op_fields seconds)
  have w: "tick ns None T 500000000 (invoke_bound slack 6000000000 + 500000000 + slack) (\<lambda>(c, _, _). clNodes c = majority ns l)
      (pausing env (500 * Millisecond) (majority_write fuel env))" for T
    unfolding majority_write_def
    by (intro tick_op within_prod within_seq [OF inv] within_pure) (auto simp: seconds)
  have r: "tick ns None T 500000000 (invoke_bound slack 6000000000 + 500000000 + slack) (\<lambda>(c, _). clNodes c = majority ns l)
      (pausing env (500 * Millisecond) (majority_read fuel env))" for T
    unfolding majority_read_def Let_def
    by (intro tick_op within_prod within_seq [OF inv] within_pure) (auto simp: seconds)
  have forty: "t + 30 * Second + 10 * Second = t + 40 * Second" "sint (40 * Second) = 40000000000"
    by (simp_all add: Second_def Millisecond_def)
  show "within ns None (sint t) 0 (30000000000 + (invoke_bound slack 6000000000 + 500000000 + slack) + 2 * slack)
      (\<lambda>(c, _, _). clNodes c = majority ns l)
      (poll fuel env (t + 30 * Second) (pausing env (500 * Millisecond) (majority_write fuel env)) (c, i, x))"
    using assms by (intro within_poll_fuel [OF w deadline_after _ _ _ order_refl]) (auto simp: seconds)
  show "within ns None (sint t) 0 (40000000000 + (invoke_bound slack 6000000000 + 500000000 + slack) + 2 * slack)
      (\<lambda>(c, _). clNodes c = majority ns l)
      (poll fuel env (t + 30 * Second + 10 * Second) (pausing env (500 * Millisecond) (majority_read fuel env)) (c, x))"
    unfolding forty(1)
    using assms by (intro within_poll_fuel [OF r deadline_after _ _ _ order_refl]) (auto simp: forty(2))
qed

lemma minority_in_time:
  assumes "runnable (rvClient env) opt" and "135 \<le> fuel" and "ns = roNodes opt" and "n = int (length ns)"
  shows "within ns None T 0 (minority_bound slack n) (\<lambda>_. True) (phaseMinorityRefusesWrites fuel env opt)"
proof -
  have B: "0 \<le> invoke_bound slack 4000000000" "0 \<le> invoke_bound slack 6000000000" "0 \<le> n" "0 \<le> n * slack"
    using crew_nonneg [of ns] by (simp_all add: invoke_bound_nonneg assms(4))
  note poll = majority_in_time [OF assms(1-3)]
  have read: "within ns None (sint t) 0 (40000000000 + (invoke_bound slack 6000000000 + 500000000 + slack) + 2 * slack)
      (\<lambda>(c, _). clNodes c = majority ns l)
      (if b then poll fuel env (t + 30 * Second + 10 * Second) (pausing env (500 * Millisecond) (majority_read fuel env)) (c, x) else pure (c, y))"
    if "l \<in> set ns" "0 \<le> sint t" "clNodes c = majority ns l" for l t c b x y
    using B(2) slack_nonneg that by (intro within_if poll(2) within_pure) auto
  have found: "within ns None T 0 (minority_bound slack n - (2000000000 * int (length ns) + int (length ns) * slack)) (\<lambda>_. True)
      (case leader of None \<Rightarrow> check ''minority-refuses-writes'' False ''no leader found to partition'' | Some l \<Rightarrow> k l)"
    if "\<forall>l. leader = Some l \<longrightarrow> l \<in> set ns"
      "\<And>l. l \<in> set ns \<Longrightarrow> within ns None T 0 (minority_bound slack n - (2000000000 * int (length ns) + int (length ns) * slack)) (\<lambda>_. True) (k l)"
    for leader and k :: "node \<Rightarrow> _"
    using that B slack_nonneg by (auto simp: minority_bound_def assms(4) intro!: within_check split: option.splits)
  show ?thesis
    unfolding phaseMinorityRefusesWrites_def Let_def assms(3) [symmetric]
    by (intro within_seq [OF within_find_leader] found within_prod within_seq [OF within_isolate] within_seq [OF pause2]
        within_seq [OF probes_in_time [OF assms(1-3)]] within_now within_seq [OF poll(1)] within_seq [OF read]
        within_seq [OF within_heal_all] within_seq [OF pause3] within_check within_seq [OF within_check [OF order_refl TrueI]])
      (use B slack_nonneg in \<open>auto simp: assms(4) NewClient_def minority_bound_def\<close>)
qed

end

context punctual_run begin

text \<open>Goroutines: a round of a workload client ends, so that joining the clients does.\<close>

lemma RandomOp_in_time:
  assumes "keys \<noteq> []"
  shows "\<exists>op c' w'. RandomOp (rvClient env) c keys w = Inr (op, c', w') \<and> hOp op \<in> set [''put'', ''get'', ''delete'', ''cas''] \<and>
    hKey op \<in> set keys \<and> clNodes c' = clNodes c \<and> time w \<le> time w' \<and> time w' \<le> time w + 4 * slack"
proof -
  let ?i = "ceIntn (rvClient env) (length keys) w"
  let ?n = "ceIntn (rvClient env) (2 ^ 24) (snd ?i)"
  let ?r = "ceFloat64 (rvClient env) (snd ?n)"
  have k: "keys ! fst ?i \<in> set keys" using intn_prompt [of "length keys" w] assms by simp
  have t: "time w \<le> time (snd ?r)" "time (snd ?r) \<le> time w + 3 * slack"
    using intn_monotonic [of w "length keys"] intn_prompt [of "length keys" w] intn_monotonic [of "snd ?i" "2 ^ 24"]
      intn_prompt [of "2 ^ 24" "snd ?i"] float_prompt [of "snd ?n"] by linarith+
  show ?thesis
    using assms k t float_prompt [of "snd ?r"] slack_nonneg
    unfolding RandomOp_def Let_def case_prod_beta
    by (simp add: zero_hop_def)
qed

lemma chaos_client_in_time:
  assumes "runnable (rvClient env) opt" and "135 \<le> fuel" and "ns = roNodes opt" and "0 < roNumKeys opt" and "clNodes c = ns"
  shows "action_within time (client_round_bound slack) (\<lambda>c. clNodes c = ns) (chaos_client fuel env (chaos_keys opt) c)"
  unfolding action_within_def
proof (intro allI impI)
  fix r w assume w: "0 \<le> time w" "time w + client_round_bound slack < max_int64"
  have "chaos_keys opt \<noteq> []" using assms(4) by (simp add: chaos_keys_def)
  from RandomOp_in_time [OF this, of c w] obtain op c1 w1 where 1: "RandomOp (rvClient env) c (chaos_keys opt) w = Inr (op, c1, w1)"
    "hOp op \<in> set [''put'', ''get'', ''delete'', ''cas'']" "hKey op \<in> set (chaos_keys opt)" "clNodes c1 = ns"
    "time w \<le> time w1" "time w1 \<le> time w + 4 * slack" using assms(5) by auto
  have "sendable (rvClient env) ns op"
    using 1(2,3) used_keys(6) assms(3) by (intro runnable_op [OF assms(1), folded assms(3)]) auto
  moreover have "ns \<noteq> []" using assms(1,3) by (simp add: runnable_def)
  ultimately have "action_within time (invoke_bound slack 8000000000) (\<lambda>(op', c'). clNodes c' = ns)
      (invoke_action fuel env c1 op (8 * Second) False None)"
    using assms(2) 1(4) by (intro invoke_action_within) (auto simp: seconds)
  moreover have "0 \<le> time w1" "time w1 + invoke_bound slack 8000000000 < max_int64"
    using w 1(5,6) slack_nonneg by (simp_all add: client_round_bound_def)
  ultimately obtain op2 c2 r2 w2 where 2: "invoke_action fuel env c1 op (8 * Second) False None r w1 = Inr ((op2, c2), r2, w2)"
    "clNodes c2 = ns" "time w1 \<le> time w2" "time w2 \<le> time w1 + invoke_bound slack 8000000000"
    unfolding action_within_def by fastforce
  let ?k = "ceIntn (rvClient env) 40 w2"
  have k: "fst ?k < 40" "time w2 \<le> time (snd ?k)" "time (snd ?k) \<le> time w2 + slack"
    using intn_prompt [of 40 w2] intn_monotonic [of w2 40] by auto
  then have "sint (of_nat (fst ?k) * Millisecond :: int64) = int (fst ?k) * 1000000" by (intro millis) simp
  then have "time (snd ?k) \<le> time (ceSleep (rvClient env) (of_nat (fst ?k) * Millisecond) (snd ?k))"
    "time (ceSleep (rvClient env) (of_nat (fst ?k) * Millisecond) (snd ?k)) \<le> time (snd ?k) + 39000000 + slack"
    using k(1) sleep_advances [of "snd ?k" "of_nat (fst ?k) * Millisecond"]
      sleep_prompt [of "of_nat (fst ?k) * Millisecond" "snd ?k"] by (auto simp: max_def)
  with 1 2 k show "\<exists>a r' w'. chaos_client fuel env (chaos_keys opt) c r w = Inr (a, r', w') \<and> clNodes a = ns \<and>
      time w \<le> time w' \<and> time w' \<le> time w + client_round_bound slack"
    by (simp add: chaos_client_def case_prod_beta client_round_bound_def)
qed

lemma within_traffic:
  assumes "0 \<le> B" and "\<forall>(c, body) \<in> set gs. rounds_within time B c body" and "slack \<le> h"
    and "within ns (Some B) T 0 (h - slack) R k"
  shows "within ns None T 0 h R (andThen (on_world (\<lambda>w. ((), rvTraffic env gs w))) (\<lambda>_. k))"
proof (rule withinI)
  show "(0::int) \<le> 0" "0 \<le> h" using assms(3) slack_nonneg by auto
  fix s assume s: "st ns None T s" "time (rsWorld s) + h < max_int64"
  let ?s1 = "s\<lparr>rsWorld := rvTraffic env gs (rsWorld s)\<rparr>"
  note tr = traffic_starts [OF assms(1,2), of "rsWorld s"]
  then have 1: "st ns (Some B) T ?s1" "time (rsWorld ?s1) + (h - slack) < max_int64" using s by (auto simp: st_def)
  from withinE [OF assms(4) this] obtain a s2 where "k ?s1 = Inr (a, s2)" "R a" "st ns (Some B) T s2"
    "time (rsWorld ?s1) + 0 \<le> time (rsWorld s2)" "time (rsWorld s2) \<le> time (rsWorld ?s1) + (h - slack)" .
  then show "\<exists>a s'. andThen (on_world (\<lambda>w. ((), rvTraffic env gs w))) (\<lambda>_. k) s = Inr (a, s') \<and> R a \<and> st ns None T s' \<and>
      time (rsWorld s) + 0 \<le> time (rsWorld s') \<and> time (rsWorld s') \<le> time (rsWorld s) + h"
    using tr by (auto simp: andThen_def on_world_def st_def)
qed

lemma within_join: "0 \<le> B \<Longrightarrow> within ns (Some B) T 0 (B + slack) (\<lambda>_. True) (acting (rvJoin env))"
proof (rule withinI)
  fix s assume B: "0 \<le> B" and s: "st ns (Some B) T s" "time (rsWorld s) + (B + slack) < max_int64"
  then have w: "0 \<le> time (rsWorld s)" "stopping (rsWorld s) \<le> B" by (auto simp: st_def)
  then have "time (rsWorld s) + max 0 (stopping (rsWorld s)) + slack < max_int64" using B s(2) by simp
  from join_ends [OF w(1) this, of "rsRec s"] obtain r' w' where "rvJoin env (rsRec s) (rsWorld s) = Inr ((), r', w')" "stopping w' \<le> 0"
    "time (rsWorld s) \<le> time w'" "time w' \<le> time (rsWorld s) + max 0 (stopping (rsWorld s)) + slack" by blast
  then show "\<exists>a s'. acting (rvJoin env) s = Inr (a, s') \<and> True \<and> st ns (Some B) T s' \<and>
      time (rsWorld s) + 0 \<le> time (rsWorld s') \<and> time (rsWorld s') \<le> time (rsWorld s) + (B + slack)"
    using s(1) w(2) B by (auto simp: acting_def st_def)
qed (use slack_nonneg in auto)

end

context punctual_run begin

lemma within_faulty_pause:
  "0 < spread \<Longrightarrow> base + spread \<le> 20000 \<Longrightarrow>
    within ns b T 0 (int (base + spread) * 1000000 + 2 * slack) (\<lambda>_. True) (fault_sleep env base spread)"
  by (rule within_mono [OF within_fault_sleep]) auto

lemma inflict_in_time:
  "within ns b T 0 (13000000000 + 7 * (int (length ns) * slack) + 4 * slack) (\<lambda>_. True) (inflict env mode target)"
  unfolding inflict_def
  by (intro within_if within_seq [OF within_kill] within_seq [OF within_faulty_pause] within_seq [OF within_start]
      within_seq [OF within_isolate] within_mono [OF within_heal_all] within_pure TrueI)
    (use slack_nonneg crew_nonneg [of ns] in auto)

lemma target_in_time:
  assumes "roNodes opt = ns" and "ns \<noteq> []"
  shows "within ns b T 0 (2000000000 * int (length ns) + int (length ns) * slack + slack) (\<lambda>_. True) (fault_target env opt mode)"
proof -
  have rnd: "within ns b T 0 slack (\<lambda>_. True) (random_node env opt)"
    using assms slack_nonneg
    by (auto simp: random_node_def intro!: within_seq [OF within_intn] within_pure)
  have pick: "within ns b T 0 slack (\<lambda>_. True) (case target of Some n \<Rightarrow> pure n | None \<Rightarrow> random_node env opt)" for target
    using rnd slack_nonneg by (auto intro: within_pure split: option.splits)
  have look: "within ns b T 0 (2000000000 * int (length ns) + int (length ns) * slack) (\<lambda>_. True) (if mode \<le> 1 then find_leader env else pure None)"
    by (intro within_if within_mono [OF within_find_leader] within_pure) (use crew_nonneg [of ns] in auto)
  show ?thesis
    unfolding fault_target_def
    by (rule within_seq [OF look]) (use pick slack_nonneg in auto)
qed

lemma fault_round_in_time:
  assumes "roNodes opt = ns" and "ns \<noteq> []" and "n = int (length ns)"
  shows "within ns b T 2000000000 (21000000000 + 2000000000 * n + 8 * (n * slack) + 10 * slack) (\<lambda>_. True) (fault_round env opt x)"
proof -
  have p: "within ns b T 2000000000 (5000000000 + 2 * slack) (\<lambda>_. True) (fault_sleep env 2000 3000)"
    using within_fault_sleep [of 3000 2000 ns b T] by simp
  show ?thesis
    unfolding fault_round_def
    by (intro within_seq [OF p] within_seq [OF within_intn] within_seq [OF target_in_time [OF assms(1,2)]]
        within_seq [OF inflict_in_time] within_seq [OF within_faulty_pause] within_pure TrueI)
      (use slack_nonneg crew_nonneg [of ns] in \<open>auto simp: assms(3)\<close>)
qed

lemma within_check_at: "0 \<le> h \<Longrightarrow> within ns b T 0 h (\<lambda>_. True) (\<lambda>s. check name pass (detail s) s)"
  by (simp add: within_def check_def st_def)

lemma client_round_bound_nonneg: "0 \<le> client_round_bound slack"
  using slack_nonneg by (simp add: client_round_bound_def invoke_bound_nonneg)

lemma chaos_in_time:
  assumes "runnable (rvClient env) opt" and "135 \<le> fuel" and "nat (sint (roDuration opt) div 2000000000) + 2 \<le> fuel"
    and "ns = roNodes opt" and "n = int (length ns)"
  shows "within ns None T 0 (chaos_bound slack n (roDuration opt)) (\<lambda>_. True) (phaseChaos fuel env opt)"
proof -
  let ?B = "client_round_bound slack" and ?D = "max 0 (sint (roDuration opt))"
    and ?h = "21000000000 + 2000000000 * n + 8 * (n * slack) + 10 * slack"
  have opt: "roNodes opt = ns" "ns \<noteq> []" "\<not> roNumKeys opt < 0" "0 < roNumClients opt \<Longrightarrow> 0 < roNumKeys opt"
    using assms(1,4) by (auto simp: runnable_def)
  have rounds: "\<forall>(c, body) \<in> set (map (\<lambda>i. (NewClient (1 + of_nat i) ns, chaos_client fuel env (chaos_keys opt))) [0..<nat (roNumClients opt)]).
      rounds_within time ?B c body"
  proof clarify
    fix c body assume "(c, body) \<in> set (map (\<lambda>i. (NewClient (1 + of_nat i) ns, chaos_client fuel env (chaos_keys opt))) [0..<nat (roNumClients opt)])"
    then have c: "clNodes c = ns" "body = chaos_client fuel env (chaos_keys opt)" "0 < roNumKeys opt"
      using opt(4) by (auto simp: NewClient_def)
    show "rounds_within time ?B c body"
      unfolding rounds_within_def c(2)
      by (intro exI [of _ "\<lambda>c. clNodes c = ns"] conjI allI impI c(1) chaos_client_in_time [OF assms(1,2,4) c(3)])
  qed
  have "tick ns (Some ?B) T 2000000000 ?h (\<lambda>_. True) (fault_round env opt)" for T
  proof (rule tick_within)
    show "within ns (Some ?B) T 2000000000 ?h (\<lambda>(left, a'). True) (fault_round env opt x)" for x
      using fault_round_in_time [OF opt(1,2) assms(5)] by (simp only: case_prod_unfold)
  qed (use slack_nonneg crew_nonneg [of ns] in \<open>auto simp: assms(5)\<close>)
  note poll = within_poll_fuel [OF this deadline_le, where h' = "?D + ?h + 2 * slack"]
  define q where "q = sint (roDuration opt) div 2000000000"
  have "q + 2 \<le> int fuel" using assms(3) unfolding q_def [symmetric] by linarith
  moreover have "sint (roDuration opt) < 2000000000 * (q + 1)" unfolding q_def by simp
  moreover have "2000000000 * (q + 1) \<le> 2000000000 * (int fuel - 1)" using calculation(1) by (intro mult_left_mono) simp_all
  ultimately have "sint (roDuration opt) < 2000000000 * (int fuel - 1)" by (meson less_le_trans)
  then have fuel: "?D < 2000000000 * (int fuel - 1)" using assms(2) by simp
  show ?thesis
    unfolding phaseChaos_def opt(1) if_not_P [OF opt(3)]
    by (intro within_traffic [OF client_round_bound_nonneg rounds] within_now within_seq [OF poll]
        within_seq [OF within_join [OF client_round_bound_nonneg]] within_seq [OF within_heal_all] within_check_at)
      (use slack_nonneg crew_nonneg [of ns] client_round_bound_nonneg fuel in \<open>auto simp: assms(5) chaos_bound_def\<close>)
qed

lemma prompt_fetch: "prompt (int (length ns) * (3000000000 + slack)) (\<lambda>w. snd (fetch_states env ns st0 w))"
proof (induction ns arbitrary: st0)
  case (Cons n ns)
  show ?case unfolding prompt_def
  proof
    fix w
    obtain r w1 where g: "rvGet env (nURL n @ ''/internal/state'') w = (r, w1)" by fastforce
    let ?y = "snd (fetch_states env (n # ns) st0 w)"
    have "?y = w1 \<or> (\<exists>st1. ?y = snd (fetch_states env ns st1 w1))"
      by (auto simp: g split: option.splits prod.splits)
    then have "time w1 \<le> time ?y \<and> time ?y \<le> time w1 + int (length ns) * (3000000000 + slack) \<and> stopping ?y = stopping w1"
      using promptD [OF Cons, of w1] slack_nonneg by auto
    then show "time w \<le> time ?y \<and> time ?y \<le> time w + int (length (n # ns)) * (3000000000 + slack) \<and> stopping ?y = stopping w"
      using get_takes [of w "nURL n @ ''/internal/state''"] get_prompt [of "nURL n @ ''/internal/state''" w]
        get_goes_on [of "nURL n @ ''/internal/state''" w] by (simp add: g algebra_simps)
  qed
qed (simp add: prompt_id)

lemma convergence_in_time:
  assumes "135 \<le> fuel" and "ns = roNodes opt" and "n = int (length ns)"
  shows "within ns None T 0 (convergence_bound slack n) (\<lambda>_. True) (phaseConvergence fuel env opt)"
proof -
  have fetch: "within ns None T 0 (3000000000 * n + n * slack) (\<lambda>_. True) (on_world (fetch_states env (roNodes opt) []))" for T
    using within_on_world [OF prompt_fetch [of ns "[]"], of "\<lambda>_. True" ns None T] by (simp add: assms(2,3) algebra_simps)
  have round: "within ns None T 0 (3000000000 * n + n * slack) (\<lambda>(left, a'). True) (convergence_round env opt a)" for a T
    unfolding convergence_round_def
    by (intro within_prod within_seq [OF fetch] within_if within_seq [OF within_check [OF order_refl TrueI]] within_pure) auto
  have tick: "tick ns None T 2000000000 (3000000000 * n + n * slack + 2000000000 + slack) (\<lambda>_. True)
      (pausing env (2 * Second) (convergence_round env opt))" for T
    using tick_pausing [where I = "\<lambda>_. True" and d = "2 * Second", OF round] crew_nonneg [of ns] by (simp add: seconds assms(3))
  have poll: "within ns None (sint t) 0 (90000000000 + (3000000000 * n + n * slack + 2000000000 + slack) + 2 * slack) (\<lambda>_. True)
      (poll fuel env (t + 90 * Second) (pausing env (2 * Second) (convergence_round env opt)) a)" if "0 \<le> sint t" for t a
    using that assms(1) by (intro within_poll_fuel [OF tick deadline_after _ _ TrueI order_refl]) (auto simp: seconds)
  show ?thesis
    unfolding phaseConvergence_def
    by (intro within_seq [OF within_heal_all] within_now within_seq [OF poll]
        within_prod within_if within_pure within_check TrueI)
      (use assms(1) slack_nonneg crew_nonneg [of ns] in \<open>auto simp: assms(3) seconds convergence_bound_def\<close>)
qed

end

section \<open>A run ends\<close>

context punctual_run begin

text \<open>The three checks: one minute, one minute and five.\<close>

lemma check_limits: "sint (60 * Second) = 60000000000" "sint (300 * Second) = 300000000000"
  by (simp_all add: Second_def Millisecond_def)

lemma timed_check_in_time: "0 < sint t \<Longrightarrow> within ns None T 0 (sint t + slack) (\<lambda>_. True) (timed_check env ops t)"
  using slack_nonneg by (intro withinI) (auto simp: timed_check_def on_world_def st_def dest!: checking_prompt dest: order_trans)

lemma fixture_in_time: "within ns None T 0 0 (\<lambda>_. True) (fixture env opt name)"
  by (intro withinI) (auto simp: fixture_def on_world_def)

lemma visualize_in_time: "within ns None T 0 slack (\<lambda>_. True) (on_world (rvVisualize env p i))"
  using slack_nonneg visualize_prompt
  by (intro withinI) (auto simp: on_world_def st_def case_prod_beta intro: order_trans)

lemma within_option: "within ns b T 0 h R m \<Longrightarrow> (\<And>x. within ns b T 0 h R (f x)) \<Longrightarrow>
    within ns b T 0 h R (case v of None \<Rightarrow> m | Some x \<Rightarrow> f x)"
  by (cases v) simp_all

lemma within_look: "(\<And>x. within ns b T lo hi R (m x)) \<Longrightarrow> within ns b T lo hi R (\<lambda>s. m (f s) s)"
  unfolding within_def by blast

lemma linearizability_in_time: "within ns None T 0 (300000000000 + 2 * slack) (\<lambda>_. True) (phaseLinearizability env opt)"
proof -
  have "within ns None T 0 (300000000000 + 2 * slack) (\<lambda>_. True) (andThen (timed_check env ops (300 * Second)) (\<lambda>res.
      let detail = itoa (length ops) @ '' recorded ops ('' @ itoa (crOps res) @ '' checkable after exclusions)'' in
      if crLinearizable res then check ''history-linearizable'' True detail
      else
        let vizPath = join_path [roOutDir opt, ''linearizability-violation.html''] in
        andThen (on_world (rvVisualize env vizPath (crInfo res))) (\<lambda>created.
        check ''history-linearizable'' False (if created then detail @ ''; violation visualization: '' @ vizPath else detail))))"
    for ops
    unfolding Let_def
    by (intro within_seq [OF timed_check_in_time] within_if within_seq [OF visualize_in_time] within_check TrueI)
      (use slack_nonneg in \<open>auto simp: check_limits\<close>)
  from within_look [OF this, of "\<lambda>s. recOps (rsRec s)"] show ?thesis
    unfolding phaseLinearizability_def [abs_def] Let_def .
qed

lemma finish_in_time: "within ns None T 0 (2 * slack) (\<lambda>_. True) (finish env opt)"
proof (rule withinI)
  fix s assume s: "st ns None T s"
  let ?f = "join_path [roOutDir opt, ''history.jsonl'']" and ?r = "join_path [roOutDir opt, ''report.json'']"
  let ?d = "WriteFile (rvFile env ?f (rsWorld s)) (recOps (rsRec s))"
  let ?w1 = "rvSetFile env ?f (snd ?d) (rsWorld s)"
  have 1: "time (rsWorld s) \<le> time ?w1" "time ?w1 \<le> time (rsWorld s) + slack" using file_prompt by auto
  have 2: "time ?w1 \<le> time (snd (rvWriteFile env ?r b ?w1)) \<and> time (snd (rvWriteFile env ?r b ?w1)) \<le> time ?w1 + slack" for b
    by (rule write_prompt)
  obtain a s' where f: "finish env opt s = Inr (a, s')" and w: "rsFaults s' = rsFaults s"
      "rsWorld s' = ?w1 \<or> (\<exists>b. rsWorld s' = snd (rvWriteFile env ?r b ?w1))"
    by (cases "fst ?d") (auto simp: finish_def Let_def case_prod_beta)
  have "time (rsWorld s) \<le> time (rsWorld s')" "time (rsWorld s') \<le> time (rsWorld s) + 2 * slack"
    using w(2) 1 2 slack_nonneg by (auto dest: order_trans) (smt (verit))+
  then show "\<exists>a s'. finish env opt s = Inr (a, s') \<and> True \<and> st ns None T s' \<and>
      time (rsWorld s) + 0 \<le> time (rsWorld s') \<and> time (rsWorld s') \<le> time (rsWorld s) + 2 * slack"
    using f w(1) s by (auto simp: st_def)
qed (use slack_nonneg in auto)

lemma self_test_in_time: "within ns None T 0 (120000000000 + 2 * slack) (\<lambda>_. True) (phaseCheckerSelfTest env opt)"
  unfolding phaseCheckerSelfTest_def Let_def
  by (intro within_seq [OF fixture_in_time] within_prod within_option within_seq [OF timed_check_in_time]
      within_seq [OF within_check [OF order_refl TrueI]] within_check TrueI)
    (use slack_nonneg in \<open>auto simp: check_limits\<close>)

lemma phases_in_time:
  assumes "runnable (rvClient env) opt" and "135 \<le> fuel" and "nat (sint (roDuration opt) div 2000000000) + 2 \<le> fuel"
  shows "within (roNodes opt) None T 0 (run_bound slack opt - slack) (\<lambda>_. True) (run_phases fuel env opt)"
proof -
  define ns where "ns = roNodes opt"
  define n where "n = int (length ns)"
  have N: "0 \<le> n" "0 \<le> n * slack" using crew_nonneg [of ns] by (simp_all add: n_def)
  note opt = assms ns_def n_def
  let ?r = "reset_bound slack opt" and ?s = "smoke_bound slack opt" and ?c = "contention_bound slack"
  let ?f = "durability_bound slack n + minority_bound slack n + chaos_bound slack n (roDuration opt) + convergence_bound slack n"
  have pos: "0 \<le> ?r" "0 \<le> ?s" "0 \<le> ?c" "0 \<le> durability_bound slack n" "0 \<le> minority_bound slack n"
    "0 \<le> chaos_bound slack n (roDuration opt)" "0 \<le> convergence_bound slack n"
    using N slack_nonneg client_round_bound_nonneg
    by (simp_all add: reset_bound_def smoke_bound_def contention_bound_def durability_bound_def minority_bound_def chaos_bound_def
        convergence_bound_def invoke_bound_nonneg)
  note reset = reset_in_time [OF assms(1,2), folded ns_def] and smoke = smoke_in_time [OF assms(1,2), folded ns_def]
    and contention = contention_in_time [OF assms(1,2), folded ns_def]
  have faults: "within ns None T 0 ?f (\<lambda>_. True) (fault_phases fuel env opt)" for T
    unfolding fault_phases_def
    by (intro within_seq [OF durability_in_time [OF assms(1,2) ns_def n_def]] within_seq [OF minority_in_time [OF assms(1,2) ns_def n_def]]
        within_seq [OF chaos_in_time [OF opt]] within_mono [OF convergence_in_time [OF assms(2) ns_def n_def]])
      (use pos in auto)
  let ?F = "if roSkipFaults opt then 0 else ?f"
  have maybe: "within ns None T 0 ?F (\<lambda>_. True) (if \<not> roSkipFaults opt then fault_phases fuel env opt else pure ())" for T
    using faults by (auto intro: within_pure)
  have F: "0 \<le> ?F" using pos by simp
  have rest: "within ns None T 0 (?r + ?s + ?c + ?F + 300000000000 + 4 * slack) (\<lambda>_. True)
      (andThen (phaseReset fuel env opt) (\<lambda>_. andThen (phaseSmoke fuel env opt) (\<lambda>_. andThen (phaseCASContention fuel env opt) (\<lambda>_.
       andThen (if \<not> roSkipFaults opt then fault_phases fuel env opt else pure ()) (\<lambda>_.
       andThen (phaseLinearizability env opt) (\<lambda>_. finish env opt))))))"
    by (intro within_seq [OF reset] within_seq [OF smoke] within_seq [OF contention] within_seq [OF maybe]
        within_seq [OF linearizability_in_time] within_mono [OF finish_in_time])
      (use pos F slack_nonneg in auto)
  have total: "run_bound slack opt - slack = ?r + ?s + ?c + ?F + 420000000000 + 6 * slack"
    by (simp add: run_bound_def Let_def ns_def n_def)
  have branch: "within ns None T 0 h R (\<lambda>s. if failed (rsReport s) then m s else m' s)"
    if "within ns None T 0 h R m" "within ns None T 0 h R m'" for h R and m m' :: "(('w, 't) run_state, os_err + 't report) phase"
    using that unfolding within_def by auto
  show ?thesis
    unfolding run_phases_def total ns_def [symmetric]
    by (intro within_seq [OF self_test_in_time] branch within_mono [OF finish_in_time] within_mono [OF rest])
      (use pos F slack_nonneg in auto)
qed

lemma Run_in_time:
  assumes "runnable (rvClient env) opt" and "135 \<le> fuel" and "nat (sint (roDuration opt) div 2000000000) + 2 \<le> fuel"
    and "0 \<le> time w" and "time w + run_bound slack opt < max_int64"
  shows "\<exists>r s. Run fuel env opt w = Inr (r, s) \<and> time (rsWorld s) \<le> time w + run_bound slack opt"
proof -
  obtain e w1 where mk: "rvMkdirAll env (roOutDir opt) w = (e, w1)" by fastforce
  then have w1: "time w \<le> time w1" "time w1 \<le> time w + slack" using mkdir_prompt [of w "roOutDir opt"] by auto
  let ?s = "(start_state env opt w)\<lparr>rsWorld := w1\<rparr>"
  have st: "st (roNodes opt) None 0 ?s" using w1 assms(4) by (simp add: st_def start_state_def)
  have t: "time (rsWorld ?s) + (run_bound slack opt - slack) < max_int64" using w1(2) assms(5) by simp
  from withinE [OF phases_in_time [OF assms(1-3)] st t] obtain r s where
    r: "run_phases fuel env opt ?s = Inr (r, s)" "time (rsWorld s) \<le> time (rsWorld ?s) + (run_bound slack opt - slack)" .
  from phases_in_time [OF assms(1-3), of 0] have "0 \<le> run_bound slack opt - slack" by (auto simp: within_def)
  with r w1 show ?thesis by (cases e) (auto simp: Run_def mk)
qed

end

section \<open>The rig is punctual\<close>

lemma one_by_one_within:
  assumes "0 \<le> B" and "\<forall>f \<in> set fs. action_within time B (\<lambda>_. True) f"
  shows "action_within time (int (length fs) * B) (\<lambda>_. True) (one_by_one fs)"
  using assms(2)
proof (induction fs)
  case (Cons f fs)
  show ?case unfolding action_within_def
  proof (intro allI impI)
    fix r w assume w: "0 \<le> time w" "time w + int (length (f # fs)) * B < max_int64"
    have L: "0 \<le> int (length fs) * B" "int (length (f # fs)) * B = B + int (length fs) * B"
      using assms(1) by (simp_all add: algebra_simps)
    with w have "time w + B < max_int64" by linarith
    from Cons.prems have f: "action_within time B (\<lambda>_. True) f" by simp
    from f [unfolded action_within_def, rule_format, OF w(1) \<open>time w + B < max_int64\<close>] obtain a r1 w1 where
      1: "f r w = Inr (a, r1, w1)" "time w \<le> time w1" "time w1 \<le> time w + B" by blast
    have w1: "0 \<le> time w1" "time w1 + int (length fs) * B < max_int64" using w 1(2,3) L by linarith+
    from Cons have fs: "action_within time (int (length fs) * B) (\<lambda>_. True) (one_by_one fs)" by simp
    from fs [unfolded action_within_def, rule_format, OF w1] obtain as r2 w2 where
      "one_by_one fs r1 w1 = Inr (as, r2, w2)" "time w1 \<le> time w2" "time w2 \<le> time w1 + int (length fs) * B" by blast
    with 1 L show "\<exists>as r' w'. one_by_one (f # fs) r w = Inr (as, r', w') \<and> True \<and> time w \<le> time w' \<and>
        time w' \<le> time w + int (length (f # fs)) * B" by simp
  qed
qed (simp add: action_within_def)

lemma ticking_punctual: "punctual_run (ticking l) (\<lambda>w. int (rgTime w)) 0 (\<lambda>_. 0)"
proof (intro punctual_run.intro prompt_clock.intro ticking.timed_run_axioms ticking_clock)
  show "prompt_clock_axioms (rvClient (ticking l)) (\<lambda>w. int (rgTime w)) 0"
  proof
    show "int (rgTime w') \<le> max (int (rgTime w)) (sint ctx) + 0" if "ceDo (rvClient (ticking l)) ctx q w = (out, w')" for ctx q w out w'
      using that by (auto simp: ticking_def rig_client_def rig_do_def split: option.splits sum.splits)
  qed (auto simp: ticking_def rig_client_def)
  show "punctual_run_axioms (ticking l) (\<lambda>w. int (rgTime w)) 0 (\<lambda>_. 0)"
  proof
    show "action_within (\<lambda>w. int (rgTime w)) (int (length fs) * B + 0) (\<lambda>_. True) (rvContend (ticking l) fs)"
      if "0 \<le> B" "\<forall>f \<in> set fs. action_within (\<lambda>w. int (rgTime w)) B (\<lambda>_. True) f" for fs B
      using one_by_one_within [OF that] by (simp add: ticking_def rig_env_def)
  qed (auto simp: ticking_def rig_env_def rig_fault_def case_prod_beta)
qed

interpretation punctual: punctual_run "ticking l" "\<lambda>w. int (rgTime w)" 0 "\<lambda>_. 0" for l
  by (rule ticking_punctual)

section \<open>Every run ends\<close>

text \<open>C37: Every run ends, in bounded time. In a world whose calls return in time, with nodes of at least two names,
  a workload that has keys, and valid URLs, no client and no phase panics, and 135 rounds, or one for every two seconds of the
  chaos phase, are enough for every loop: the run returns within the time that adds up from its deadlines.\<close>

theorem Run_ends:
  assumes "punctual_run env time slack stopping" and "runnable (rvClient env) opt"
    and "135 \<le> fuel" and "nat (sint (roDuration opt) div 2000000000) + 2 \<le> fuel"
    and "0 \<le> time w" and "time w + run_bound slack opt < max_int64"
  shows "\<exists>r s. Run fuel env opt w = Inr (r, s) \<and> time (rsWorld s) \<le> time w + run_bound slack opt"
  using punctual_run.Run_in_time [OF assms] .

definition full_opts :: run_options where
  "full_opts = rig_opts\<lparr>roNumClients := 8, roNumKeys := 8, roSkipFaults := False\<rparr>"

theorem Run_ends_witness:
  "\<exists>r s. Run 135 (ticking ''node2'') full_opts rig_world = Inr (r, s) \<and> int (rgTime (rsWorld s)) \<le> 2120000000000"
proof -
  have b: "run_bound 0 full_opts \<le> 2120000000000"
    by (simp add: full_opts_def rig_opts_def default_nodes_def run_bound_def reset_bound_def smoke_bound_def contention_bound_def
        durability_bound_def minority_bound_def chaos_bound_def convergence_bound_def client_round_bound_def invoke_bound_def
        reset_keys_def Second_def Millisecond_def upt_rec)
  have "runnable (rvClient (ticking ''node2'')) full_opts"
    by (simp add: runnable_def full_opts_def rig_opts_def default_nodes_def ticking_def rig_client_def list_all_iff)
  from Run_ends [OF ticking_punctual this, of 135 rig_world] b show ?thesis
    by (fastforce simp: rig_world_def full_opts_def rig_opts_def Second_def Millisecond_def)
qed

end
