(* ===== verification/Fair.thy ===== *)
theory Fair
  imports Rig Replica
begin

text \<open>
  The harness never blames a correct store. A correct store executes the commands of the
  operations it accepted, one after the other, each between its call and its answer (after its call, when
  no answer came), answers with the state machine's results, and executes nothing of an
  operation that failed. A history recorded against such a store is linearizable, so no checker that
  keeps Porcupine's contract rejects it. With the meaning of a verdict (\<open>Checker\<close>) this says that
  the check is exact.
\<close>

section \<open>Histories of a correct store\<close>

text \<open>What an operation may have been told when its command was executed at the time \<open>t\<close> with the result \<open>r\<close>.\<close>

definition told :: "hop \<Rightarrow> result \<Rightarrow> int \<Rightarrow> bool" where
  "told op r t \<longleftrightarrow> sint (hStartNs op) \<le> t \<and>
     (hOutcome op = OutcomeUnknown \<or>
      hOutcome op = OutcomeOK \<and> t \<le> sint (hEndNs op) \<and> hOk op = rOk r \<and> hPresent op = rPresent r \<and> hRetVal op = rValue r)"

text \<open>Operations as the client makes them, with an outcome as it records it.\<close>

definition proper :: "hop \<Rightarrow> bool" where
  "proper op \<longleftrightarrow> (mutation op \<or> hOp op = OpGet) \<and> command_valid (hop_command op) \<and>
     hOutcome op \<in> set [OutcomeOK, OutcomeFailed, OutcomeUnknown]"

text \<open>What an earlier run left in the store is not read: the first command on a key the store holds overwrites
  or deletes it.\<close>

definition wipes_first :: "fsm \<Rightarrow> command list \<Rightarrow> bool" where
  "wipes_first f cs \<longleftrightarrow> list_all (\<lambda>k. fsm_get f k = None \<or>
     (case find (\<lambda>c. cKey c = k) cs of Some c \<Rightarrow> cOp c \<in> set [OpPut, OpDelete] | None \<Rightarrow> True)) (map cKey cs)"

text \<open>\<open>tr\<close> is the log of the store, which was \<open>f0\<close> at first: the times of execution and the operations, by their
  place in the history.\<close>

definition served_history :: "fsm \<Rightarrow> hop list \<Rightarrow> (int \<times> nat) list \<Rightarrow> bool" where
  "served_history f0 ops tr \<longleftrightarrow> fData f0 \<noteq> NilMap \<and> wipes_first f0 (map (\<lambda>(t, i). hop_command (ops ! i)) tr) \<and> list_all proper ops \<and> sorted (map fst tr) \<and> distinct (map snd tr) \<and>
     list_all (\<lambda>(t, i). i < length ops) tr \<and>
     list_all (\<lambda>i. hOutcome (ops ! i) = OutcomeOK \<longrightarrow> i \<in> set (map snd tr)) [0..<length ops] \<and>
     (case replay Apply f0 (map (\<lambda>(t, i). Encode (hop_command (ops ! i))) tr) of
        Inl p \<Rightarrow> False
      | Inr (rs, f) \<Rightarrow> list_all2 (\<lambda>(t, i) r. told (ops ! i) r t) tr rs)"

lemma proper_known: "proper op \<Longrightarrow> known_op (hop_command op)"
  by (auto simp: proper_def mutation_def known_op_def hop_command_def)

lemma apply_proper: "proper op \<Longrightarrow> Apply f (Encode (hop_command op)) = apply_command f (hop_command op)"
  by (simp add: Apply_def decode_encode_valid proper_def)

section \<open>An order of the operations\<close>

lemma to_operation_input: "a \<in> set (to_operation h op) \<Longrightarrow> op_command (opInput a) = hop_command op"
  by (auto simp: to_operation_def op_command_def hop_command_def Let_def split: if_splits)

lemma to_operation_short: "to_operation h op = [] \<or> (\<exists>a. to_operation h op = [a])"
  by (auto simp: to_operation_def Let_def)

text \<open>A command that was executed explains what its operation was told; one that \<open>ToOperations\<close> drops
  was a read.\<close>

lemma told_explains:
  assumes "proper op" and "told op r t" and "apply_command f (hop_command op) = Inr (r, f')"
  shows "\<forall>a \<in> set (to_operation h op). explains (opInput a) r (opOutput a)" and "to_operation h op = [] \<Longrightarrow> f' = f"
proof -
  show "\<forall>a \<in> set (to_operation h op). explains (opInput a) r (opOutput a)"
    using assms(1,2)
    by (auto simp: to_operation_def explains_def told_def proper_def op_defs mutation_def outcome_defs Let_def split: if_splits)
  assume "to_operation h op = []"
  then have "hOp op = OpGet"
    using assms(1,2) by (auto simp: to_operation_def told_def proper_def outcome_defs op_defs Let_def split: if_splits)
  then show "f' = f"
    using assms(3) by (auto simp: apply_command_def hop_command_def op_defs Let_def split: option.splits)
qed

lemma unknown_explained:
  assumes "fData f \<noteq> NilMap" and "list_all (\<lambda>a. oUnknown (opOutput a) \<and> iOp (opInput a) \<in> {OpPut, OpDelete, OpCAS}) l"
  shows "fsm_explains f l"
  using assms
proof (induction l arbitrary: f)
  case (Cons a l)
  then have "known_op (op_command (opInput a))" by (auto simp: known_op_def op_command_def)
  from apply_command_spec [OF Cons.prems(1) this] obtain f' where
    "apply_command f (op_command (opInput a)) = Inr (spec_result (op_command (opInput a)) (fsm_get f), f')" "fData f' \<noteq> NilMap"
    by blast
  with Cons show ?case by (auto simp: explains_def op_defs)
qed simp

lemma executed_explained:
  assumes "replay apply_command f (map hop_command es) = Inr (rs, f')" and "list_all proper es"
    and "list_all2 (\<lambda>(t, op) r. told op r t) (zip ts es) rs" and "length ts = length es" and "fData f \<noteq> NilMap"
    and "\<And>f. fData f \<noteq> NilMap \<Longrightarrow> fsm_explains f l"
  shows "fsm_explains f (concat (map (to_operation h) es) @ l)"
  using assms(1-5)
proof (induction es arbitrary: f rs ts)
  case (Cons op es)
  from Cons.prems(1) [simplified list.map] obtain r f1 rs1 where 1: "apply_command f (hop_command op) = Inr (r, f1)"
    "replay apply_command f1 (map hop_command es) = Inr (rs1, f')" "rs = r # rs1"
    by (rule replay_Cons_InrE)
  from Cons.prems(4) obtain t ts1 where ts: "ts = t # ts1" "length ts1 = length es" by (cases ts) auto
  have p: "proper op" "list_all proper es" and told: "told op r t" "list_all2 (\<lambda>(t, op) r. told op r t) (zip ts1 es) rs1"
    using Cons.prems(2,3) 1(3) ts by auto
  have nn: "fData f1 \<noteq> NilMap"
    using apply_command_spec [OF Cons.prems(5) proper_known [OF p(1)]] 1(1) by auto
  note rest = Cons.IH [OF 1(2) p(2) told(2) ts(2) nn]
  note e = told_explains [OF p(1) told(1) 1(1), of h]
  from to_operation_short [of h op] show ?case
  proof
    assume "to_operation h op = []"
    with e(2) rest show ?thesis by simp
  next
    assume "\<exists>a. to_operation h op = [a]"
    then obtain a where a: "to_operation h op = [a]" ..
    with e(1) rest 1(1) to_operation_input [of a h op] show ?thesis by simp
  qed
qed (use assms(6) in simp)

lemma mset_concat_map: "mset xs = mset ys \<Longrightarrow> mset (concat (map g xs)) = mset (concat (map g ys))"
  by (simp add: mset_concat comp_def) (metis mset_map sum_mset_sum_list)

lemma unexecuted_unknown:
  assumes "proper op" and "hOutcome op \<noteq> OutcomeOK" and "a \<in> set (to_operation h op)"
  shows "oUnknown (opOutput a) \<and> iOp (opInput a) \<in> {OpPut, OpDelete, OpCAS} \<and> opReturn a = h"
  using assms by (auto simp: to_operation_def proper_def mutation_def outcome_defs op_defs Let_def split: if_splits)

text \<open>When an operation took effect: executed ones at their time.\<close>

lemma executed_in_time:
  assumes "told op r t" and "a \<in> set (to_operation h op)"
  shows "sint (opCall a) \<le> t" and "opReturn a = h \<or> t \<le> sint (opReturn a)"
  using assms by (auto simp: to_operation_def told_def outcome_defs Let_def split: if_splits)

lemma real_time_concat:
  assumes "sorted_wrt R xs" and "\<And>x y a b. R x y \<Longrightarrow> x \<in> set xs \<Longrightarrow> y \<in> set xs \<Longrightarrow> a \<in> set (g x) \<Longrightarrow> b \<in> set (g y) \<Longrightarrow> may_follow a b"
    and "\<And>x. x \<in> set xs \<Longrightarrow> real_time (g x)"
  shows "real_time (concat (map g xs))"
  using assms
proof (induction xs)
  case (Cons x xs)
  have "real_time (concat (map g xs))"
    by (rule Cons.IH) (use Cons.prems in auto)
  moreover have "\<forall>a \<in> set (g x). \<forall>b \<in> set (concat (map g xs)). may_follow a b"
    using Cons.prems(1,2) by fastforce
  ultimately show ?case using Cons.prems(3) [of x] by (auto simp: real_time_def sorted_wrt_append)
qed (simp add: real_time_def)

lemma real_time_to_operation: "real_time (to_operation h op)"
  using to_operation_short [of h op] by (auto simp: real_time_def)

lemma replay_cong:
  assumes "\<And>x s. x \<in> set xs \<Longrightarrow> ap s (e x) = ap' s (e' x)"
  shows "replay ap s (map e xs) = replay ap' s (map e' xs)"
  using assms by (induction xs arbitrary: s) (simp_all split: sum.splits)

lemma unknown_accepted:
  "list_all (\<lambda>a. oUnknown (opOutput a) \<and> iOp (opInput a) \<in> {OpPut, OpDelete, OpCAS}) l \<Longrightarrow> accepts Model_Step st l"
  by (induction l arbitrary: st) (use unknown_mutation_accepted in \<open>auto simp: case_prod_beta\<close>)

text \<open>A history that an old store explains is explained by an empty one, if every key is overwritten or deleted
  before it is used otherwise.\<close>

lemma wiped_explained:
  assumes "fsm_explains f (l1 @ l2)" and "fData f \<noteq> NilMap"
    and "\<And>k a l. key_ops k l1 = a # l \<Longrightarrow> fsm_get f k = None \<or> iOp (opInput a) \<in> {OpPut, OpDelete}"
    and "list_all (\<lambda>a. oUnknown (opOutput a) \<and> iOp (opInput a) \<in> {OpPut, OpDelete, OpCAS}) l2"
  shows "fsm_explains NewFSM (l1 @ l2)"
  unfolding fsm_explains_NewFSM
proof
  fix k
  from assms(1) have old: "accepts Model_Step (kv_at f k) (key_ops k l1 @ key_ops k l2)"
    using fsm_explains_keys [OF assms(2)] by (metis key_ops_simps(3))
  show "accepts Model_Step zero_state (key_ops k (l1 @ l2))"
  proof (cases "key_ops k l1")
    case Nil
    then show ?thesis using assms(4) by (auto intro!: unknown_accepted simp: key_ops_def list_all_iff)
  next
    case (Cons a l)
    from assms(3) [OF this] show ?thesis
    proof
      assume "fsm_get f k = None"
      then have "kv_at f k = zero_state" by (simp add: kv_at_def)
      with old show ?thesis by simp
    next
      assume "iOp (opInput a) \<in> {OpPut, OpDelete}"
      then have "Model_Step st (opInput a) (opOutput a) = Model_Step zero_state (opInput a) (opOutput a)" for st
        by (auto simp: Model_Step_def op_defs)
      with old Cons show ?thesis by (metis accepts.simps(2) append_Cons key_ops_simps(3))
    qed
  qed
qed

lemma first_operation:
  assumes "key_ops k (concat (map (to_operation h) es)) = a # l" and "list_all (\<lambda>op. hOutcome op \<noteq> OutcomeFailed) es"
  shows "\<exists>op. find (\<lambda>op. hKey op = k) es = Some op \<and> (hOp op \<in> {OpPut, OpDelete} \<longrightarrow> iOp (opInput a) = hOp op)"
  using assms
proof (induction es)
  case (Cons op es)
  have keys: "key_ops k (to_operation h op) = (if hKey op = k then to_operation h op else [])"
    using to_operation_cases(2) [of _ h op] by (auto simp: key_ops_def filter_empty_conv intro: filter_True)
  show ?case
  proof (cases "hKey op = k")
    case True
    have "to_operation h op = [b] \<Longrightarrow> iOp (opInput b) = hOp op" for b using to_operation_cases(3) [of b h op] by simp
    moreover have "hOp op \<in> {OpPut, OpDelete} \<Longrightarrow> to_operation h op \<noteq> []"
      using Cons.prems(2) by (auto simp: to_operation_def op_defs Let_def)
    ultimately show ?thesis using True Cons.prems(1) keys to_operation_short [of h op] by auto
  next
    case False
    with Cons keys show ?thesis by simp
  qed
qed simp

lemma find_map: "find P (map f xs) = map_option f (find (P \<circ> f) xs)"
  by (induction xs) simp_all

lemma wipes_first_operation:
  assumes "wipes_first f (map hop_command es)" and "key_ops k (concat (map (to_operation h) es)) = a # l"
    and "list_all (\<lambda>op. hOutcome op \<noteq> OutcomeFailed) es"
  shows "fsm_get f k = None \<or> iOp (opInput a) \<in> {OpPut, OpDelete}"
proof -
  from first_operation [OF assms(2,3)] obtain op where op: "find (\<lambda>op. hKey op = k) es = Some op"
    "hOp op \<in> {OpPut, OpDelete} \<longrightarrow> iOp (opInput a) = hOp op" by blast
  have "cKey (hop_command op) = hKey op" for op by (simp add: hop_command_def)
  then have "find (\<lambda>c. cKey c = k) (map hop_command es) = Some (hop_command op)"
    using op(1) by (simp add: find_map comp_def)
  moreover have "k \<in> set (map cKey (map hop_command es))"
    using op(1) by (auto simp: find_Some_iff hop_command_def)
  ultimately have "fsm_get f k = None \<or> hOp op \<in> {OpPut, OpDelete}"
    using assms(1) by (fastforce simp: wipes_first_def list_all_iff hop_command_def)
  with op(2) show ?thesis by auto
qed

lemma served_order:
  assumes "served_history f0 ops tr" and "recordable ops"
  shows "\<exists>l. fsm_order (ToOperations ops) l"
proof -
  define h where "h = max_end ops + 1"
  define rest where "rest = filter (\<lambda>i. i \<notin> set (map snd tr)) [0..<length ops]"
  let ?at = "\<lambda>i. to_operation h (ops ! i)"
  let ?l1 = "concat (map (?at \<circ> snd) tr)" and ?l2 = "concat (map ?at rest)"
  from assms(1) have P: "list_all proper ops" and srt: "sorted (map fst tr)" and dist: "distinct (map snd tr)"
    and bound: "\<And>t i. (t, i) \<in> set tr \<Longrightarrow> i < length ops"
    and ok: "\<And>i. i < length ops \<Longrightarrow> hOutcome (ops ! i) = OutcomeOK \<Longrightarrow> i \<in> set (map snd tr)"
    by (auto simp: served_history_def list_all_iff)
  from assms(1) obtain rs f where run: "replay Apply f0 (map (\<lambda>(t, i). Encode (hop_command (ops ! i))) tr) = Inr (rs, f)"
    and told: "list_all2 (\<lambda>(t, i) r. told (ops ! i) r t) tr rs"
    by (auto simp: served_history_def split: sum.splits)
  have right: "proper (ops ! i)" if "i < length ops" for i using P that by (simp add: list_all_length)
  have was_told: "\<exists>r. told (ops ! i) r t" if "(t, i) \<in> set tr" for t i
    using told that by (auto simp: list_all2_conv_all_nth in_set_conv_nth) (metis (mono_tags, lifting) case_prod_conv)
  have idle: "i < length ops" "hOutcome (ops ! i) \<noteq> OutcomeOK" if "i \<in> set rest" for i
    using that ok [of i] by (auto simp: rest_def)
  have late: "sint (opCall a) < sint h" if "i < length ops" "a \<in> set (?at i)" for i a
    using horizon_after [OF assms(2), of "ops ! i"] to_operation_cases(1) [OF that(2)] that(1) by (simp add: h_def)
  have "fsm_explains NewFSM (?l1 @ ?l2)"
  proof -
    let ?es = "map (\<lambda>(t, i). ops ! i) tr"
    from assms(1) have f0: "fData f0 \<noteq> NilMap" and wf: "wipes_first f0 (map hop_command ?es)"
      by (simp_all add: served_history_def case_prod_unfold comp_def)
    have es: "list_all proper ?es" using bound right by (auto simp: list_all_iff)
    have "Apply s (Encode (hop_command (ops ! snd x))) = apply_command s (hop_command (ops ! snd x))" if "x \<in> set tr" for x s
      using that bound [of "fst x" "snd x"] right by (intro apply_proper) simp
    from replay_cong [of tr Apply "\<lambda>x. Encode (hop_command (ops ! snd x))" apply_command "\<lambda>x. hop_command (ops ! snd x)", OF this] run
    have "replay apply_command f0 (map hop_command ?es) = Inr (rs, f)"
      by (simp add: comp_def case_prod_unfold)
    moreover have "list_all2 (\<lambda>(t, op) r. told op r t) (zip (map fst tr) ?es) rs"
      using told by (simp add: zip_map_map map_zip_map2 list_all2_map1 zip_same_conv_map case_prod_unfold comp_def)
    moreover have "fsm_explains g ?l2" if "fData g \<noteq> NilMap" for g
      using idle right unexecuted_unknown by (intro unknown_explained that) (fastforce simp: list_all_iff)
    ultimately have "fsm_explains f0 (concat (map (to_operation h) ?es) @ ?l2)"
      by (intro executed_explained [OF _ es]) (auto simp: f0)
    moreover have "list_all (\<lambda>op. hOutcome op \<noteq> OutcomeFailed) ?es"
      using was_told by (fastforce simp: list_all_iff told_def outcome_defs)
    moreover have "list_all (\<lambda>a. oUnknown (opOutput a) \<and> iOp (opInput a) \<in> {OpPut, OpDelete, OpCAS}) ?l2"
      using idle right unexecuted_unknown by (fastforce simp: list_all_iff)
    ultimately have "fsm_explains NewFSM (concat (map (to_operation h) ?es) @ ?l2)"
      using wiped_explained [OF _ f0] wipes_first_operation [OF wf] by blast
    then show ?thesis by (simp add: comp_def case_prod_unfold)
  qed
  moreover have "real_time (?l1 @ ?l2)"
  proof -
    have "real_time ?l1"
    proof (rule real_time_concat [where R = "\<lambda>x y. fst x \<le> fst y"])
      show "sorted_wrt (\<lambda>x y. fst x \<le> fst y) tr" using srt by (simp add: sorted_map)
      fix x y a b assume "fst x \<le> fst y" "x \<in> set tr" "y \<in> set tr" "a \<in> set ((?at \<circ> snd) x)" "b \<in> set ((?at \<circ> snd) y)"
      moreover obtain t i u j where "x = (t, i)" "y = (u, j)" by (cases x, cases y)
      ultimately have x: "t \<le> u" "(t, i) \<in> set tr" "(u, j) \<in> set tr" "a \<in> set (?at i)" "b \<in> set (?at j)" by auto
      from was_told [OF x(2)] was_told [OF x(3)] obtain r r' where "told (ops ! i) r t" "told (ops ! j) r' u" by blast
      with executed_in_time [OF _ x(4)] executed_in_time [OF _ x(5)] late [OF bound [OF x(2)] x(4)] x(1)
      show "may_follow a b" unfolding may_follow_def by fastforce
    qed (simp add: real_time_to_operation)
    moreover have "real_time ?l2"
    proof (rule real_time_concat [where R = "\<lambda>_ _. True"])
      fix i j a b assume "i \<in> set rest" "j \<in> set rest" "a \<in> set (?at i)" "b \<in> set (?at j)"
      then show "may_follow a b"
        using late [of i a] unexecuted_unknown [of "ops ! j" b h] right idle [of i] idle [of j] by (simp add: may_follow_def)
    qed (simp_all add: real_time_to_operation sorted_wrt_iff_nth_less)
    moreover have "may_follow a b" if "a \<in> set ?l1" "b \<in> set ?l2" for a b
    proof -
      from that obtain t i j where i: "(t, i) \<in> set tr" "a \<in> set (?at i)" and "j \<in> set rest" "b \<in> set (?at j)" by auto
      then show ?thesis
        using late [OF bound [OF i(1)] i(2)] unexecuted_unknown [of "ops ! j" b h] right idle [of j] by (simp add: may_follow_def)
    qed
    ultimately show ?thesis by (auto simp: real_time_def sorted_wrt_append)
  qed
  moreover have "mset (?l1 @ ?l2) = mset (ToOperations ops)"
  proof -
    have "set (map snd tr @ rest) = {0..<length ops}" using bound by (auto simp: rest_def)
    moreover have "distinct (map snd tr @ rest)" using dist by (auto simp: rest_def)
    ultimately have "mset (map snd tr @ rest) = mset [0..<length ops]"
      by (metis atLeastLessThan_upt distinct_upt set_eq_iff_mset_eq_distinct)
    from mset_concat_map [OF this, of ?at] have "mset (?l1 @ ?l2) = mset (concat (map ?at [0..<length ops]))" by simp
    also have "map ?at [0..<length ops] = map (to_operation h) ops" by (rule nth_equalityI) simp_all
    finally show ?thesis by (simp add: ToOperations_def h_def Let_def comp_def)
  qed
  ultimately show ?thesis unfolding fsm_order_def by blast
qed

lemma served_passes:
  assumes "porcupine_contract Model porc" and "recordable ops" and "served_history f0 ops tr"
  shows "fst (porc Model (ToOperations ops) t) \<noteq> CheckIllegal \<and>
    (crLinearizable (Check porc ops t) \<longleftrightarrow> fst (porc Model (ToOperations ops) t) \<noteq> CheckUnknown)"
proof -
  have "linearizable Model (ToOperations ops)"
    using served_order [OF assms(3,2)] linearizable_if_order by blast
  with Check_decides(2) [OF assms(1,2), of t] show ?thesis
    by (cases "fst (porc Model (ToOperations ops) t)") (auto simp: Check_fields)
qed

section \<open>The check is exact\<close>

text \<open>C9: The harness never blames a correct store, whatever the faults did to its clients and whatever it held before, as long as what it
  held is overwritten or deleted first, as the reset phase does: a history whose answers are
  the state machine's results for commands executed between call and answer, whose unanswered operations
  were executed once after their call or never, and whose failed operations were not executed, is linearizable;
  no checker that keeps Porcupine's contract rejects it, and unless its search timed out the check passes.\<close>

theorem correct_store_passes:
  assumes "porcupine_contract Model porc" and "recordable ops" and "served_history f0 ops tr"
  shows "fst (porc Model (ToOperations ops) t) \<noteq> CheckIllegal \<and>
    (crLinearizable (Check porc ops t) \<longleftrightarrow> fst (porc Model (ToOperations ops) t) \<noteq> CheckUnknown)"
  using assms by (rule served_passes)

text \<open>The deletes of the reset phase come first, and every key of the workload is among them.\<close>

lemma reset_wipes:
  assumes "set (map cKey cs) \<subseteq> set (reset_keys opt)"
  shows "wipes_first f (map (\<lambda>k. hop_command (client_op 999 ''delete'' k '''')) (reset_keys opt) @ cs)"
proof -
  let ?d = "\<lambda>k. hop_command (client_op 999 ''delete'' k '''')"
  have d: "cKey (?d k) = k" "cOp (?d k) = OpDelete" for k by (simp_all add: hop_command_def client_op_def zero_hop_def op_defs)
  have "find (\<lambda>c. cKey c = k) (map ?d ks @ cs) = Some (?d k)" if "k \<in> set ks" for k ks
    using that d by (induction ks) auto
  with assms d show ?thesis by (auto simp: wipes_first_def list_all_iff)
qed

text \<open>A store that an earlier run used. A put whose answer was lost is executed between two overlapping operations, and read; a failed
  delete and a lost swap are not executed.\<close>

definition lossy :: "hop list" where
  "lossy = [put_op 1 ''a'' 10 40 OutcomeOK, put_op 2 ''b'' 12 20 OutcomeUnknown, get_op 3 ''b'' 30 60,
     (put_op 4 '''' 50 70 OutcomeFailed)\<lparr>hOp := ''delete''\<rparr>, (cas_op 5 ''b'' ''c'' 65 80)\<lparr>hOutcome := OutcomeUnknown\<rparr>]"

lemma lossy_recordable: "recordable lossy"
  by code_simp

lemma lossy_proper: "list_all proper lossy"
  by (simp add: lossy_def proper_def put_op_def get_op_def cas_op_def mutation_def op_defs outcome_defs command_valid_def
      hop_command_def to_valid_plain plain_char_def)

definition used_store :: fsm where
  "used_store = \<lparr>fData = GoMap (fmupd ''k'' ''z'' fmempty)\<rparr>"

lemma lossy_served: "served_history used_store lossy [(15 :: int, 0 :: nat), (35, 1), (45, 2)]"
proof -
  have "replay apply_command used_store (map (hop_command \<circ> (!) lossy) [0, 1, 2]) =
      Inr ([zero_result\<lparr>rOk := True\<rparr>, zero_result\<lparr>rOk := True\<rparr>, \<lparr>rOk = True, rPresent = True, rValue = ''b''\<rparr>],
        \<lparr>fData = GoMap (fmupd ''k'' ''b'' (fmupd ''k'' ''a'' (fmupd ''k'' ''z'' fmempty)))\<rparr>)"
    by (simp add: lossy_def put_op_def get_op_def hop_command_def apply_command_def op_defs used_store_def gomap_get_def zero_result_def)
  moreover have "replay Apply used_store (map (\<lambda>x. Encode (hop_command (lossy ! snd x))) [(15 :: int, 0 :: nat), (35, 1), (45, 2)]) =
      replay apply_command used_store (map (\<lambda>x. hop_command (lossy ! snd x)) [(15 :: int, 0 :: nat), (35, 1), (45, 2)])"
    using lossy_proper by (intro replay_cong apply_proper) (auto simp: lossy_def)
  moreover have "wipes_first used_store (map (\<lambda>(t, i). hop_command (lossy ! i)) [(15 :: int, 0 :: nat), (35, 1), (45, 2)])"
    by (simp add: wipes_first_def lossy_def put_op_def get_op_def hop_command_def op_defs)
  moreover have "fData used_store \<noteq> NilMap" by (simp add: used_store_def)
  ultimately show ?thesis
    using lossy_proper
    by (simp add: served_history_def case_prod_unfold comp_def told_def)
      (simp add: lossy_def put_op_def get_op_def cas_op_def outcome_defs zero_result_def upt_rec)
qed

theorem correct_store_passes_witness: "crLinearizable (Check search_check lossy 5)"
proof -
  have "fst (search_check Model (ToOperations lossy) 5) \<noteq> CheckUnknown" by (simp add: search_check_def)
  with correct_store_passes [OF search_check_contract lossy_recordable lossy_served, of 5] show ?thesis by blast
qed

end
