(* ===== verification/Traffic.thy ===== *)
theory Traffic
  imports Fair
begin

text \<open>
  Clients at work together. The goroutines of a phase call \<open>Invoke\<close> at the same time, each on its own client,
  with one recorder; the cluster executes what reaches it in some order, answers, refuses, or is not heard of
  again. A step of the relation below is what one of them does: a goroutine begins an operation, sends a
  request, or ends a round of the loop of \<open>Invoke\<close> with what came back (the round is \<open>invoke_round\<close> itself);
  the store executes a command; an answer, a refusal or a transport error arrives; time passes. Every
  interleaving is a path of steps.

  When all have returned, the recorded history is one of a correct store in the sense of \<open>Fair\<close>, so the
  check passes it. What is asked of the cluster is what the other theories show or state as contracts:
  a command is executed at most once and atomically, an answer with a result is the state machine's, and
  an answer with a definite error, or a transport error of an unsent request, means that the command is never executed.
\<close>

section \<open>Calls, attempts, goroutines\<close>

record call =
  caClient :: client
  caOp :: hop
  caOverall :: int64
  caNoProxy :: bool
  caPin :: "node option"
  caStart :: nat
  caAttempt :: nat

definition call_node :: "call \<Rightarrow> node" where
  "call_node ca = (case caPin ca of Some p \<Rightarrow> p
     | None \<Rightarrow> clNodes (caClient ca) ! ((caStart ca + caAttempt ca) mod length (clNodes (caClient ca))))"

text \<open>What becomes of a request at the cluster, and of the attempt at the client. \<open>Recorded k\<close>: its operation is
  the one at the place \<open>k\<close> of the recorder.\<close>

datatype fate = Flying | Executed result int | Refused

datatype progress = Waiting | Answered "net_error + reply" int | Recorded nat | Retried

record attempt =
  atCall :: call
  atSent :: int
  atReq :: http_request
  atFate :: fate
  atProgress :: progress

datatype goroutine = Idle | Ready call | Busy nat

record traffic =
  tfTime :: int
  tfStore :: fsm
  tfLog :: "(int \<times> nat) list"
  tfAttempts :: "attempt list"
  tfGo :: "nat \<Rightarrow> goroutine"
  tfRec :: recorder

section \<open>What can come back\<close>

definition answer :: "result \<Rightarrow> net_error + reply" where
  "answer r = Inr (reply_of (writeJSON 200 (result_json r)))"

definition error_reply :: "bool \<Rightarrow> reply \<Rightarrow> bool" where
  "error_reply def rp \<longleftrightarrow> (\<exists>code e msg. (code, e) \<in> set error_answers \<and> (e \<in> set definite_codes \<longleftrightarrow> def) \<and>
     rp = reply_of (writeErr code e msg) \<and> length (rpBody rp) \<le> max_body)"

definition refusal :: "net_error + reply \<Rightarrow> bool" where
  "refusal out = (case out of Inl e \<Rightarrow> never_sent e | Inr rp \<Rightarrow> error_reply True rp)"

definition lost :: "net_error + reply \<Rightarrow> bool" where
  "lost out = (case out of Inl e \<Rightarrow> \<not> never_sent e
     | Inr rp \<Rightarrow> error_reply False rp \<or> rpErr rp \<and> length (rpBody rp) < max_body)"

lemma classify_answer:
  assumes "length (jprint (result_json r)) < max_body" and "valid_utf8 (rValue r)"
  shows "classify (answer r) = \<lparr>arClass = ''ok'', arOk = rOk r, arPresent = rPresent r, arVal = rValue r\<rparr>"
  using classify_result [OF assms(1)] assms(2) by (simp add: answer_def to_valid_valid)

lemma classify_error:
  assumes "error_reply def rp"
  shows "classify (Inr rp) = attempt_class (if def then ''fail'' else ''unknown'')"
proof -
  from assms obtain code e msg where e: "(code, e) \<in> set error_answers" "e \<in> set definite_codes \<longleftrightarrow> def"
    "rp = reply_of (writeErr code e msg)" "length (rpBody rp) \<le> max_body"
    by (auto simp: error_reply_def)
  from e(1) have ne: "code \<noteq> 200" and "to_valid e = e" by (auto simp: error_answer_defs)
  with e response_error_writeErr [of code e msg] have "response_error (rpBody rp) = e" by (simp add: reply_of_def)
  moreover have "rpCode rp = code" "\<not> rpErr rp" using e(3) by (simp_all add: reply_of_def writeErr_def writeJSON_def)
  ultimately show ?thesis using e(2,4) ne by (simp add: classify_def read_body_whole definite_codes_def)
qed

lemma classify_refusal: "refusal out \<Longrightarrow> classify out = attempt_class ''fail''"
  by (cases out) (auto simp: refusal_def classify_error, auto simp: classify_def isDefinitelyNotSent_def never_sent_def)

lemma classify_lost: "lost out \<Longrightarrow> classify out = attempt_class ''unknown''"
  by (cases out) (auto simp: lost_def classify_error, auto simp: classify_def isDefinitelyNotSent_def never_sent_def
      read_body_def split: option.splits)

section \<open>Steps\<close>

text \<open>The world of a round whose readings of the clock are given and to which \<open>out\<close> comes back.\<close>

definition scripted :: "net_error + reply \<Rightarrow> int64 list client_env" where
  "scripted out = \<lparr>ceNow = (\<lambda>ts. (hd ts, tl ts)), ceSleep = (\<lambda>_ ts. ts), ceIntn = (\<lambda>_ ts. (0, ts)),
     ceFloat64 = (\<lambda>ts. (0, ts)), ceURLOk = (\<lambda>_. True), ceDo = (\<lambda>_ _ ts. (out, ts))\<rparr>"

definition call_round :: "call \<Rightarrow> net_error + reply \<Rightarrow> int64 list \<Rightarrow> recorder \<Rightarrow> int64 list round" where
  "call_round ca out ts rec = invoke_round (scripted out) (caClient ca) (caOverall ca) (caNoProxy ca) (caPin ca)
     (caStart ca) (caAttempt ca) (caOp ca) rec ts"

definition sendable :: "hop \<Rightarrow> bool" where
  "sendable op \<longleftrightarrow> (mutation op \<or> hOp op = OpGet) \<and> plain_key (hKey op) \<and> command_valid (hop_command op)"

abbreviation set_attempt :: "nat \<Rightarrow> attempt \<Rightarrow> traffic \<Rightarrow> traffic" where
  "set_attempt a at s \<equiv> s\<lparr>tfAttempts := (tfAttempts s)[a := at]\<rparr>"

abbreviation set_go :: "nat \<Rightarrow> goroutine \<Rightarrow> traffic \<Rightarrow> traffic" where
  "set_go i g s \<equiv> s\<lparr>tfGo := (tfGo s)(i := g)\<rparr>"

inductive traffic_step :: "(bytes \<Rightarrow> json_err \<Rightarrow> string) \<Rightarrow> traffic \<Rightarrow> traffic \<Rightarrow> bool" for jt where
  pass: "0 < d \<Longrightarrow> tfTime s + d < max_int64 \<Longrightarrow> traffic_step jt s (s\<lparr>tfTime := tfTime s + d\<rparr>)"
| begin_call: "tfGo s i = Idle \<Longrightarrow> sendable op \<Longrightarrow> start < length (clNodes c) \<Longrightarrow>
    traffic_step jt s (set_go i (Ready \<lparr>caClient = c, caOp = op, caOverall = word_of_int (tfTime s) + deadline,
      caNoProxy = np, caPin = pin, caStart = start, caAttempt = 0\<rparr>) s)"
| send: "tfGo s i = Ready ca \<Longrightarrow> build_request (call_node ca) (caOp ca) (caNoProxy ca) = Inr q \<Longrightarrow>
    length (hrBody q) \<le> max_body \<Longrightarrow>
    traffic_step jt s (set_go i (Busy (length (tfAttempts s))) (s\<lparr>tfAttempts := tfAttempts s @
      [\<lparr>atCall = ca, atSent = tfTime s, atReq = q, atFate = Flying, atProgress = Waiting\<rparr>]\<rparr>))"
| execute: "a < length (tfAttempts s) \<Longrightarrow> tfAttempts s ! a = at \<Longrightarrow> atFate at = Flying \<Longrightarrow>
    request_command jt (wire_request (call_node (atCall at)) (atReq at)) = Some (raw, cmd) \<Longrightarrow>
    Apply (tfStore s) (Encode cmd) = Inr (r, f) \<Longrightarrow>
    traffic_step jt s (set_attempt a (at\<lparr>atFate := Executed r (tfTime s)\<rparr>)
      (s\<lparr>tfStore := f, tfLog := tfLog s @ [(tfTime s, a)]\<rparr>))"
| answers: "a < length (tfAttempts s) \<Longrightarrow> tfAttempts s ! a = at \<Longrightarrow> atProgress at = Waiting \<Longrightarrow> atFate at = Executed r t \<Longrightarrow>
    length (jprint (result_json r)) < max_body \<Longrightarrow>
    traffic_step jt s (set_attempt a (at\<lparr>atProgress := Answered (answer r) (tfTime s)\<rparr>) s)"
| refuses: "a < length (tfAttempts s) \<Longrightarrow> tfAttempts s ! a = at \<Longrightarrow> atProgress at = Waiting \<Longrightarrow> atFate at = Flying \<Longrightarrow>
    refusal out \<Longrightarrow>
    traffic_step jt s (set_attempt a (at\<lparr>atFate := Refused, atProgress := Answered out (tfTime s)\<rparr>) s)"
| loses: "a < length (tfAttempts s) \<Longrightarrow> tfAttempts s ! a = at \<Longrightarrow> atProgress at = Waiting \<Longrightarrow> lost out \<Longrightarrow>
    traffic_step jt s (set_attempt a (at\<lparr>atProgress := Answered out (tfTime s)\<rparr>) s)"
| returns: "tfGo s i = Busy a \<Longrightarrow> a < length (tfAttempts s) \<Longrightarrow> tfAttempts s ! a = at \<Longrightarrow> atProgress at = Answered out t \<Longrightarrow>
    t \<le> t2 \<Longrightarrow> t2 \<le> tfTime s \<Longrightarrow>
    call_round (atCall at) out [word_of_int (atSent at), word_of_int t2, t3] (tfRec s) = Done iv ts \<Longrightarrow>
    traffic_step jt s (set_go i Idle (set_attempt a (at\<lparr>atProgress := Recorded (length (recOps (tfRec s)))\<rparr>)
      (s\<lparr>tfRec := ivRec iv\<rparr>)))"
| retries: "tfGo s i = Busy a \<Longrightarrow> a < length (tfAttempts s) \<Longrightarrow> tfAttempts s ! a = at \<Longrightarrow> atProgress at = Answered out t \<Longrightarrow>
    t \<le> t2 \<Longrightarrow> t2 \<le> tfTime s \<Longrightarrow>
    call_round (atCall at) out [word_of_int (atSent at), word_of_int t2, t3] (tfRec s) = Again op ts \<Longrightarrow>
    traffic_step jt s (set_go i (Ready ((atCall at)\<lparr>caOp := op, caAttempt := caAttempt (atCall at) + 1\<rparr>))
      (set_attempt a (at\<lparr>atProgress := Retried\<rparr>) s))"

definition quiet_start :: "fsm \<Rightarrow> traffic" where
  "quiet_start f = \<lparr>tfTime = 0, tfStore = f, tfLog = [], tfAttempts = [], tfGo = (\<lambda>_. Idle), tfRec = \<lparr>recOps = []\<rparr>\<rparr>"

text \<open>\<open>f0\<close> is what earlier runs left in the store.\<close>

inductive traffic_reachable :: "(bytes \<Rightarrow> json_err \<Rightarrow> string) \<Rightarrow> fsm \<Rightarrow> traffic \<Rightarrow> bool" for jt f0 where
  traffic_start: "fsm_ok f0 \<Longrightarrow> traffic_reachable jt f0 (quiet_start f0)"
| traffic_next: "traffic_reachable jt f0 s \<Longrightarrow> traffic_step jt s s' \<Longrightarrow> traffic_reachable jt f0 s'"


section \<open>What a round does\<close>

lemma build_request_stamp:
  "build_request n (op\<lparr>hNode := i, hStartNs := t\<rparr>) np = build_request n op np"
  by (simp add: build_request_def Let_def)

lemma call_round_end:
  assumes "build_request (call_node ca) (caOp ca) (caNoProxy ca) = Inr q"
  shows "call_round ca out [t1, t2, t3] rec = round_end (scripted out) (caClient ca) (caOverall ca) (caPin ca) (classify out)
    ((caOp ca)\<lparr>hNode := nID (call_node ca), hStartNs := t1, hEndNs := t2\<rparr>) rec [t3]"
  using assms unfolding call_round_def invoke_round_def call_node_def [symmetric]
  by (simp add: doAttempt_def build_request_stamp scripted_def Let_def)

lemma round_recorded:
  assumes "build_request (call_node ca) (caOp ca) (caNoProxy ca) = Inr q"
    and "call_round ca out [t1, t2, t3] rec = Done iv ts"
  shows "recOps (ivRec iv) = recOps rec @ [ivOp iv]" "hop_command (ivOp iv) = hop_command (caOp ca)"
    "hStartNs (ivOp iv) = t1" "hEndNs (ivOp iv) = t2" "hOutcome (ivOp iv) = outcome_of (classify out)"
    "arClass (classify out) = ''ok'' \<Longrightarrow>
       hOk (ivOp iv) = arOk (classify out) \<and> hPresent (ivOp iv) = arPresent (classify out) \<and> hRetVal (ivOp iv) = arVal (classify out)"
  using assms(2) unfolding call_round_end [OF assms(1)]
  by (auto simp: round_end_def add_op_def hop_command_def outcome_of_def Let_def case_prod_beta split: if_splits)

lemma round_retried:
  assumes "build_request (call_node ca) (caOp ca) (caNoProxy ca) = Inr q"
    and "call_round ca out [t1, t2, t3] rec = Again op ts"
  shows "hop_command op = hop_command (caOp ca)" "arClass (classify out) = ''fail''"
  using round_end_Again [of "scripted out" "caClient ca" "caOverall ca" "caPin ca" "classify out"] assms(2) classify_cases
  unfolding call_round_end [OF assms(1)] by (force simp: hop_command_def)+

lemma sendable_cong: "hop_command op = hop_command op' \<Longrightarrow> sendable op \<longleftrightarrow> sendable op'"
  by (simp add: sendable_def mutation_def hop_command_def)

lemma sendable_proper: "sendable op \<Longrightarrow> hOutcome op \<in> set [OutcomeOK, OutcomeFailed, OutcomeUnknown] \<Longrightarrow> proper op"
  by (simp add: sendable_def proper_def)

text \<open>The node executes the command the client meant.\<close>

lemma wire_executes:
  assumes "sendable op"
  shows "apply_command f (wire_command op) = apply_command f (hop_command op)" and "command_valid (wire_command op)"
    and "known_op (wire_command op)"
proof -
  have "command_valid (hop_command op)" and op: "hOp op \<in> {OpPut, OpDelete, OpCAS, OpGet}"
    using assms by (auto simp: sendable_def mutation_def)
  then have v: "valid_utf8 (hValue op)" "map_option to_valid (hExpect op) = hExpect op" "pred_option valid_utf8 (hExpect op)"
    "valid_utf8 (hKey op)" "valid_utf8 (hOp op)"
    by (auto simp: command_valid_def hop_command_def to_valid_valid option.pred_set intro: option.map_ident_strong)
  show "apply_command f (wire_command op) = apply_command f (hop_command op)"
    using op v by (auto simp: wire_command_def hop_command_def apply_command_def op_defs to_valid_valid Let_def split: option.splits)
  show "command_valid (wire_command op)"
    using v by (auto simp: command_valid_def wire_command_def to_valid_valid)
  show "known_op (wire_command op)"
    using op by (auto simp: known_op_def wire_command_def)
qed

lemma executed_meant:
  assumes "sendable op" and "build_request n op np = Inr q" and "length (hrBody q) \<le> max_body" and "fsm_ok f"
    and "request_command jt (wire_request n q) = Some (raw, cmd)" and "Apply f (Encode cmd) = Inr (r, f')"
  shows "Apply f (Encode (hop_command op)) = Inr (r, f')" "fsm_ok f'" "valid_utf8 (rValue r)"
proof -
  have cmd: "cmd = wire_command op"
    using request_understood [of op n np q jt] assms(1,2,3,5) by (simp add: sendable_def)
  note w = wire_executes [OF assms(1)]
  have ap: "apply_command f (wire_command op) = Inr (r, f')"
    using assms(6) w(2) by (simp add: cmd Apply_def decode_encode_valid)
  then show "Apply f (Encode (hop_command op)) = Inr (r, f')"
    using assms(1) w(1) by (simp add: Apply_def decode_encode_valid sendable_def)
  show "fsm_ok f'" using apply_ok [OF assms(4,6)] .
  have "r = spec_result (wire_command op) (fsm_get f)"
    using apply_command_spec [OF fsm_ok_not_Nil [OF assms(4)] w(3)] ap by auto
  then show "valid_utf8 (rValue r)"
    using fsm_ok_get [OF assms(4)] by (auto simp: spec_result_def Let_def split: option.splits)
qed


section \<open>What holds at every moment\<close>

definition came_back :: "fate \<Rightarrow> net_error + reply \<Rightarrow> int \<Rightarrow> bool" where
  "came_back fate out t \<longleftrightarrow>
     (\<exists>r te. fate = Executed r te \<and> te \<le> t \<and> length (jprint (result_json r)) < max_body \<and> out = answer r) \<or>
     fate = Refused \<and> refusal out \<or> lost out"

definition recorded_right :: "attempt \<Rightarrow> int \<Rightarrow> hop \<Rightarrow> bool" where
  "recorded_right at u op \<longleftrightarrow> proper op \<and> hop_command op = hop_command (caOp (atCall at)) \<and>
     sint (hStartNs op) = atSent at \<and> atSent at \<le> sint (hEndNs op) \<and> sint (hEndNs op) \<le> u \<and>
     (hOutcome op = OutcomeOK \<longrightarrow> (\<exists>r t. atFate at = Executed r t \<and> told op r t)) \<and>
     (hOutcome op = OutcomeFailed \<longrightarrow> atFate at = Refused)"

definition progress_right :: "int \<Rightarrow> hop list \<Rightarrow> attempt \<Rightarrow> bool" where
  "progress_right u ops at = (case atProgress at of
     Waiting \<Rightarrow> True
   | Answered out t \<Rightarrow> atSent at \<le> t \<and> t \<le> u \<and> came_back (atFate at) out t
   | Recorded k \<Rightarrow> k < length ops \<and> recorded_right at u (ops ! k)
   | Retried \<Rightarrow> atFate at = Refused)"

definition attempt_right :: "int \<Rightarrow> hop list \<Rightarrow> attempt \<Rightarrow> bool" where
  "attempt_right u ops at \<longleftrightarrow> sendable (caOp (atCall at)) \<and>
     build_request (call_node (atCall at)) (caOp (atCall at)) (caNoProxy (atCall at)) = Inr (atReq at) \<and>
     length (hrBody (atReq at)) \<le> max_body \<and> 0 \<le> atSent at \<and> atSent at \<le> u \<and>
     (case atFate at of Executed r t \<Rightarrow> atSent at \<le> t \<and> t \<le> u \<and> valid_utf8 (rValue r) | _ \<Rightarrow> True) \<and>
     progress_right u ops at"

abbreviation meant :: "attempt list \<Rightarrow> nat \<Rightarrow> command" where
  "meant ats a \<equiv> hop_command (caOp (atCall (ats ! a)))"

definition log_right :: "fsm \<Rightarrow> attempt list \<Rightarrow> (int \<times> nat) list \<Rightarrow> fsm \<Rightarrow> bool" where
  "log_right f0 ats log f \<longleftrightarrow> fsm_ok f0 \<and> fsm_ok f \<and> sorted (map fst log) \<and> distinct (map snd log) \<and>
     (\<forall>a < length ats. \<forall>r t. atFate (ats ! a) = Executed r t \<longrightarrow> a \<in> set (map snd log)) \<and>
     (\<exists>rs. replay Apply f0 (map (\<lambda>x. Encode (meant ats (snd x))) log) = Inr (rs, f) \<and>
       list_all2 (\<lambda>x r. snd x < length ats \<and> atFate (ats ! snd x) = Executed r (fst x)) log rs)"

definition recorder_right :: "attempt list \<Rightarrow> nat \<Rightarrow> bool" where
  "recorder_right ats n \<longleftrightarrow> (\<forall>k < n. \<exists>!a. a < length ats \<and> atProgress (ats ! a) = Recorded k)"

definition unfinished :: "progress \<Rightarrow> bool" where
  "unfinished p = (case p of Waiting \<Rightarrow> True | Answered _ _ \<Rightarrow> True | _ \<Rightarrow> False)"

definition go_right :: "attempt list \<Rightarrow> (nat \<Rightarrow> goroutine) \<Rightarrow> bool" where
  "go_right ats go \<longleftrightarrow> (\<forall>i ca. go i = Ready ca \<longrightarrow> sendable (caOp ca)) \<and>
     (\<forall>a < length ats. unfinished (atProgress (ats ! a)) \<longrightarrow> (\<exists>i. go i = Busy a))"

definition traffic_right :: "fsm \<Rightarrow> traffic \<Rightarrow> bool" where
  "traffic_right f0 s \<longleftrightarrow> 0 \<le> tfTime s \<and> tfTime s < max_int64 \<and>
     list_all (attempt_right (tfTime s) (recOps (tfRec s))) (tfAttempts s) \<and>
     log_right f0 (tfAttempts s) (tfLog s) (tfStore s) \<and>
     recorder_right (tfAttempts s) (length (recOps (tfRec s))) \<and> go_right (tfAttempts s) (tfGo s)"

subsection \<open>One attempt changes\<close>

lemma list_all_update: "list_all P xs \<Longrightarrow> P x \<Longrightarrow> list_all P (xs[a := x])"
  by (auto simp: list_all_iff dest: set_update_subset_insert [THEN subsetD])

lemma list_all_weaken: "list_all P xs \<Longrightarrow> (\<And>x. P x \<Longrightarrow> Q x) \<Longrightarrow> list_all Q xs"
  by (auto simp: list_all_iff)

lemma meant_update: "atCall at = atCall (ats ! a) \<Longrightarrow> meant (ats[a := at]) b = meant ats b"
  by (cases "a < length ats"; cases "b = a") (simp_all add: list_update_beyond)

lemma fate_update:
  "(\<And>r t. atFate at = Executed r t \<longleftrightarrow> atFate (ats ! a) = Executed r t) \<Longrightarrow>
   atFate (ats[a := at] ! b) = Executed r t \<longleftrightarrow> atFate (ats ! b) = Executed r t"
  by (cases "a < length ats"; cases "b = a") (simp_all add: list_update_beyond)

lemma log_right_update:
  assumes "log_right f0 ats log f" and "atCall at = atCall (ats ! a)"
    and "\<And>r t. atFate at = Executed r t \<longleftrightarrow> atFate (ats ! a) = Executed r t"
  shows "log_right f0 (ats[a := at]) log f"
  using assms(1) unfolding log_right_def meant_update [OF assms(2)] fate_update [OF assms(3)] length_list_update .

lemma log_right_new:
  assumes "log_right f0 ats log f" and "atFate at = Flying"
  shows "log_right f0 (ats @ [at]) log f"
proof -
  from assms(1) obtain rs where run: "replay Apply f0 (map (\<lambda>x. Encode (meant ats (snd x))) log) = Inr (rs, f)"
    and rs: "list_all2 (\<lambda>x r. snd x < length ats \<and> atFate (ats ! snd x) = Executed r (fst x)) log rs"
    by (auto simp: log_right_def)
  have "snd x < length ats" if "x \<in> set log" for x
    using rs that by (auto simp: list_all2_conv_all_nth in_set_conv_nth)
  then have same: "map (\<lambda>x. Encode (meant (ats @ [at]) (snd x))) log = map (\<lambda>x. Encode (meant ats (snd x))) log"
    by (intro map_cong) (simp_all add: nth_append)
  have "replay Apply f0 (map (\<lambda>x. Encode (meant (ats @ [at]) (snd x))) log) = Inr (rs, f)"
    unfolding same by (rule run)
  moreover have "list_all2 (\<lambda>x r. snd x < length (ats @ [at]) \<and> atFate ((ats @ [at]) ! snd x) = Executed r (fst x)) log rs"
    using rs by (rule list_all2_mono) (simp add: nth_append)
  moreover have "\<forall>a < length (ats @ [at]). \<forall>r t. atFate ((ats @ [at]) ! a) = Executed r t \<longrightarrow> a \<in> set (map snd log)"
    using assms by (auto simp: log_right_def nth_append less_Suc_eq)
  ultimately show ?thesis
    using assms(1) unfolding log_right_def by blast
qed

lemma log_right_execute:
  assumes "log_right f0 ats log f" and "a < length ats" and "atFate (ats ! a) = Flying" and "\<And>x. x \<in> set log \<Longrightarrow> fst x \<le> t"
    and "Apply f (Encode (meant ats a)) = Inr (r, f')" and "fsm_ok f'"
  shows "log_right f0 (ats[a := (ats ! a)\<lparr>atFate := Executed r t\<rparr>]) (log @ [(t, a)]) f'"
proof -
  let ?ats = "ats[a := (ats ! a)\<lparr>atFate := Executed r t\<rparr>]"
  from assms(1) obtain rs where run: "replay Apply f0 (map (\<lambda>x. Encode (meant ats (snd x))) log) = Inr (rs, f)"
    and rs: "list_all2 (\<lambda>x r. snd x < length ats \<and> atFate (ats ! snd x) = Executed r (fst x)) log rs"
    by (auto simp: log_right_def)
  have "atFate (ats ! snd x) \<noteq> Flying" if "x \<in> set log" for x
    using rs that by (auto simp: list_all2_conv_all_nth in_set_conv_nth)
  with assms(3) have new: "a \<notin> set (map snd log)" by auto
  have "replay Apply f0 (map (\<lambda>x. Encode (meant ?ats (snd x))) (log @ [(t, a)])) = Inr (rs @ [r], f')"
    using run assms(5) meant_update [of "(ats ! a)\<lparr>atFate := Executed r t\<rparr>" ats a]
    by (simp add: replay_append)
  moreover have "list_all2 (\<lambda>x r. snd x < length ?ats \<and> atFate (?ats ! snd x) = Executed r (fst x)) log rs"
    using rs by (rule list_all2_mono) (use assms(2,3) in \<open>auto simp: nth_list_update\<close>)
  ultimately show ?thesis
    using assms(1,2,4,6) new
    by (auto simp: log_right_def sorted_append nth_list_update intro!: exI [of _ "rs @ [r]"] list_all2_appendI)
qed


lemma recorded_right_later: "recorded_right at u op \<Longrightarrow> u \<le> v \<Longrightarrow> recorded_right at v op"
  by (auto simp: recorded_right_def)

lemma attempt_right_later:
  assumes "attempt_right u ops at" and "u \<le> v"
  shows "attempt_right v (ops @ ops') at"
  using assms recorded_right_later [OF _ assms(2), of at]
  by (auto simp: attempt_right_def progress_right_def nth_append split: fate.splits progress.splits)

lemma recorder_right_update:
  assumes "recorder_right ats n" and "a < length ats"
    and "\<And>k. atProgress at = Recorded k \<longleftrightarrow> atProgress (ats ! a) = Recorded k"
  shows "recorder_right (ats[a := at]) n"
proof -
  have "atProgress (ats[a := at] ! b) = Recorded k \<longleftrightarrow> atProgress (ats ! b) = Recorded k" for b k
    using assms(2,3) by (cases "b = a") simp_all
  with assms(1) show ?thesis by (simp add: recorder_right_def)
qed

lemma recorder_right_new: "recorder_right ats n \<Longrightarrow> atProgress at = Waiting \<Longrightarrow> recorder_right (ats @ [at]) n"
  unfolding recorder_right_def
  by (fastforce simp: nth_append less_Suc_eq)

lemma recorder_right_record:
  assumes "recorder_right ats n" and "a < length ats" and "\<And>k. atProgress (ats ! a) \<noteq> Recorded k" and "atProgress at = Recorded n"
    and "\<And>b k. b < length ats \<Longrightarrow> atProgress (ats ! b) = Recorded k \<Longrightarrow> k < n"
  shows "recorder_right (ats[a := at]) (Suc n)"
proof -
  have one: "b < length ats \<Longrightarrow> atProgress (ats[a := at] ! b) = Recorded k \<longleftrightarrow>
      (if b = a then k = n else atProgress (ats ! b) = Recorded k)" for b k
    using assms(2,4) by auto
  have "\<exists>!b. b < length ats \<and> atProgress (ats[a := at] ! b) = Recorded k" if "k < Suc n" for k
  proof (cases "k = n")
    case True
    show ?thesis
    proof (rule ex1I [of _ a])
      show "b = a" if "b < length ats \<and> atProgress (ats[a := at] ! b) = Recorded k" for b
        using that one [of b k] assms(5) [of b k] True by (auto split: if_splits)
    qed (use assms(2,4) True in simp)
  next
    case False
    with that assms(1) have "\<exists>!b. b < length ats \<and> atProgress (ats ! b) = Recorded k" by (simp add: recorder_right_def)
    moreover have "b < length ats \<and> atProgress (ats[a := at] ! b) = Recorded k \<longleftrightarrow> b < length ats \<and> atProgress (ats ! b) = Recorded k" for b
      using one [of b k] False assms(3) by (cases "b = a") auto
    ultimately show ?thesis by simp
  qed
  then show ?thesis by (simp add: recorder_right_def)
qed

lemma go_right_update:
  assumes "go_right ats go" and "unfinished (atProgress at) \<longrightarrow> unfinished (atProgress (ats ! a))" and "a < length ats"
  shows "go_right (ats[a := at]) go"
  using assms by (auto simp: go_right_def nth_list_update)

lemma go_right_release:
  assumes "go_right ats go" and "go i = Busy a" and "a < length ats" and "\<not> unfinished (atProgress at)"
    and "\<And>ca. g = Ready ca \<Longrightarrow> sendable (caOp ca)"
  shows "go_right (ats[a := at]) (go(i := g))"
  using assms unfolding go_right_def by (auto simp: nth_list_update) (metis goroutine.inject(2))

lemma go_right_new:
  assumes "go_right ats go" and "go i = Ready ca"
  shows "go_right (ats @ [at]) (go(i := Busy (length ats)))"
  using assms unfolding go_right_def by (auto simp: nth_append less_Suc_eq) (metis goroutine.distinct(5))

lemma unfinished_not_recorded: "unfinished p \<Longrightarrow> p \<noteq> Recorded k"
  by (auto simp: unfinished_def)

lemma right_update:
  assumes "traffic_right f0 s" and "a < length (tfAttempts s)" and "tfAttempts s ! a = at" and "atCall at' = atCall at"
    and "\<And>r t. atFate at' = Executed r t \<longleftrightarrow> atFate at = Executed r t"
    and "attempt_right (tfTime s) (recOps (tfRec s)) at'" and "unfinished (atProgress at)" and "unfinished (atProgress at')"
  shows "traffic_right f0 (set_attempt a at' s)"
  using assms log_right_update [of f0 "tfAttempts s" "tfLog s" "tfStore s" at' a] go_right_update [of "tfAttempts s" "tfGo s" at' a]
    recorder_right_update [OF _ assms(2), of _ at'] unfinished_not_recorded [OF assms(7)] unfinished_not_recorded [OF assms(8)]
  by (auto simp: traffic_right_def list_all_update)

lemma right_attempt:
  assumes "traffic_right f0 s" and "a < length (tfAttempts s)" and "tfAttempts s ! a = at"
  shows "attempt_right (tfTime s) (recOps (tfRec s)) at"
  using assms by (auto simp: traffic_right_def list_all_length)

lemma right_log_past:
  assumes "traffic_right f0 s" and "x \<in> set (tfLog s)"
  shows "fst x \<le> tfTime s"
proof -
  from assms obtain r where r: "snd x < length (tfAttempts s)" "atFate (tfAttempts s ! snd x) = Executed r (fst x)"
    by (auto simp: traffic_right_def log_right_def list_all2_conv_all_nth in_set_conv_nth)
  with right_attempt [OF assms(1) r(1) refl] show ?thesis by (auto simp: attempt_right_def)
qed


subsection \<open>Every step keeps it\<close>

lemma came_back_cases:
  assumes "came_back fate out t" and "\<And>r te. fate = Executed r te \<Longrightarrow> valid_utf8 (rValue r)"
  obtains r te where "fate = Executed r te" "te \<le> t"
      "classify out = \<lparr>arClass = ''ok'', arOk = rOk r, arPresent = rPresent r, arVal = rValue r\<rparr>"
    | "fate = Refused" "classify out = attempt_class ''fail''"
    | "classify out = attempt_class ''unknown''"
  using assms classify_answer classify_refusal classify_lost unfolding came_back_def by blast

lemma round_records_right:
  assumes "attempt_right u ops at" and "atProgress at = Answered out t" and "t \<le> t2" and "t2 \<le> u" and "u < max_int64"
    and "call_round (atCall at) out [word_of_int (atSent at), word_of_int t2, t3] rec = Done iv ts"
  shows "recorded_right at u (ivOp iv)"
proof -
  from assms(1,2) have b: "build_request (call_node (atCall at)) (caOp (atCall at)) (caNoProxy (atCall at)) = Inr (atReq at)"
    and snd: "sendable (caOp (atCall at))" and t: "0 \<le> atSent at" "atSent at \<le> t" and cb: "came_back (atFate at) out t"
    and ex: "\<And>r te. atFate at = Executed r te \<Longrightarrow> valid_utf8 (rValue r) \<and> atSent at \<le> te"
    by (auto simp: attempt_right_def progress_right_def)
  note rr = round_recorded [OF b assms(6)]
  have times: "sint (hStartNs (ivOp iv)) = atSent at" "sint (hEndNs (ivOp iv)) = t2"
    using rr(3,4) t assms(3-5) by (simp_all add: sint64_of_int)
  have "sendable (ivOp iv)" using snd sendable_cong [OF rr(2)] by simp
  moreover have "hOutcome (ivOp iv) \<in> set [OutcomeOK, OutcomeFailed, OutcomeUnknown]" by (simp add: rr(5) outcome_of_def)
  ultimately have "proper (ivOp iv)" by (rule sendable_proper)
  moreover have "(hOutcome (ivOp iv) = OutcomeOK \<longrightarrow> (\<exists>r te. atFate at = Executed r te \<and> told (ivOp iv) r te)) \<and>
      (hOutcome (ivOp iv) = OutcomeFailed \<longrightarrow> atFate at = Refused)"
  proof (rule came_back_cases [OF cb])
    fix r te
    assume "atFate at = Executed r te" "te \<le> t"
      "classify out = \<lparr>arClass = ''ok'', arOk = rOk r, arPresent = rPresent r, arVal = rValue r\<rparr>"
    with rr(5,6) ex [of r te] times assms(3) show ?thesis by (simp add: outcome_of_def outcome_defs told_def)
  qed (use ex rr(5) in \<open>simp_all add: outcome_of_def outcome_defs attempt_class_def\<close>)
  ultimately show ?thesis
    using rr(2) times t assms(3,4) by (simp add: recorded_right_def)
qed

lemma execute_right:
  assumes "attempt_right u ops at" and "atFate at = Flying" and "valid_utf8 (rValue r)"
  shows "attempt_right u ops (at\<lparr>atFate := Executed r u\<rparr>)"
  using assms by (auto simp: attempt_right_def progress_right_def came_back_def recorded_right_def told_def split: progress.splits)

lemma answered_right:
  assumes "attempt_right u ops at"
  shows "came_back (atFate at) out u \<Longrightarrow> attempt_right u ops (at\<lparr>atProgress := Answered out u\<rparr>)"
    and "refusal out \<Longrightarrow> attempt_right u ops (at\<lparr>atFate := Refused, atProgress := Answered out u\<rparr>)"
  using assms by (auto simp: attempt_right_def progress_right_def came_back_def split: fate.splits)

lemma traffic_step_right:
  assumes "traffic_step jt s s'" and "traffic_right f0 s"
  shows "traffic_right f0 s'"
  using assms
proof (cases rule: traffic_step.cases)
  case (pass d)
  with assms(2) attempt_right_later [of "tfTime s" "recOps (tfRec s)" _ "tfTime s + d" "[]"] show ?thesis
    by (auto simp: traffic_right_def intro: list_all_weaken)
next
  case (begin_call i op start c deadline np pin)
  with assms(2) show ?thesis by (auto simp: traffic_right_def go_right_def) (metis goroutine.distinct(3))
next
  case (send i ca q)
  have "sendable (caOp ca)" using assms(2) send(2) by (auto simp: traffic_right_def go_right_def)
  with assms(2) send log_right_new recorder_right_new go_right_new [of "tfAttempts s" "tfGo s" i ca] show ?thesis
    by (auto simp: traffic_right_def attempt_right_def progress_right_def)
next
  case (execute a at raw cmd r f)
  note at = right_attempt [OF assms(2) execute(2,3)]
  have m: "Apply (tfStore s) (Encode (meant (tfAttempts s) a)) = Inr (r, f)" "fsm_ok f" "valid_utf8 (rValue r)"
    using executed_meant [of "caOp (atCall at)" _ _ "atReq at" "tfStore s" jt raw cmd r f] at execute assms(2)
    by (auto simp: attempt_right_def traffic_right_def log_right_def)
  have "log_right f0 ((tfAttempts s)[a := at\<lparr>atFate := Executed r (tfTime s)\<rparr>]) (tfLog s @ [(tfTime s, a)]) f"
    using log_right_execute [OF _ execute(2) _ _ m(1,2), of f0 "tfLog s" "tfTime s"] right_log_past [OF assms(2)] assms(2) execute(3,4)
    by (simp add: traffic_right_def)
  moreover have "recorder_right ((tfAttempts s)[a := at\<lparr>atFate := Executed r (tfTime s)\<rparr>]) (length (recOps (tfRec s)))"
    using assms(2) execute by (intro recorder_right_update) (auto simp: traffic_right_def)
  moreover have "go_right ((tfAttempts s)[a := at\<lparr>atFate := Executed r (tfTime s)\<rparr>]) (tfGo s)"
    using assms(2) execute by (intro go_right_update) (auto simp: traffic_right_def)
  ultimately show ?thesis
    using assms(2) execute execute_right [OF at execute(4) m(3)] by (auto simp: traffic_right_def list_all_update)
next
  case (answers a at r t)
  have "attempt_right (tfTime s) (recOps (tfRec s)) (at\<lparr>atProgress := Answered (answer r) (tfTime s)\<rparr>)"
    using right_attempt [OF assms(2) answers(2,3)] answers(5,6)
    by (intro answered_right) (auto simp: came_back_def attempt_right_def)
  with right_update [OF assms(2) answers(2,3)] answers(1,4) show ?thesis by (simp add: unfinished_def)
next
  case (refuses a at out)
  note answered_right(2) [OF right_attempt [OF assms(2) refuses(2,3)] refuses(6)]
  with right_update [OF assms(2) refuses(2,3)] refuses(1,4,5) show ?thesis by (simp add: unfinished_def)
next
  case (loses a at out)
  have "attempt_right (tfTime s) (recOps (tfRec s)) (at\<lparr>atProgress := Answered out (tfTime s)\<rparr>)"
    using right_attempt [OF assms(2) loses(2,3)] loses(5) by (intro answered_right) (auto simp: came_back_def)
  with right_update [OF assms(2) loses(2,3)] loses(1,4) show ?thesis by (simp add: unfinished_def)
next
  case (returns i a at out t t2 t3 iv ts)
  let ?ops = "recOps (tfRec s)" and ?at = "at\<lparr>atProgress := Recorded (length (recOps (tfRec s)))\<rparr>"
  note at = right_attempt [OF assms(2) returns(3,4)]
  have u: "tfTime s < max_int64" using assms(2) by (simp add: traffic_right_def)
  have ops: "recOps (ivRec iv) = ?ops @ [ivOp iv]"
    using round_recorded(1) [OF _ returns(8)] at by (simp add: attempt_right_def)
  have "recorded_right ?at (tfTime s) (ivOp iv)"
    using round_records_right [OF at returns(5-7) u returns(8)] by (simp add: recorded_right_def)
  then have "attempt_right (tfTime s) (recOps (ivRec iv)) ?at"
    using at ops by (simp add: attempt_right_def progress_right_def split: fate.splits)
  moreover have "list_all (attempt_right (tfTime s) (recOps (ivRec iv))) (tfAttempts s)"
    using assms(2) attempt_right_later [of "tfTime s" ?ops _ "tfTime s" "[ivOp iv]"] unfolding ops
    by (auto simp: traffic_right_def intro: list_all_weaken)
  moreover have "recorder_right ((tfAttempts s)[a := ?at]) (Suc (length ?ops))"
  proof (rule recorder_right_record [OF _ returns(3)])
    show "k < length ?ops" if "b < length (tfAttempts s)" "atProgress (tfAttempts s ! b) = Recorded k" for b k
      using right_attempt [OF assms(2) that(1) refl] that(2) by (auto simp: attempt_right_def progress_right_def)
  qed (use assms(2) returns(4,5) in \<open>auto simp: traffic_right_def\<close>)
  moreover have "go_right ((tfAttempts s)[a := ?at]) ((tfGo s)(i := Idle))"
    using assms(2) returns(2,3) by (intro go_right_release) (auto simp: traffic_right_def unfinished_def)
  moreover have "log_right f0 ((tfAttempts s)[a := ?at]) (tfLog s) (tfStore s)"
    using assms(2) returns(4) by (intro log_right_update) (auto simp: traffic_right_def)
  ultimately show ?thesis
    using assms(2) ops unfolding returns(1) by (simp add: traffic_right_def list_all_update)
next
  case (retries i a at out t t2 t3 op ts)
  let ?at = "at\<lparr>atProgress := Retried\<rparr>"
  note at = right_attempt [OF assms(2) retries(3,4)]
  have b: "build_request (call_node (atCall at)) (caOp (atCall at)) (caNoProxy (atCall at)) = Inr (atReq at)"
    using at by (simp add: attempt_right_def)
  note rr = round_retried [OF b retries(8)]
  have "came_back (atFate at) out t" "\<And>r te. atFate at = Executed r te \<Longrightarrow> valid_utf8 (rValue r)"
    using at retries(5) by (auto simp: attempt_right_def progress_right_def)
  then have "atFate at = Refused"
    by (cases rule: came_back_cases) (use rr(2) in \<open>auto simp: attempt_class_def\<close>)
  then have "attempt_right (tfTime s) (recOps (tfRec s)) ?at"
    using at by (simp add: attempt_right_def progress_right_def)
  moreover have "sendable op"
    using at sendable_cong [OF rr(1)] by (simp add: attempt_right_def)
  then have "go_right ((tfAttempts s)[a := ?at]) ((tfGo s)(i := Ready ((atCall at)\<lparr>caOp := op, caAttempt := caAttempt (atCall at) + 1\<rparr>)))"
    using assms(2) retries(2,3) by (intro go_right_release) (auto simp: traffic_right_def unfinished_def)
  moreover have "log_right f0 ((tfAttempts s)[a := ?at]) (tfLog s) (tfStore s)"
    using assms(2) retries(4) by (intro log_right_update) (auto simp: traffic_right_def)
  moreover have "recorder_right ((tfAttempts s)[a := ?at]) (length (recOps (tfRec s)))"
    using assms(2) retries(3,4,5) by (intro recorder_right_update) (auto simp: traffic_right_def)
  ultimately show ?thesis
    using assms(2) unfolding retries(1) by (simp add: traffic_right_def list_all_update)
qed


section \<open>The history is one of a correct store\<close>

lemma traffic_right_start: "fsm_ok f0 \<Longrightarrow> traffic_right f0 (quiet_start f0)"
  by (simp add: traffic_right_def quiet_start_def log_right_def recorder_right_def go_right_def)

lemma reachable_right: "traffic_reachable jt f0 s \<Longrightarrow> traffic_right f0 s"
  by (induction rule: traffic_reachable.induct) (auto intro: traffic_right_start traffic_step_right)

definition all_returned :: "traffic \<Rightarrow> bool" where
  "all_returned s \<longleftrightarrow> (\<forall>i. tfGo s i = Idle)"

definition place :: "traffic \<Rightarrow> nat \<Rightarrow> nat" where
  "place s a = (case atProgress (tfAttempts s ! a) of Recorded k \<Rightarrow> k | _ \<Rightarrow> 0)"

definition served_log :: "traffic \<Rightarrow> (int \<times> nat) list" where
  "served_log s = map (\<lambda>x. (fst x, place s (snd x))) (tfLog s)"

lemma finished:
  assumes "traffic_right f0 s" and "all_returned s" and "a < length (tfAttempts s)" and "atFate (tfAttempts s ! a) \<noteq> Refused"
  shows "atProgress (tfAttempts s ! a) = Recorded (place s a)" "place s a < length (recOps (tfRec s))"
    "recorded_right (tfAttempts s ! a) (tfTime s) (recOps (tfRec s) ! place s a)"
proof -
  have "\<not> unfinished (atProgress (tfAttempts s ! a))"
    using assms(1-3) by (auto simp: traffic_right_def go_right_def all_returned_def)
  moreover have right: "attempt_right (tfTime s) (recOps (tfRec s)) (tfAttempts s ! a)"
    using right_attempt [OF assms(1,3) refl] .
  ultimately show "atProgress (tfAttempts s ! a) = Recorded (place s a)"
    using assms(4) by (auto simp: unfinished_def place_def attempt_right_def progress_right_def split: progress.splits)
  with right show "place s a < length (recOps (tfRec s))"
    "recorded_right (tfAttempts s ! a) (tfTime s) (recOps (tfRec s) ! place s a)"
    by (simp_all add: attempt_right_def progress_right_def)
qed

lemma recorded_by:
  assumes "traffic_right f0 s" and "k < length (recOps (tfRec s))"
  obtains a where "a < length (tfAttempts s)" "atProgress (tfAttempts s ! a) = Recorded k" "place s a = k"
    "recorded_right (tfAttempts s ! a) (tfTime s) (recOps (tfRec s) ! k)"
proof -
  from assms obtain a where a: "a < length (tfAttempts s)" "atProgress (tfAttempts s ! a) = Recorded k"
    by (auto simp: traffic_right_def recorder_right_def)
  with right_attempt [OF assms(1) a(1) refl] show thesis
    by (intro that [of a]) (simp_all add: place_def attempt_right_def progress_right_def)
qed

lemma recorded_recordable:
  assumes "traffic_right f0 s"
  shows "recordable (recOps (tfRec s))"
proof -
  have ops: "sint (hStartNs op) \<le> sint (hEndNs op)" "sint (hEndNs op) \<le> tfTime s" if "op \<in> set (recOps (tfRec s))" for op
    using that assms by (auto simp: in_set_conv_nth recorded_right_def elim!: recorded_by)
  moreover from assms have "0 \<le> tfTime s" "tfTime s < max_int64" by (simp_all add: traffic_right_def)
  ultimately show ?thesis using max_end_cases [of "recOps (tfRec s)"] by (fastforce simp: recordable_def list_all_iff)
qed

definition executed_commands :: "traffic \<Rightarrow> command list" where
  "executed_commands s = map (\<lambda>x. meant (tfAttempts s) (snd x)) (tfLog s)"

lemma history_served:
  assumes "traffic_right f0 s" and "all_returned s" and "wipes_first f0 (executed_commands s)"
  shows "served_history f0 (recOps (tfRec s)) (served_log s)"
proof -
  let ?ops = "recOps (tfRec s)" and ?ats = "tfAttempts s" and ?log = "tfLog s"
  from assms(1) obtain rs where run: "replay Apply f0 (map (\<lambda>x. Encode (meant ?ats (snd x))) ?log) = Inr (rs, tfStore s)"
    and rs: "list_all2 (\<lambda>x r. snd x < length ?ats \<and> atFate (?ats ! snd x) = Executed r (fst x)) ?log rs"
    and log: "sorted (map fst ?log)" "distinct (map snd ?log)"
      "\<And>a r t. a < length ?ats \<Longrightarrow> atFate (?ats ! a) = Executed r t \<Longrightarrow> a \<in> set (map snd ?log)"
    by (auto simp: traffic_right_def log_right_def)
  have entry: "\<exists>r. snd x < length ?ats \<and> atFate (?ats ! snd x) = Executed r (fst x)" if "x \<in> set ?log" for x
    using rs that by (auto simp: list_all2_conv_all_nth in_set_conv_nth)
  then have fin: "snd x < length ?ats \<and> atProgress (?ats ! snd x) = Recorded (place s (snd x)) \<and> place s (snd x) < length ?ops \<and>
      recorded_right (?ats ! snd x) (tfTime s) (?ops ! place s (snd x))" if "x \<in> set ?log" for x
    using finished [OF assms(1,2), of "snd x"] that by fastforce
  have told: "told (?ops ! place s (snd x)) r (fst x)" if "x \<in> set ?log" "atFate (?ats ! snd x) = Executed r (fst x)" for x r
  proof -
    have "attempt_right (tfTime s) ?ops (?ats ! snd x)" using fin [OF that(1)] right_attempt [OF assms(1)] by blast
    with fin [OF that(1)] that(2) show ?thesis
      by (auto simp: recorded_right_def proper_def told_def attempt_right_def outcome_defs)
  qed
  have "list_all proper ?ops"
    using assms(1) by (auto simp: list_all_length recorded_right_def elim!: recorded_by)
  moreover have "sorted (map fst (served_log s))" using log(1) by (simp add: served_log_def comp_def)
  moreover have "distinct (map snd (served_log s))"
  proof -
    have "inj_on (place s) (set (map snd ?log))"
      using fin assms(1) by (auto simp: inj_on_def traffic_right_def recorder_right_def) (metis snd_conv)
    moreover have "map snd (served_log s) = map (place s) (map snd ?log)" by (simp add: served_log_def)
    ultimately show ?thesis using log(2) by (simp only: distinct_map)
  qed
  moreover have "list_all (\<lambda>(t, i). i < length ?ops) (served_log s)"
    using fin by (auto simp: served_log_def list_all_iff)
  moreover have "i \<in> set (map snd (served_log s))" if "i < length ?ops" "hOutcome (?ops ! i) = OutcomeOK" for i
  proof -
    from recorded_by [OF assms(1) that(1)] obtain a where a: "a < length ?ats" "place s a = i"
      "recorded_right (?ats ! a) (tfTime s) (?ops ! i)" .
    with that(2) log(3) have "a \<in> set (map snd ?log)" by (auto simp: recorded_right_def)
    with a(2) show ?thesis by (auto simp: served_log_def)
  qed
  moreover have "map (\<lambda>(t, i). Encode (hop_command (?ops ! i))) (served_log s) = map (\<lambda>x. Encode (meant ?ats (snd x))) ?log"
    using fin by (auto simp: served_log_def recorded_right_def)
  moreover have "list_all2 (\<lambda>(t, i) r. told (?ops ! i) r t) (served_log s) rs"
    using rs told by (auto simp: served_log_def list_all2_conv_all_nth)
  moreover have "map (\<lambda>(t, i). hop_command (?ops ! i)) (served_log s) = executed_commands s"
    using fin by (auto simp: served_log_def executed_commands_def recorded_right_def)
  moreover have "fData f0 \<noteq> NilMap" using assms(1) fsm_ok_not_Nil by (auto simp: traffic_right_def log_right_def)
  ultimately show ?thesis using run assms(3) by (simp add: served_history_def list_all_iff)
qed


text \<open>C8: No interleaving of clients makes the check blame a correct store. Whatever the store held when
  the reset phase cleared it, and whatever the order in which goroutines call \<open>Invoke\<close>, requests reach the store, answers are lost and attempts are made again, once all
  have returned the recorded history is never rejected, and passes unless the search timed out.\<close>

theorem concurrent_clients_pass:
  assumes "porcupine_contract Model porc" and "traffic_reachable jt f0 s" and "all_returned s"
    and "wipes_first f0 (executed_commands s)"
  shows "fst (porc Model (ToOperations (recOps (tfRec s))) t) \<noteq> CheckIllegal \<and>
    (crLinearizable (Check porc (recOps (tfRec s)) t) \<longleftrightarrow> fst (porc Model (ToOperations (recOps (tfRec s))) t) \<noteq> CheckUnknown)"
proof -
  note right = reachable_right [OF assms(2)]
  show ?thesis by (rule served_passes [OF assms(1) recorded_recordable [OF right] history_served [OF right assms(3,4)]])
qed

section \<open>The workload\<close>

text \<open>What \<open>RandomOp\<close> draws can be sent: keys of the chaos phase are plain, and what a client remembers of a
  key is a value it drew or one it decoded from an answer, so it is valid UTF-8.\<close>

definition seen_valid :: "(string, string option) fmap \<Rightarrow> bool" where
  "seen_valid seen \<longleftrightarrow> fmpred (\<lambda>_. pred_option valid_utf8) seen"

lemma valid_plain: "list_all plain_char s \<Longrightarrow> valid_utf8 s"
  using plain_char_esc by (intro valid_utf8_ascii) (auto simp: list_all_iff)

lemma hex_digits_plain: "list_all plain_char (hex_digits n)"
proof (induction n rule: hex_digits.induct)
  case (1 n)
  have "list_all plain_char ''0123456789abcdef''" by (simp add: plain_char_def)
  then have "plain_char (hex_char m)" if "m < 16" for m
    using that by (simp add: hex_char_def list_all_length)
  with 1 show ?case by (simp add: hex_digits.simps [of n])
qed

lemma unique_value_valid: "valid_utf8 (unique_value cid seq r)"
proof -
  have "list_all plain_char (int_dec i)" for i using nat_dec_plain by (auto simp: int_dec_def plain_char_def)
  moreover have "list_all plain_char (hex06 r)"
    using hex_digits_plain by (auto simp: hex06_def list_all_iff plain_char_def)
  ultimately show ?thesis by (intro valid_plain) (simp add: unique_value_def plain_char_def)
qed

lemma RandomOp_sendable:
  assumes "RandomOp env c keys w = Inr (op, c', w')" and "list_all plain_key keys" and "seen_valid (clLastSeen c)"
    and "\<And>n w. 0 < n \<Longrightarrow> fst (ceIntn env n w) < n"
  shows "sendable op" and "clLastSeen c' = clLastSeen c"
proof -
  have key: "plain_key (keys ! fst (ceIntn env (length keys) w))" "valid_utf8 (keys ! fst (ceIntn env (length keys) w))" if "keys \<noteq> []"
    using that assms(2,4) by (auto simp: list_all_length plain_key_def intro: valid_plain)
  have seen: "pred_option valid_utf8 (last_seen (clLastSeen c) k)" for k
    using assms(3) by (auto simp: seen_valid_def last_seen_def split: option.splits dest: fmpredD)
  have "keys \<noteq> []" using assms(1) by (auto simp: RandomOp_def)
  note defs = sendable_def mutation_def op_defs command_valid_def hop_command_def zero_hop_def
  show "sendable op" "clLastSeen c' = clLastSeen c"
    using assms(1) key [OF \<open>keys \<noteq> []\<close>] unique_value_valid seen
    by (auto simp: RandomOp_def Let_def case_prod_beta defs split: if_splits)
qed

lemma noteSeen_valid:
  "seen_valid seen \<Longrightarrow> valid_utf8 (hValue op) \<Longrightarrow> valid_utf8 (hRetVal op) \<Longrightarrow> seen_valid (noteSeen op seen)"
  by (auto simp: noteSeen_def seen_valid_def)

lemma chaos_keys_plain: "list_all plain_key (chaos_keys opt)"
  using nat_dec_plain by (auto simp: chaos_keys_def itoa_def list_all_iff plain_key_def plain_char_def)

section \<open>Two clients\<close>

text \<open>One client's put is executed and its answer lost; the other's get, under way at the same time, reads
  the value.\<close>

definition put_k :: hop where
  "put_k = zero_hop\<lparr>hClient := 2, hOp := ''put'', hKey := ''k'', hValue := ''v''\<rparr>"

definition pair_call :: "hop \<Rightarrow> call" where
  "pair_call op = \<lparr>caClient = some_client, caOp = op, caOverall = 0, caNoProxy = False, caPin = Some (hd default_nodes),
     caStart = 0, caAttempt = 0\<rparr>"

definition pair :: "int \<Rightarrow> fsm \<Rightarrow> (int \<times> nat) list \<Rightarrow> attempt list \<Rightarrow> goroutine \<Rightarrow> goroutine \<Rightarrow> hop list \<Rightarrow> traffic" where
  "pair t f log ats g h ops = \<lparr>tfTime = t, tfStore = f, tfLog = log, tfAttempts = ats,
     tfGo = (\<lambda>i. if i = 0 then g else if i = 1 then h else Idle), tfRec = \<lparr>recOps = ops\<rparr>\<rparr>"

lemma pair_simps [simp]:
  "tfTime (pair t f log ats g h ops) = t" "tfStore (pair t f log ats g h ops) = f" "tfLog (pair t f log ats g h ops) = log"
  "tfAttempts (pair t f log ats g h ops) = ats" "tfGo (pair t f log ats g h ops) 0 = g" "tfGo (pair t f log ats g h ops) (Suc 0) = h"
  "recOps (tfRec (pair t f log ats g h ops)) = ops"
  "(pair t f log ats g h ops)\<lparr>tfTime := t'\<rparr> = pair t' f log ats g h ops"
  "(pair t f log ats g h ops)\<lparr>tfStore := f', tfLog := log'\<rparr> = pair t f' log' ats g h ops"
  "(pair t f log ats g h ops)\<lparr>tfAttempts := ats'\<rparr> = pair t f log ats' g h ops"
  "(pair t f log ats g h ops)\<lparr>tfRec := \<lparr>recOps = ops'\<rparr>\<rparr> = pair t f log ats g h ops'"
  "set_go 0 g' (pair t f log ats g h ops) = pair t f log ats g' h ops"
  "set_go (Suc 0) h' (pair t f log ats g h ops) = pair t f log ats g h' ops"
  by (auto simp: pair_def fun_eq_iff)

lemma pair_requests:
  "build_request (call_node (pair_call put_k)) put_k False = Inr \<lparr>hrMethod = ''PUT'', hrURL = ''http://localhost:8081/kv/k'',
     hrNoProxy = '''', hrBody = jprint (JObj [(''value'', JStr ''v'')])\<rparr>"
  "build_request (call_node (pair_call get_of_k)) get_of_k False = Inr \<lparr>hrMethod = ''GET'', hrURL = ''http://localhost:8081/kv/k'',
     hrNoProxy = '''', hrBody = ''''\<rparr>"
  by (simp_all add: build_request_def put_k_def get_of_k_def pair_call_def call_node_def zero_hop_def default_nodes_def Let_def
      del: jprint.simps)


lemma pair_sendable: "sendable put_k" "sendable get_of_k"
  by (simp_all add: sendable_def mutation_def put_k_def get_of_k_def zero_hop_def op_defs plain_key_def plain_char_def
      command_valid_def hop_command_def)

lemma pair_step: "traffic_reachable jt f0 s \<Longrightarrow> traffic_step jt s s' \<Longrightarrow> s' = s'' \<Longrightarrow> traffic_reachable jt f0 s''"
  by (auto intro: traffic_next)

abbreviation pair_put :: "fate \<Rightarrow> progress \<Rightarrow> attempt" where
  "pair_put f p \<equiv> \<lparr>atCall = pair_call put_k, atSent = 0, atReq = \<lparr>hrMethod = ''PUT'', hrURL = ''http://localhost:8081/kv/k'',
     hrNoProxy = '''', hrBody = jprint (JObj [(''value'', JStr ''v'')])\<rparr>, atFate = f, atProgress = p\<rparr>"

abbreviation pair_get :: "fate \<Rightarrow> progress \<Rightarrow> attempt" where
  "pair_get f p \<equiv> \<lparr>atCall = pair_call get_of_k, atSent = 0, atReq = \<lparr>hrMethod = ''GET'', hrURL = ''http://localhost:8081/kv/k'',
     hrNoProxy = '''', hrBody = ''''\<rparr>, atFate = f, atProgress = p\<rparr>"

abbreviation did_put :: result where
  "did_put \<equiv> \<lparr>rOk = True, rPresent = False, rValue = ''''\<rparr>"

abbreviation did_get :: result where
  "did_get \<equiv> \<lparr>rOk = True, rPresent = True, rValue = ''v''\<rparr>"

abbreviation holds_v :: fsm where
  "holds_v \<equiv> \<lparr>fData = GoMap (fmupd ''k'' ''v'' (fmupd ''k'' ''z'' fmempty))\<rparr>"

definition pair_history :: "hop list" where
  "pair_history = [put_k\<lparr>hNode := ''node1'', hEndNs := 9, hOutcome := OutcomeUnknown\<rparr>,
     get_of_k\<lparr>hNode := ''node1'', hEndNs := 9, hOutcome := OutcomeOK, hOk := True, hPresent := True, hRetVal := ''v''\<rparr>]"

lemma used_store_ok: "fsm_ok used_store"
  by (simp add: used_store_def fsm_ok_def fmpred_upd)

lemma pair_begun: "traffic_reachable jt used_store (pair 0 used_store [] [] (Ready (pair_call put_k)) (Ready (pair_call get_of_k)) [])"
proof -
  have 0: "traffic_reachable jt used_store (pair 0 used_store [] [] Idle Idle [])"
    using traffic_start [OF used_store_ok, of jt] by (simp add: quiet_start_def pair_def if_distrib cong: if_cong)
  have 1: "traffic_reachable jt used_store (pair 0 used_store [] [] (Ready (pair_call put_k)) Idle [])"
    by (rule pair_step [OF 0 begin_call [of _ 0 put_k 0 some_client jt 0 False "Some (hd default_nodes)"]])
      (simp_all add: pair_sendable pair_call_def some_client_def default_nodes_def)
  show ?thesis
    by (rule pair_step [OF 1 begin_call [of _ 1 get_of_k 0 some_client jt 0 False "Some (hd default_nodes)"]])
      (simp_all add: pair_sendable pair_call_def some_client_def default_nodes_def)
qed

lemma pair_sent: "traffic_reachable jt used_store (pair 0 used_store [] [pair_put Flying Waiting, pair_get Flying Waiting] (Busy 0) (Busy 1) [])"
proof -
  have short: "length (jprint (JObj [(''value'', JStr ''v'')])) \<le> max_body"
    by (simp add: max_body_def quote_plain plain_char_def)
  have calls: "caOp (pair_call op) = op" "caNoProxy (pair_call op) = False" for op by (simp_all add: pair_call_def)
  have 1: "traffic_reachable jt used_store (pair 0 used_store [] [pair_put Flying Waiting] (Busy 0) (Ready (pair_call get_of_k)) [])"
    by (rule pair_step [OF pair_begun send [of _ 0 "pair_call put_k"]]) (simp_all add: calls pair_requests short del: jprint.simps)
  show ?thesis
    by (rule pair_step [OF 1 send [of _ 1 "pair_call get_of_k"]]) (simp_all add: calls pair_requests del: jprint.simps)
qed

lemma pair_commands:
  "\<exists>raw. request_command jt (wire_request (call_node (pair_call put_k)) (atReq (pair_put f p))) = Some (raw, wire_command put_k)"
  "\<exists>raw. request_command jt (wire_request (call_node (pair_call get_of_k)) (atReq (pair_get f p))) = Some (raw, wire_command get_of_k)"
proof -
  have "plain_key (hKey put_k)" "plain_key (hKey get_of_k)" using pair_sendable by (simp_all add: sendable_def)
  moreover have "length (jprint (JObj [(''value'', JStr ''v'')])) \<le> max_body"
    by (simp add: max_body_def quote_plain plain_char_def)
  ultimately show "\<exists>raw. request_command jt (wire_request (call_node (pair_call put_k)) (atReq (pair_put f p))) = Some (raw, wire_command put_k)"
    "\<exists>raw. request_command jt (wire_request (call_node (pair_call get_of_k)) (atReq (pair_get f p))) = Some (raw, wire_command get_of_k)"
    using request_understood [OF _ pair_requests(1)] request_understood [OF _ pair_requests(2)] by (simp_all del: jprint.simps)
qed

lemma pair_results:
  "Apply used_store (Encode (wire_command put_k)) = Inr (did_put, holds_v)"
  "Apply holds_v (Encode (wire_command get_of_k)) = Inr (did_get, holds_v)"
proof -
  have "Apply f (Encode (wire_command op)) = apply_command f (hop_command op)" if "sendable op" for f op
    using wire_executes [OF that] by (simp add: Apply_def decode_encode_valid)
  note this [OF pair_sendable(1)] this [OF pair_sendable(2)]
  then show "Apply used_store (Encode (wire_command put_k)) = Inr (did_put, holds_v)"
    "Apply holds_v (Encode (wire_command get_of_k)) = Inr (did_get, holds_v)"
    by (simp_all add: put_k_def get_of_k_def hop_command_def apply_command_def op_defs used_store_def gomap_get_def zero_hop_def
        zero_result_def)
qed

lemma pair_executed:
  "traffic_reachable jt used_store (pair 9 holds_v [(0, 0), (9, 1)]
     [pair_put (Executed did_put 0) Waiting, pair_get (Executed did_get 9) Waiting] (Busy 0) (Busy 1) [])"
proof -
  from pair_commands [of jt Flying Waiting] obtain raw1 raw2 where
    cmd: "request_command jt (wire_request (call_node (pair_call put_k)) (atReq (pair_put Flying Waiting))) = Some (raw1, wire_command put_k)"
    "request_command jt (wire_request (call_node (pair_call get_of_k)) (atReq (pair_get Flying Waiting))) = Some (raw2, wire_command get_of_k)"
    by blast
  have 1: "traffic_reachable jt used_store (pair 0 holds_v [(0, 0)] [pair_put (Executed did_put 0) Waiting, pair_get Flying Waiting] (Busy 0) (Busy 1) [])"
    by (rule pair_step [OF pair_sent execute [of 0 _ "pair_put Flying Waiting" jt raw1 "wire_command put_k" did_put holds_v]])
      (use cmd pair_results in \<open>simp_all del: jprint.simps\<close>)
  have 2: "traffic_reachable jt used_store (pair 9 holds_v [(0, 0)] [pair_put (Executed did_put 0) Waiting, pair_get Flying Waiting] (Busy 0) (Busy 1) [])"
    by (rule pair_step [OF 1 pass [of 9]]) (simp_all del: jprint.simps)
  show ?thesis
    by (rule pair_step [OF 2 execute [of 1 _ "pair_get Flying Waiting" jt raw2 "wire_command get_of_k" did_get holds_v]])
      (use cmd pair_results in \<open>simp_all del: jprint.simps\<close>)
qed

abbreviation timed_out :: "net_error + reply" where
  "timed_out \<equiv> Inl \<lparr>neErrnos = [], neOpError = Some ''read''\<rparr>"

lemma pair_outcomes:
  "classify timed_out = attempt_class ''unknown''" "lost timed_out"
  "length (jprint (result_json did_get)) < max_body"
  "classify (answer did_get) = \<lparr>arClass = ''ok'', arOk = True, arPresent = True, arVal = ''v''\<rparr>"
proof -
  show "lost timed_out" by (simp add: lost_def never_sent_def)
  then show "classify timed_out = attempt_class ''unknown''" by (rule classify_lost)
  have "length (jprint (result_json did_get)) \<le> 100" by code_simp
  then show "length (jprint (result_json did_get)) < max_body" by (simp add: max_body_def)
  from classify_answer [OF this] show "classify (answer did_get) = \<lparr>arClass = ''ok'', arOk = True, arPresent = True, arVal = ''v''\<rparr>"
    by simp
qed

lemma pair_answered:
  "traffic_reachable jt used_store (pair 9 holds_v [(0, 0), (9, 1)]
     [pair_put (Executed did_put 0) (Answered timed_out 9), pair_get (Executed did_get 9) (Answered (answer did_get) 9)]
     (Busy 0) (Busy 1) [])"
proof -
  have 1: "traffic_reachable jt used_store (pair 9 holds_v [(0, 0), (9, 1)]
     [pair_put (Executed did_put 0) (Answered timed_out 9), pair_get (Executed did_get 9) Waiting] (Busy 0) (Busy 1) [])"
    by (rule pair_step [OF pair_executed loses [of 0 _ "pair_put (Executed did_put 0) Waiting" timed_out]])
      (simp_all add: pair_outcomes del: jprint.simps)
  show ?thesis
    by (rule pair_step [OF 1 answers [of 1 _ "pair_get (Executed did_get 9) Waiting" did_get 9]])
      (simp_all add: pair_outcomes del: jprint.simps)
qed

lemma pair_rounds:
  "call_round (pair_call put_k) timed_out [0, 9, 9] \<lparr>recOps = []\<rparr> =
     Done \<lparr>ivOp = hd pair_history, ivSeen = fmempty, ivRec = \<lparr>recOps = [hd pair_history]\<rparr>\<rparr> [9]"
  "call_round (pair_call get_of_k) (answer did_get) [0, 9, 9] \<lparr>recOps = [hd pair_history]\<rparr> =
     Done \<lparr>ivOp = last pair_history, ivSeen = fmupd ''k'' (Some ''v'') fmempty, ivRec = \<lparr>recOps = pair_history\<rparr>\<rparr> [9]"
proof -
  have calls: "caOp (pair_call op) = op" "caNoProxy (pair_call op) = False" "nID (call_node (pair_call op)) = ''node1''"
    "caClient (pair_call op) = some_client" for op
    by (simp_all add: pair_call_def call_node_def default_nodes_def)
  have b: "build_request (call_node (pair_call put_k)) (caOp (pair_call put_k)) (caNoProxy (pair_call put_k)) = Inr (atReq (pair_put f p))"
    "build_request (call_node (pair_call get_of_k)) (caOp (pair_call get_of_k)) (caNoProxy (pair_call get_of_k)) = Inr (atReq (pair_get f p))" for f p
    by (simp_all add: calls pair_requests del: jprint.simps)
  show "call_round (pair_call put_k) timed_out [0, 9, 9] \<lparr>recOps = []\<rparr> =
     Done \<lparr>ivOp = hd pair_history, ivSeen = fmempty, ivRec = \<lparr>recOps = [hd pair_history]\<rparr>\<rparr> [9]"
    unfolding call_round_end [OF b(1)] calls pair_outcomes
    by (simp add: round_end_def attempt_class_def Let_def add_op_def pair_history_def put_k_def zero_hop_def some_client_def)
  show "call_round (pair_call get_of_k) (answer did_get) [0, 9, 9] \<lparr>recOps = [hd pair_history]\<rparr> =
     Done \<lparr>ivOp = last pair_history, ivSeen = fmupd ''k'' (Some ''v'') fmempty, ivRec = \<lparr>recOps = pair_history\<rparr>\<rparr> [9]"
    unfolding call_round_end [OF b(2)] calls pair_outcomes
    by (simp add: round_end_def Let_def add_op_def pair_history_def get_of_k_def zero_hop_def some_client_def noteSeen_def)
qed

lemma pair_returned: "traffic_reachable jt used_store (pair 9 holds_v [(0, 0), (9, 1)]
     [pair_put (Executed did_put 0) (Recorded 0), pair_get (Executed did_get 9) (Recorded 1)] Idle Idle pair_history)"
proof -
  have rec: "tfRec (pair t f log ats g h ops) = \<lparr>recOps = ops\<rparr>" for t f log ats g h ops by (simp add: pair_def)
  have 1: "traffic_reachable jt used_store (pair 9 holds_v [(0, 0), (9, 1)]
     [pair_put (Executed did_put 0) (Recorded 0), pair_get (Executed did_get 9) (Answered (answer did_get) 9)]
     Idle (Busy 1) [hd pair_history])"
    by (rule pair_step [OF pair_answered returns [of _ 0 0 "pair_put (Executed did_put 0) (Answered timed_out 9)" timed_out 9 9 9
          "\<lparr>ivOp = hd pair_history, ivSeen = fmempty, ivRec = \<lparr>recOps = [hd pair_history]\<rparr>\<rparr>" "[9]"]])
      (use pair_rounds(1) in \<open>simp_all add: rec del: jprint.simps\<close>)
  show ?thesis
    by (rule pair_step [OF 1 returns [of _ 1 1 "pair_get (Executed did_get 9) (Answered (answer did_get) 9)" "answer did_get" 9 9 9
          "\<lparr>ivOp = last pair_history, ivSeen = fmupd ''k'' (Some ''v'') fmempty, ivRec = \<lparr>recOps = pair_history\<rparr>\<rparr>" "[9]"]])
      (use pair_rounds(2) in \<open>simp_all add: rec del: jprint.simps\<close>)
qed

theorem concurrent_clients_pass_witness: "crLinearizable (Check search_check pair_history 5)"
proof -
  have "fst (search_check Model (ToOperations pair_history) 5) \<noteq> CheckUnknown" by (simp add: search_check_def)
  moreover have "all_returned (pair t f log ats Idle Idle ops)" for t f log ats ops by (simp add: all_returned_def pair_def)
  moreover have "wipes_first used_store (executed_commands (pair 9 holds_v [(0, 0), (9, 1)]
     [pair_put (Executed did_put 0) (Recorded 0), pair_get (Executed did_get 9) (Recorded 1)] Idle Idle pair_history))"
    by (simp add: wipes_first_def executed_commands_def pair_call_def put_k_def get_of_k_def zero_hop_def hop_command_def op_defs
        del: jprint.simps)
  ultimately show ?thesis
    using concurrent_clients_pass [OF search_check_contract pair_returned [of "\<lambda>_ _. ''''"], of 5] by simp
qed

end
