(* ===== verification/Spec2Isabelle.thy ===== *)
theory Spec2Isabelle
  imports Entry
begin

text \<open>
  quorum-kv is a key-value store replicated by Raft, and a harness that drives a cluster of
  three nodes through faults and decides, from what its clients saw, whether the cluster was
  linearizable. This development models both, and proves what each part promises the next,
  up to the statement that matters: when the harness exits with status 0, the operations its
  clients recorded are explained, in an order that respects real time, by one run of the
  state machine the servers replicate (\<open>Entry.harness_exit_0\<close>).

  \<^bold>\<open>The program.\<close> A client's request reaches the HTTP API of some node
  (\<open>internal/server/http.go\<close>). A node that leads proposes the request as a log entry, JSON made by
  \<open>internal/kv/command.go\<close>; a node that does not lead forwards it once to the leader it knows
  (\<open>internal/server/node.go\<close>). Raft hands each committed entry to the state machine of every node
  (\<open>internal/kv/fsm.go\<close>), whose result is the answer. The harness (\<open>internal/harness\<close>) has
  clients that record each operation with its call and return times and what they can know of its fate
  (\<open>client.go\<close>), an injector of faults (\<open>faults.go\<close>) and a sequence of phases (\<open>run.go\<close>); the
  recorded operations go to a file (\<open>internal/history\<close>) and to the checker
  (\<open>internal/checker\<close>), which asks Porcupine for a verdict. \<open>cmd/server\<close> and \<open>cmd/harness\<close> put the
  two programs together.

  \<^bold>\<open>Theories and sources.\<close> A definition has the name of the function or type it translates.

  \<^item> \<open>Prelude\<close>, \<open>Utf8\<close>, \<open>GoString\<close>, \<open>Json\<close>, \<open>Indent\<close>: what the program uses of Go itself. A Go string is a list of
    bytes; an \<open>int64\<close> is a word of 64 bits; a \<open>map[string]string\<close> is a finite map or nil; \<open>encoding/json\<close>
    is a printer and a pushdown parser with Go's nesting limit of 10000, and the rules that store a
    value in a struct. The main result is that the parser reads what the printer wrote
    (\<open>Json.json_text_jprint\<close>, and \<open>Indent.json_text_MarshalIndent\<close> for indented text).
  \<^item> \<open>Command\<close> (\<open>kv/command.go\<close>), \<open>Fsm\<close> (\<open>kv/fsm.go\<close>): commands, the state machine, its panics as values of a
    sum, snapshots. \<open>Fsm\<close> refines \<open>Apply\<close> to an operation on an abstract map. \<open>Replica\<close> puts the state
    machine under Raft's documented contract, a step relation over the nodes (commit, apply, take and
    install a snapshot, restart), and shows by induction on the reachable states that a replica is the replay
    of the prefix it applied.
  \<^item> \<open>History\<close> (\<open>history/history.go\<close>): the record of an operation, its line of JSON, buffered writing to a disk of
    limited space, and \<open>bufio.Scanner\<close> with its limit of 16 MiB to a line.
  \<^item> \<open>Linearizability\<close>: what Porcupine documents it decides. \<open>Checker\<close> (\<open>checker/checker.go\<close>): the model of one key,
    the conversion of the recorded operations and the verdict. The model steps as the state machine does, seen at one
    key, and the keys are independent, so a verdict is a statement on runs of the state machine.
  \<^item> \<open>Nodes\<close> (\<open>harness/nodes.go\<close>), \<open>Node\<close> (\<open>server/node.go\<close>): lists of nodes and peers, the configuration of Raft and of a
    server. \<open>Http\<close> (\<open>server/http.go\<close>): the routing of \<open>net/http\<close>, every handler, every error code.
  \<^item> \<open>Client\<close> (\<open>harness/client.go\<close>): one attempt and its classification, the loop of attempts, the recorder, random
    operations. \<open>Faults\<close> (\<open>harness/faults.go\<close>): the commands the injector runs and the log it keeps.
  \<^item> \<open>Report\<close>, \<open>Run\<close> (\<open>harness/run.go\<close>): the report and its JSON file, every phase, and \<open>Run\<close>. \<open>Fixtures\<close> has the bytes of
    \<open>harness/fixtures\<close>. \<open>Rig\<close> is a concrete world, a store, a clock, containers and files, in which a run
    without faults passes. \<open>Verdict\<close> has what a run shows, \<open>Ends\<close> that every run ends and when, \<open>Fair\<close> that the check blames
    no correct store, \<open>Traffic\<close> that this is so for clients at work together: a step relation in which goroutines run the rounds of
    \<open>Invoke\<close> with one recorder while the store executes, answers, refuses or loses their requests. \<open>Entry\<close> has the two \<open>main\<close> functions (\<open>cmd\<close>).

  \<^bold>\<open>Contracts.\<close> Code that is not in the repository is a parameter, and what is relied on is the \<open>assumes\<close> of
  a locale, each with an instance on a concrete world:
  \<open>raft_contract\<close> (a proposal refused for want of leadership was not accepted, and nothing more; \<open>Http\<close>),
  \<open>working_cluster\<close> (a leader's Raft executes what it is given, the others refuse and name the leader, and the network
  delivers a forwarded request to the leader's handler; \<open>Http\<close>),
  \<open>replicated_sm\<close> (what a state machine owes Raft; interpreted on the program's),
  \<open>spec_list\<close> (the parsing loop that the nodes and the peers share),
  \<open>porcupine_contract\<close> (a verdict is right, a timeout says nothing; met by an exhaustive search),
  \<open>wired_client\<close> and \<open>quiet_failures\<close> (the transport hands a request to the server's handler or to nobody, and to nobody when
  it was never sent, which \<open>never_sent\<close> says of the error and not the client; the second follows from the first), \<open>monotonic_clock\<close> (time does not go back and a sleep takes its time),
  \<open>docker_contract\<close> (what starting, killing and the iptables commands do to a container when they report no error,
  and that starts and flushes, whose errors the injector drops, report none),
  \<open>run_files\<close>, \<open>container_run\<close> and \<open>timed_run\<close> (the same for the world of a run), \<open>prompt_clock\<close> and \<open>punctual_run\<close> (calls return within
  their timeouts, a search of Porcupine's with a timeout is over by then, and time passes as it is told).

  \<^bold>\<open>What the lemmas show.\<close>
  \<^item> State machine: refinement of a map, exactly when it panics, snapshots that restore, replicas that agree when their
    applied indexes do, keys that are one exactly when they agree once made valid UTF-8, one winner among competing swaps.
  \<^item> Server: every route, guard and error; no request makes a replica panic; an answer is a result or one of seven errors; an error
    with a definite code means that nothing was proposed; in a working cluster any node serves as the leader would;
    a compare-and-swap reaches any key at all, where other requests are held to keys that are not empty and have no slash.
  \<^item> Client: a request is understood as it was meant; an operation recorded as failed had no effect, and retrying does
    not apply one twice; \<open>Invoke\<close> returns.
  \<^item> Checker: the meaning of a verdict in both directions; unanswered and failed operations do not count against a store; stale
    reads and second winners are rejected, and so is an unclassified read of a key that holds a value. The check is exact: the history of a correct store passes, whatever it held before the reset and whatever answers were
    lost (\<open>Fair.correct_store_passes\<close>), and clients at work together record such a history in every interleaving
    (\<open>Traffic.concurrent_clients_pass\<close>).
  \<^item> Harness: a broken checker stops the run; the checks of contention and convergence are fair and exact; an isolated node is cut off and nothing else is;
    faults are healed; the durability check asks of the operations alone, whether a leader was killed or not;
    a run ends without a panic within a time computed from its options (\<open>Ends.Run_ends\<close>); the standalone mode agrees with the
    run that wrote the history, and the report's file with the exit status.

  \<^bold>\<open>Bounds and fuel.\<close> Words wrap where the code's do. \<open>Invoke\<close> has fuel for its rounds: each but the last sleeps 150 ms,
  so a deadline of \<open>d\<close> needs \<open>d\<close> / 150 ms + 2 of them (\<open>Client.Invoke_returns\<close>). The loops of a run have fuel in
  the same way: one round each 2 s of 90 s, plus 2, for convergence, and one each 2 s of the chaos phase for the faults, since a round
  of either sleeps that long (\<open>Verdict.loops_end\<close>); \<open>Ends.run_bound\<close> adds up the phases, with the one, one and five minutes
  that the three checks may take (\<open>Run.timed_check\<close>: the world goes on while Porcupine searches), and \<open>Ends.Run_ends\<close> shows that one amount of
  fuel, 135 or the rounds of the longest loop, is enough for all of them. A stop for want of fuel is a value of its own, \<open>OutOfFuel\<close>, and is never
  taken for a result. A request's body is limited to 1 MiB, as the handler limits it.

  \<^bold>\<open>Not modelled.\<close> Locks, because every method that takes one holds it for all it does to the state; what is logged;
  the parsing of flags; the shell, Python and deployment files. In \<open>Run\<close> the goroutines of one phase are given to a scheduler, a parameter,
  as their bodies; \<open>Traffic\<close> has their interleavings, without the phases around them. Consensus, the network, docker
  and Porcupine are the parameters above, as are the texts of times, durations, errors and quoted strings.
\<close>

end
